(* ===== verification/Prelude.thy ===== *)
theory Prelude
  imports
    Main
    "HOL-Library.Word"
    "HOL-Library.Char_ord"
    "HOL-Library.List_Lexorder"
    "HOL-Library.Multiset"
    "HOL-Library.Sublist"
begin

text \<open>
  Shared vocabulary of the development.

  \<^item> Types: a Go \<^verbatim>\<open>string\<close> is a sequence of bytes and is modelled by HOL's
    \<^typ>\<open>string\<close> (a list of 8-bit characters); a \<^verbatim>\<open>[]byte\<close> on the wire is a list of
    8-bit words.
  \<^item> A fallible Go function that returns \<^verbatim>\<open>(T, error)\<close> is a function into a sum type,
    \<open>Inl\<close> carrying the error and \<open>Inr\<close> the value.
  \<^item> Collections of facts (\<open>wf_intros\<close>, \<open>frame_simps\<close>) filled by the component theories.
\<close>

type_synonym byte = "8 word"
type_synonym bytes = "byte list"
type_synonym 'a result = "string + 'a"

named_theorems wf_intros \<open>well-formedness is kept by every operation\<close>
named_theorems frame_simps \<open>what an operation leaves unchanged\<close>

section \<open>Bytes and strings\<close>

definition bytes_of_string :: "string \<Rightarrow> bytes" where
  "bytes_of_string = map of_char"

definition string_of_bytes :: "bytes \<Rightarrow> string" where
  "string_of_bytes = map (\<lambda>b. char_of (unat b))"

lemma unat_of_char_byte [simp]: "unat (of_char c :: byte) = of_char c"
proof -
  have "unat (of_nat (of_char c) :: byte) = of_char c mod 2 ^ 8"
    by (simp only: unat_of_nat len_num0 len_bit0 len_bit1) simp
  then show ?thesis
    by (simp add: of_nat_of_char)
qed

lemma unat_byte_less: "unat (b :: byte) < 256"
  by (rule order_less_le_trans [OF unsigned_less]) simp

lemma string_of_bytes_of_string [simp]: "string_of_bytes (bytes_of_string s) = s"
  by (simp add: string_of_bytes_def bytes_of_string_def map_idI)

lemma length_bytes_of_string [simp]: "length (bytes_of_string s) = length s"
  by (simp add: bytes_of_string_def)

lemma bytes_of_string_append [simp]:
  "bytes_of_string (s @ t) = bytes_of_string s @ bytes_of_string t"
  by (simp add: bytes_of_string_def)

lemma bytes_of_string_inject [simp]: "bytes_of_string s = bytes_of_string t \<longleftrightarrow> s = t"
  by (metis string_of_bytes_of_string)

section \<open>Lists\<close>

lemma find_Some_split:
  "find P xs = Some x \<longleftrightarrow> (\<exists>ys zs. xs = ys @ x # zs \<and> P x \<and> (\<forall>y \<in> set ys. \<not> P y))"
proof (induction xs)
  case (Cons a xs)
  show ?case
  proof (cases "P a")
    case True
    then show ?thesis
      by (auto simp: Cons_eq_append_conv)
  next
    case False
    with Cons show ?thesis
      by (auto simp: Cons_eq_append_conv) (metis append_Cons set_ConsD)
  qed
qed simp

lemma distinct_map_eq_in: "distinct (map f xs) \<Longrightarrow> x \<in> set xs \<Longrightarrow> y \<in> set xs \<Longrightarrow> f x = f y \<Longrightarrow> x = y"
  by (auto simp: distinct_map inj_on_def)

lemma mset_eq_distinct_map:
  assumes "mset xs = mset ys" shows "distinct (map f xs) = distinct (map f ys)"
  using assms by (metis mset_eq_imp_distinct_iff mset_map)

lemma find_distinct_key:
  "distinct (map f xs) \<Longrightarrow> find (\<lambda>x. f x = k) xs = Some x \<longleftrightarrow> x \<in> set xs \<and> f x = k"
  by (induction xs) auto

lemma find_key_perm:
  assumes "mset xs = mset ys" "distinct (map f xs)"
  shows "find (\<lambda>x. f x = k) xs = find (\<lambda>x. f x = k) ys"
proof -
  have "distinct (map f ys)" "set xs = set ys"
    using assms mset_eq_distinct_map mset_eq_setD by blast+
  then have "find (\<lambda>x. f x = k) xs = Some x \<longleftrightarrow> find (\<lambda>x. f x = k) ys = Some x" for x
    using assms(2) by (simp add: find_distinct_key)
  then show ?thesis
    by (metis not_Some_eq)
qed

lemma find_append: "find P (xs @ ys) = (case find P xs of Some x \<Rightarrow> Some x | None \<Rightarrow> find P ys)"
  by (induction xs) auto

lemma find_key_filter:
  "distinct (map f xs) \<Longrightarrow>
   find (\<lambda>x. f x = k) (filter P xs) =
     (case find (\<lambda>x. f x = k) xs of Some x \<Rightarrow> if P x then Some x else None | None \<Rightarrow> None)"
proof (induction xs)
  case (Cons a xs)
  have "find (\<lambda>x. f x = f a) (filter P xs) = None"
    using Cons.prems by (simp add: find_None_iff) (metis image_eqI)
  with Cons show ?case by auto
qed simp

lemma prefix_same_length_eq: "prefix p s \<Longrightarrow> prefix q s \<Longrightarrow> length p = length q \<Longrightarrow> p = q"
  by (metis prefix_length_prefix prefix_order.antisym order_refl)

end
