(* ===== verification/Go_Strings.thy ===== *)
theory Go_Strings
  imports Prelude
begin

text \<open>
  The part of Go's \<^verbatim>\<open>strings\<close>, \<^verbatim>\<open>strconv\<close> and \<^verbatim>\<open>fmt\<close> packages that the source calls:
  \<^verbatim>\<open>HasPrefix\<close>, \<^verbatim>\<open>SplitN(s, sep, 2)\<close> on a one-byte separator, decimal formatting
  (\<^verbatim>\<open>%d\<close>), \<^verbatim>\<open>strconv.Atoi\<close> and \<^verbatim>\<open>ParseInt(s, 10, 64)\<close>, \<^verbatim>\<open>strconv.ParseBool\<close> and lower-case
  hexadecimal (\<^verbatim>\<open>%x\<close>), with the laws the components use: a split is undone by joining,
  formatting an integer and parsing it again gives it back, hexadecimal is injective.
\<close>

section \<open>Prefixes and splitting\<close>

definition strings_HasPrefix :: "string \<Rightarrow> string \<Rightarrow> bool" where
  "strings_HasPrefix s p \<longleftrightarrow> length p \<le> length s \<and> take (length p) s = p"

lemma HasPrefix_iff: "strings_HasPrefix s p \<longleftrightarrow> prefix p s"
  by (metis append_eq_conv_conj length_take min.absorb_iff2 prefix_def strings_HasPrefix_def
      prefix_length_le take_is_prefix)

definition strings_SplitN2 :: "string \<Rightarrow> char \<Rightarrow> string list" where
  "strings_SplitN2 s sep =
     (let before = takeWhile (\<lambda>c. c \<noteq> sep) s; rest = dropWhile (\<lambda>c. c \<noteq> sep) s
      in case rest of [] \<Rightarrow> [s] | _ # after \<Rightarrow> [before, after])"

lemma SplitN2_two:
  "strings_SplitN2 s sep = [a, b] \<longleftrightarrow> s = a @ sep # b \<and> sep \<notin> set a"
proof
  assume l: "strings_SplitN2 s sep = [a, b]"
  let ?P = "\<lambda>c. c \<noteq> sep"
  obtain c r where d: "dropWhile ?P s = c # r"
    using l by (cases "dropWhile ?P s") (auto simp: strings_SplitN2_def)
  with l have "a = takeWhile ?P s" "b = r"
    by (auto simp: strings_SplitN2_def)
  moreover have "\<not> ?P c"
    using d hd_dropWhile [of ?P s] by simp
  ultimately show "s = a @ sep # b \<and> sep \<notin> set a"
    using d takeWhile_dropWhile_id [of ?P s] by (auto dest: set_takeWhileD)
next
  assume r: "s = a @ sep # b \<and> sep \<notin> set a"
  have "takeWhile (\<lambda>c. c \<noteq> sep) s = a"
    using r by (subst takeWhile_append2 [of a, THEN trans] | auto)+
  moreover have "dropWhile (\<lambda>c. c \<noteq> sep) s = sep # b"
    using r by (subst dropWhile_append2 [of a, THEN trans] | auto)+
  ultimately show "strings_SplitN2 s sep = [a, b]"
    by (simp add: strings_SplitN2_def)
qed

lemma SplitN2_cases:
  obtains (one) "strings_SplitN2 s sep = [s]" "sep \<notin> set s"
  | (two) a b where "strings_SplitN2 s sep = [a, b]" "s = a @ sep # b" "sep \<notin> set a"
proof (cases "sep \<in> set s")
  case True
  then obtain a b where "s = a @ sep # b" "sep \<notin> set a"
    by (metis split_list_first)
  then show thesis by (intro two) (auto simp: SplitN2_two)
next
  case False
  have "dropWhile (\<lambda>c. c \<noteq> sep) s = []"
    using False by (auto simp: dropWhile_eq_Nil_conv)
  then have "strings_SplitN2 s sep = [s]"
    by (simp only: strings_SplitN2_def Let_def list.case)
  from this False show thesis by (rule one)
qed

section \<open>Decimal integers\<close>

definition digit_char :: "nat \<Rightarrow> char" where
  "digit_char d = char_of (48 + d)"

fun nat_digits :: "nat \<Rightarrow> string" where
  "nat_digits n =
     (if n < 10 then [digit_char n] else nat_digits (n div 10) @ [digit_char (n mod 10)])"

declare nat_digits.simps [simp del]

definition strconv_Itoa :: "int \<Rightarrow> string" where
  "strconv_Itoa i = (if i < 0 then CHR ''-'' # nat_digits (nat (- i)) else nat_digits (nat i))"

definition is_digit :: "char \<Rightarrow> bool" where
  "is_digit c \<longleftrightarrow> 48 \<le> (of_char c :: nat) \<and> (of_char c :: nat) \<le> 57"

definition digit_val :: "char \<Rightarrow> nat" where
  "digit_val c = of_char c - 48"

definition dec_value :: "string \<Rightarrow> nat" where
  "dec_value s = foldl (\<lambda>n c. 10 * n + digit_val c) 0 s"

text \<open>\<^verbatim>\<open>strconv.ParseInt(s, 10, 64)\<close>: \<open>None\<close> stands for \<^verbatim>\<open>ErrSyntax\<close> and \<^verbatim>\<open>ErrRange\<close>.\<close>

definition strconv_ParseInt :: "string \<Rightarrow> int option" where
  "strconv_ParseInt s =
     (let neg = (case s of c # _ \<Rightarrow> c = CHR ''-'' | [] \<Rightarrow> False);
          ds = (case s of c # r \<Rightarrow> if c = CHR ''-'' \<or> c = CHR ''+'' then r else s | [] \<Rightarrow> [])
      in if ds = [] \<or> \<not> list_all is_digit ds then None
         else let v = (if neg then - int (dec_value ds) else int (dec_value ds))
              in if - (2 ^ 63) \<le> v \<and> v < 2 ^ 63 then Some v else None)"

text \<open>\<^verbatim>\<open>strconv.Atoi\<close> is \<^verbatim>\<open>ParseInt(s, 10, 0)\<close> on a 64-bit platform.\<close>

definition strconv_Atoi :: "string \<Rightarrow> int option" where
  "strconv_Atoi s = strconv_ParseInt s"

definition strconv_ParseBool :: "string \<Rightarrow> bool option" where
  "strconv_ParseBool s =
     (if s \<in> {''1'', ''t'', ''T'', ''TRUE'', ''true'', ''True''} then Some True
      else if s \<in> {''0'', ''f'', ''F'', ''FALSE'', ''false'', ''False''} then Some False
      else None)"

lemma of_char_digit_char: "d < 10 \<Longrightarrow> (of_char (digit_char d) :: nat) = 48 + d"
  by (simp add: digit_char_def)

lemma is_digit_digit_char [simp]: "d < 10 \<Longrightarrow> is_digit (digit_char d)"
  by (simp add: is_digit_def of_char_digit_char)

lemma digit_val_digit_char [simp]: "d < 10 \<Longrightarrow> digit_val (digit_char d) = d"
  by (simp add: digit_val_def of_char_digit_char)

lemma nat_digits_is_digit: "list_all is_digit (nat_digits n)"
  by (induction n rule: nat_digits.induct) (subst nat_digits.simps, simp)

lemma nat_digits_not_Nil [simp]: "nat_digits n \<noteq> []"
  by (subst nat_digits.simps) simp

lemma dec_value_snoc [simp]: "dec_value (s @ [c]) = 10 * dec_value s + digit_val c"
  by (simp add: dec_value_def)

lemma dec_value_nat_digits [simp]: "dec_value (nat_digits n) = n"
proof (induction n rule: nat_digits.induct)
  case (1 n)
  show ?case
    by (subst nat_digits.simps) (use 1 in \<open>auto simp: dec_value_def [of "[_]"]\<close>)
qed

lemma not_is_digit_sign: "is_digit c \<Longrightarrow> c \<noteq> CHR ''-'' \<and> c \<noteq> CHR ''+''"
  by (auto simp: is_digit_def)

lemma nat_digits_Cons:
  obtains c r where "nat_digits n = c # r" "is_digit c" "c \<noteq> CHR ''-''" "c \<noteq> CHR ''+''"
  using nat_digits_is_digit [of n] nat_digits_not_Nil [of n] not_is_digit_sign
  by (cases "nat_digits n") auto

lemma ParseInt_Itoa:
  assumes "- (2 ^ 63) \<le> i" "i < 2 ^ 63"
  shows "strconv_ParseInt (strconv_Itoa i) = Some i"
proof (cases "i < 0")
  case True
  with assms show ?thesis
    by (simp add: strconv_ParseInt_def strconv_Itoa_def nat_digits_is_digit Let_def)
next
  case False
  obtain c r where "nat_digits (nat i) = c # r" "c \<noteq> CHR ''-''" "c \<noteq> CHR ''+''"
    using nat_digits_Cons by blast
  with assms False nat_digits_is_digit [of "nat i"] dec_value_nat_digits [of "nat i"]
  show ?thesis
    by (simp add: strconv_ParseInt_def strconv_Itoa_def Let_def)
qed

lemma Itoa_neg_nonneg: "i < 0 \<Longrightarrow> 0 \<le> j \<Longrightarrow> strconv_Itoa i \<noteq> strconv_Itoa j"
  using nat_digits_Cons [of "nat j"] by (metis list.inject not_le strconv_Itoa_def)

lemma Itoa_inject:
  assumes "strconv_Itoa i = strconv_Itoa j" shows "i = j"
proof (cases "i < 0 \<longleftrightarrow> j < 0")
  case True
  with assms have "nat_digits (nat \<bar>i\<bar>) = nat_digits (nat \<bar>j\<bar>)"
    by (auto simp: strconv_Itoa_def split: if_splits)
  then have "nat \<bar>i\<bar> = nat \<bar>j\<bar>"
    by (metis dec_value_nat_digits)
  with True show ?thesis by auto
next
  case False
  with assms Itoa_neg_nonneg [of i j] Itoa_neg_nonneg [of j i] show ?thesis
    by (metis linorder_not_le)
qed

section \<open>Hexadecimal\<close>

definition hex_digit :: "nat \<Rightarrow> char" where
  "hex_digit d = (if d < 10 then char_of (48 + d) else char_of (87 + d))"

text \<open>\<^verbatim>\<open>fmt.Sprintf("%x", b)\<close> for a byte slice or array.\<close>

definition fmt_x :: "bytes \<Rightarrow> string" where
  "fmt_x bs = concat (map (\<lambda>b. [hex_digit (unat b div 16), hex_digit (unat b mod 16)]) bs)"

lemma hex_digit_inject: "d < 16 \<Longrightarrow> e < 16 \<Longrightarrow> hex_digit d = hex_digit e \<longleftrightarrow> d = e"
  by (auto simp: hex_digit_def)

lemma length_fmt_x [simp]: "length (fmt_x bs) = 2 * length bs"
  by (induction bs) (auto simp: fmt_x_def)

lemma fmt_x_Nil [simp]: "fmt_x [] = []"
  by (simp add: fmt_x_def)

lemma fmt_x_Cons [simp]:
  "fmt_x (b # bs) = hex_digit (unat b div 16) # hex_digit (unat b mod 16) # fmt_x bs"
  by (simp add: fmt_x_def)

lemma fmt_x_inject: "fmt_x bs = fmt_x cs \<Longrightarrow> bs = cs"
proof (induction bs arbitrary: cs)
  case Nil
  then show ?case by (cases cs) auto
next
  case (Cons b bs)
  then obtain c cs' where cs: "cs = c # cs'"
    by (cases cs) auto
  have bound: "unat x div 16 < 16" for x :: byte
    using unat_byte_less [of x] by simp
  from Cons.prems cs bound have "unat b div 16 = unat c div 16" "unat b mod 16 = unat c mod 16"
    by (auto simp: hex_digit_inject)
  then have "unat b = unat c"
    by (metis div_mult_mod_eq)
  then have "b = c"
    by (rule unsigned_word_eqI)
  with Cons cs show ?case by simp
qed

end
