(* ===== verification/Auth.thy ===== *)
theory Auth
  imports Go_Strings
begin

unbundle bit_operations_syntax

text \<open>
  Authentication of frpc sessions, \<^verbatim>\<open>internal/auth/auth.go\<close>: the key is the hexadecimal MD5 of the
  token followed by the decimal timestamp, compared in constant time. MD5
  (\<^verbatim>\<open>crypto/md5\<close>, RFC 1321) and \<^verbatim>\<open>subtle.ConstantTimeCompare\<close> are written out over 32-bit and
  8-bit words.
\<close>

section \<open>MD5\<close>

type_synonym w32 = "32 word"

definition md5_K :: "w32 list" where
  "md5_K =
     [0xd76aa478, 0xe8c7b756, 0x242070db, 0xc1bdceee, 0xf57c0faf, 0x4787c62a,
      0xa8304613, 0xfd469501, 0x698098d8, 0x8b44f7af, 0xffff5bb1, 0x895cd7be,
      0x6b901122, 0xfd987193, 0xa679438e, 0x49b40821, 0xf61e2562, 0xc040b340,
      0x265e5a51, 0xe9b6c7aa, 0xd62f105d, 0x02441453, 0xd8a1e681, 0xe7d3fbc8,
      0x21e1cde6, 0xc33707d6, 0xf4d50d87, 0x455a14ed, 0xa9e3e905, 0xfcefa3f8,
      0x676f02d9, 0x8d2a4c8a, 0xfffa3942, 0x8771f681, 0x6d9d6122, 0xfde5380c,
      0xa4beea44, 0x4bdecfa9, 0xf6bb4b60, 0xbebfbc70, 0x289b7ec6, 0xeaa127fa,
      0xd4ef3085, 0x04881d05, 0xd9d4d039, 0xe6db99e5, 0x1fa27cf8, 0xc4ac5665,
      0xf4292244, 0x432aff97, 0xab9423a7, 0xfc93a039, 0x655b59c3, 0x8f0ccc92,
      0xffeff47d, 0x85845dd1, 0x6fa87e4f, 0xfe2ce6e0, 0xa3014314, 0x4e0811a1,
      0xf7537e82, 0xbd3af235, 0x2ad7d2bb, 0xeb86d391]"

definition md5_S :: "nat list" where
  "md5_S = concat (replicate 4 [7, 12, 17, 22]) @ concat (replicate 4 [5, 9, 14, 20]) @
     concat (replicate 4 [4, 11, 16, 23]) @ concat (replicate 4 [6, 10, 15, 21])"

fun le_put :: "nat \<Rightarrow> nat \<Rightarrow> bytes" where
  "le_put 0 n = []"
| "le_put (Suc k) n = of_nat (n mod 256) # le_put k (n div 256)"

fun le_get :: "bytes \<Rightarrow> nat" where
  "le_get [] = 0"
| "le_get (b # bs) = unat b + 256 * le_get bs"

definition md5_pad :: "bytes \<Rightarrow> bytes" where
  "md5_pad m = m @ [0x80] @ replicate ((119 - length m mod 64) mod 64) 0 @ le_put 8 (8 * length m)"

definition md5_words :: "bytes \<Rightarrow> w32 list" where
  "md5_words block = map (\<lambda>i. of_nat (le_get (take 4 (drop (4 * i) block)))) [0..<16]"

definition md5_round :: "w32 list \<Rightarrow> nat \<Rightarrow> w32 \<times> w32 \<times> w32 \<times> w32 \<Rightarrow> w32 \<times> w32 \<times> w32 \<times> w32" where
  "md5_round M i s =
     (case s of (a, b, c, d) \<Rightarrow>
        let (f, g) =
          (if i < 16 then ((b AND c) OR (NOT b AND d), i)
           else if i < 32 then ((d AND b) OR (NOT d AND c), (5 * i + 1) mod 16)
           else if i < 48 then (b XOR c XOR d, (3 * i + 5) mod 16)
           else (c XOR (b OR NOT d), (7 * i) mod 16))
        in (d, b + word_rotl (md5_S ! i) (a + f + md5_K ! i + M ! g), b, c))"

definition md5_block :: "w32 \<times> w32 \<times> w32 \<times> w32 \<Rightarrow> bytes \<Rightarrow> w32 \<times> w32 \<times> w32 \<times> w32" where
  "md5_block s block =
     (case (s, fold (md5_round (md5_words block)) [0..<64] s) of
        ((a, b, c, d), (a', b', c', d')) \<Rightarrow> (a + a', b + b', c + c', d + d'))"

definition md5_Sum :: "bytes \<Rightarrow> bytes" where
  "md5_Sum m =
     (let p = md5_pad m;
          s = foldl (\<lambda>s i. md5_block s (take 64 (drop (64 * i) p)))
                (0x67452301, 0xefcdab89, 0x98badcfe, 0x10325476) [0..<length p div 64]
      in case s of (a, b, c, d) \<Rightarrow> concat (map (\<lambda>w. le_put 4 (unat w)) [a, b, c, d]))"

lemma length_le_put [simp]: "length (le_put k n) = k"
  by (induction k arbitrary: n) simp_all

lemma length_md5_Sum: "length (md5_Sum m) = 16"
  by (simp add: md5_Sum_def Let_def split: prod.split)

section \<open>The auth key\<close>

definition BuildAuthKey :: "string \<Rightarrow> int \<Rightarrow> string" where
  "BuildAuthKey token timestamp =
     (let raw = token @ strconv_Itoa timestamp
      in fmt_x (md5_Sum (bytes_of_string raw)))"

text \<open>
  \<^verbatim>\<open>subtle.ConstantTimeCompare\<close>: after the length test it accumulates all differences and turns
  the accumulated byte into 1 or 0 by arithmetic on 32 bits.
\<close>

definition ConstantTimeByteEq :: "byte \<Rightarrow> byte \<Rightarrow> w32" where
  "ConstantTimeByteEq x y = drop_bit 31 (of_nat (unat (x XOR y)) - 1)"

definition ConstantTimeCompare :: "bytes \<Rightarrow> bytes \<Rightarrow> w32" where
  "ConstantTimeCompare x y =
     (if length x \<noteq> length y then 0
      else ConstantTimeByteEq (foldl (\<lambda>v (a, b). v OR (a XOR b)) 0 (zip x y)) 0)"

definition VerifyAuth :: "string \<Rightarrow> int \<Rightarrow> string \<Rightarrow> bool" where
  "VerifyAuth serverToken timestamp clientKey =
     (let expected = BuildAuthKey serverToken timestamp
      in ConstantTimeCompare (bytes_of_string expected) (bytes_of_string clientKey) = 1)"

lemma ConstantTimeByteEq: "ConstantTimeByteEq v 0 = (if v = 0 then 1 else 0)"
proof (cases "v = 0")
  case True
  have "drop_bit 31 (- 1 :: w32) = 1"
    by code_simp
  with True show ?thesis by (simp add: ConstantTimeByteEq_def)
next
  case False
  then have "0 < unat v" "unat v < 256"
    using unat_byte_less [of v] by (auto simp: unat_gt_0)
  have u: "unat (of_nat (unat v) :: w32) = unat v"
    using \<open>unat v < 256\<close> by (simp only: unat_of_nat len_num0 len_bit0 len_bit1) simp
  have "of_nat (unat v) \<noteq> (0 :: w32)"
    using u \<open>0 < unat v\<close> by (metis less_not_refl unat_0)
  from unat_minus_one [OF this] have "unat (of_nat (unat v) - 1 :: w32) = unat v - 1"
    unfolding u .
  then have "unat (drop_bit 31 (of_nat (unat v) - 1 :: w32)) = 0"
    using \<open>unat v < 256\<close> unfolding unat_drop_bit_eq by (simp only: drop_bit_eq_div) simp
  then have "drop_bit 31 (of_nat (unat v) - 1 :: w32) = 0"
    by (simp only: unsigned_eq_0_iff)
  with False show ?thesis
    unfolding ConstantTimeByteEq_def by simp
qed

lemma word_or_eq_0: "v OR w = 0 \<longleftrightarrow> v = 0 \<and> w = (0 :: byte)"
  by (auto simp: bit_eq_iff bit_or_iff)

lemma word_xor_eq_0: "v XOR w = 0 \<longleftrightarrow> v = (w :: byte)"
  by (auto simp: bit_eq_iff bit_xor_iff)

lemma diff_fold_0:
  "length x = length y \<Longrightarrow> foldl (\<lambda>v (a, b). v OR (a XOR b)) v (zip x y) = 0 \<longleftrightarrow> v = 0 \<and> x = (y :: bytes)"
  by (induction x y arbitrary: v rule: list_induct2) (auto simp: word_or_eq_0 word_xor_eq_0)

lemma ConstantTimeCompare: "ConstantTimeCompare x y = (if x = y then 1 else 0)"
  by (auto simp: ConstantTimeCompare_def ConstantTimeByteEq diff_fold_0)

lemma length_BuildAuthKey: "length (BuildAuthKey token ts) = 32"
  by (simp add: BuildAuthKey_def Let_def length_md5_Sum)

definition lower_hex :: "char \<Rightarrow> bool" where
  "lower_hex c \<longleftrightarrow> (let n = of_char c :: nat in 48 \<le> n \<and> n \<le> 57 \<or> 97 \<le> n \<and> n \<le> 102)"

lemma fmt_x_hex: "list_all lower_hex (fmt_x bs)"
proof (induction bs)
  case (Cons b bs)
  have "lower_hex (hex_digit d)" if "d < 16" for d
    using that by (auto simp: hex_digit_def lower_hex_def Let_def)
  moreover have "unat b div 16 < 16" "unat b mod 16 < 16"
    using unat_byte_less [of b] by auto
  ultimately show ?case
    using Cons by simp
qed simp

lemma VerifyAuth_iff: "VerifyAuth token timestamp key \<longleftrightarrow> key = BuildAuthKey token timestamp"
  by (auto simp: VerifyAuth_def ConstantTimeCompare Let_def)

lemma BuildAuthKey_eq_iff: "BuildAuthKey token timestamp = BuildAuthKey token' timestamp' \<longleftrightarrow>
    md5_Sum (bytes_of_string (token @ strconv_Itoa timestamp)) =
    md5_Sum (bytes_of_string (token' @ strconv_Itoa timestamp'))"
  unfolding BuildAuthKey_def Let_def using fmt_x_inject by metis

section \<open>Properties\<close>

text \<open>
  C38: \<^verbatim>\<open>VerifyAuth\<close> accepts exactly the key that \<^verbatim>\<open>BuildAuthKey\<close> gives for the server's token and the
  timestamp of the login: the constant-time comparison is equality of strings, also for
  keys of another length, and the key is always 32 lowercase hexadecimal digits. Two logins are
  accepted with the same key exactly when the MD5 sums of token and timestamp agree.
\<close>

theorem VerifyAuth_exact:
  "(VerifyAuth token timestamp key \<longleftrightarrow> key = BuildAuthKey token timestamp)
   \<and> length (BuildAuthKey token timestamp) = 32
   \<and> list_all lower_hex (BuildAuthKey token timestamp)
   \<and> (VerifyAuth token' timestamp' (BuildAuthKey token timestamp) \<longleftrightarrow>
       md5_Sum (bytes_of_string (token @ strconv_Itoa timestamp)) =
       md5_Sum (bytes_of_string (token' @ strconv_Itoa timestamp')))"
  unfolding VerifyAuth_iff length_BuildAuthKey BuildAuthKey_eq_iff
  by (simp add: BuildAuthKey_def Let_def fmt_x_hex)

end
