(* ===== verification/Json.thy ===== *)
theory Json
  imports Go_Strings
begin

text \<open>
  The part of \<^verbatim>\<open>encoding/json\<close> that the wire codec uses: rendering of a JSON value by
  \<^verbatim>\<open>json.Marshal\<close> (HTML-safe string escapes, invalid UTF-8 replaced) and the syntax that
  \<^verbatim>\<open>json.Unmarshal\<close> accepts (RFC 8259 with white space, escapes and surrogate pairs, numbers
  kept as their literal). Strings are byte strings, so UTF-8 is treated as byte sequences.

  The parser is recursive over nested values, with a fuel argument that bounds its calls;
  \<open>pval_stable\<close> shows that the fuel \<open>json_parse\<close> passes (twice the length of the text, plus
  two) is enough: more fuel never changes its answer. \<open>json_parse_encode\<close> is the round
  trip.
\<close>

datatype json =
    JNull
  | JBool bool
  | JNum string
  | JStr string
  | JArr "json list"
  | JObj "(string \<times> json) list"

abbreviation ord :: "char \<Rightarrow> nat" where
  "ord c \<equiv> of_char c"

abbreviation DQUOTE :: char where "DQUOTE \<equiv> CHR 0x22"
abbreviation BSLASH :: char where "BSLASH \<equiv> CHR 0x5C"

section \<open>UTF-8\<close>

definition in_range :: "nat \<Rightarrow> nat \<Rightarrow> char \<Rightarrow> bool" where
  "in_range lo hi c \<longleftrightarrow> lo \<le> ord c \<and> ord c \<le> hi"

text \<open>Length of the well-formed multi-byte sequence at the head of a string, as
  \<^verbatim>\<open>utf8.DecodeRune\<close> accepts it; \<open>None\<close> where it reports \<^verbatim>\<open>RuneError\<close> with width 1.\<close>

definition utf8_2 :: "char \<Rightarrow> char \<Rightarrow> bool" where
  "utf8_2 a b \<longleftrightarrow> in_range 0xC2 0xDF a \<and> in_range 0x80 0xBF b"

definition utf8_3 :: "char \<Rightarrow> char \<Rightarrow> char \<Rightarrow> bool" where
  "utf8_3 a b c \<longleftrightarrow>
     (in_range 0xE0 0xE0 a \<and> in_range 0xA0 0xBF b \<or>
      in_range 0xE1 0xEC a \<and> in_range 0x80 0xBF b \<or>
      in_range 0xED 0xED a \<and> in_range 0x80 0x9F b \<or>
      in_range 0xEE 0xEF a \<and> in_range 0x80 0xBF b) \<and> in_range 0x80 0xBF c"

definition utf8_4 :: "char \<Rightarrow> char \<Rightarrow> char \<Rightarrow> char \<Rightarrow> bool" where
  "utf8_4 a b c d \<longleftrightarrow>
     (in_range 0xF0 0xF0 a \<and> in_range 0x90 0xBF b \<or>
      in_range 0xF1 0xF3 a \<and> in_range 0x80 0xBF b \<or>
      in_range 0xF4 0xF4 a \<and> in_range 0x80 0x8F b) \<and>
     in_range 0x80 0xBF c \<and> in_range 0x80 0xBF d"

definition utf8_size :: "string \<Rightarrow> nat option" where
  "utf8_size s =
     (case s of
        a # b # r \<Rightarrow>
          if utf8_2 a b then Some 2
          else (case r of
                  [] \<Rightarrow> None
                | c # r' \<Rightarrow>
                    if utf8_3 a b c then Some 3
                    else (case r' of [] \<Rightarrow> None | d # _ \<Rightarrow> if utf8_4 a b c d then Some 4 else None))
      | _ \<Rightarrow> None)"

text \<open>\<^verbatim>\<open>utf8.EncodeRune\<close>: surrogates and values beyond U+10FFFF encode as U+FFFD.\<close>

definition utf8_encode :: "nat \<Rightarrow> string" where
  "utf8_encode u =
     (if u < 0x80 then [char_of u]
      else if u < 0x800 then [char_of (0xC0 + u div 64), char_of (0x80 + u mod 64)]
      else if 0xD800 \<le> u \<and> u < 0xE000 \<or> 0x10FFFF < u then [CHR 0xEF, CHR 0xBF, CHR 0xBD]
      else if u < 0x10000
        then [char_of (0xE0 + u div 4096), char_of (0x80 + u div 64 mod 64), char_of (0x80 + u mod 64)]
      else [char_of (0xF0 + u div 262144), char_of (0x80 + u div 4096 mod 64),
            char_of (0x80 + u div 64 mod 64), char_of (0x80 + u mod 64)])"

definition rune_error :: string where
  "rune_error = [CHR 0xEF, CHR 0xBF, CHR 0xBD]"

section \<open>Rendering: \<^verbatim>\<open>json.Marshal\<close>\<close>

definition html_safe :: "char \<Rightarrow> bool" where
  "html_safe c \<longleftrightarrow> 0x20 \<le> ord c \<and> ord c < 0x80 \<and> c \<notin> {DQUOTE, BSLASH, CHR ''&'', CHR ''<'', CHR ''>''}"

definition esc_ascii :: "char \<Rightarrow> string" where
  "esc_ascii c =
     (if html_safe c then [c]
      else if c = BSLASH \<or> c = DQUOTE then [BSLASH, c]
      else if c = CHR 0x08 then [BSLASH, CHR ''b'']
      else if c = CHR 0x0C then [BSLASH, CHR ''f'']
      else if c = CHR 0x0A then [BSLASH, CHR ''n'']
      else if c = CHR 0x0D then [BSLASH, CHR ''r'']
      else if c = CHR 0x09 then [BSLASH, CHR ''t'']
      else [BSLASH, CHR ''u'', CHR ''0'', CHR ''0'', hex_digit (ord c div 16), hex_digit (ord c mod 16)])"

text \<open>The two line separators U+2028 and U+2029 are escaped as well.\<close>

definition line_separator :: "string \<Rightarrow> char option" where
  "line_separator s =
     (if take 3 s = [CHR 0xE2, CHR 0x80, CHR 0xA8] then Some (CHR ''8'')
      else if take 3 s = [CHR 0xE2, CHR 0x80, CHR 0xA9] then Some (CHR ''9'') else None)"

fun esc :: "string \<Rightarrow> string" where
  "esc [] = []"
| "esc (c # cs) =
     (if ord c < 0x80 then esc_ascii c @ esc cs
      else case utf8_size (c # cs) of
             None \<Rightarrow> BSLASH # ''ufffd'' @ esc cs
           | Some n \<Rightarrow>
               (case line_separator (c # cs) of
                  Some d \<Rightarrow> BSLASH # ''u202'' @ [d]
                | None \<Rightarrow> take n (c # cs)) @ esc (drop (n - 1) cs))"

definition encode_str :: "string \<Rightarrow> string" where
  "encode_str s = DQUOTE # esc s @ [DQUOTE]"

fun joined :: "string list \<Rightarrow> string" where
  "joined [] = []"
| "joined [s] = s"
| "joined (s # t # ss) = s @ CHR '','' # joined (t # ss)"

fun encode :: "json \<Rightarrow> string" where
  "encode JNull = ''null''"
| "encode (JBool b) = (if b then ''true'' else ''false'')"
| "encode (JNum tok) = tok"
| "encode (JStr s) = encode_str s"
| "encode (JArr vs) = CHR ''['' # joined (map encode vs) @ '']''"
| "encode (JObj kvs) =
     CHR ''{'' # joined (map (\<lambda>(k, v). encode_str k @ CHR '':'' # encode v) kvs) @ ''}''"

section \<open>Parsing: \<^verbatim>\<open>json.Unmarshal\<close>\<close>

definition is_space :: "char \<Rightarrow> bool" where
  "is_space c \<longleftrightarrow> c \<in> {CHR '' '', CHR 0x09, CHR 0x0A, CHR 0x0D}"

definition skip_ws :: "string \<Rightarrow> string" where
  "skip_ws = dropWhile is_space"

definition hex_val :: "char \<Rightarrow> nat option" where
  "hex_val c =
     (if is_digit c then Some (ord c - 48)
      else if in_range 97 102 c then Some (ord c - 87)
      else if in_range 65 70 c then Some (ord c - 55)
      else None)"

text \<open>Four hexadecimal digits at the head of a string.\<close>

fun hex4 :: "string \<Rightarrow> nat option" where
  "hex4 (a # b # c # d # _) =
     (case (hex_val a, hex_val b, hex_val c, hex_val d) of
        (Some w, Some x, Some y, Some z) \<Rightarrow> Some (4096 * w + 256 * x + 16 * y + z)
      | _ \<Rightarrow> None)"
| "hex4 _ = None"

text \<open>After \<^verbatim>\<open>\u\<close>: the decoded bytes and what follows. A high surrogate takes the escape after
  it along when that is a low surrogate; any other surrogate is U+FFFD.\<close>

definition unescape_u :: "string \<Rightarrow> (string \<times> string) option" where
  "unescape_u s =
     (case hex4 s of
        None \<Rightarrow> None
      | Some u \<Rightarrow>
          let r = drop 4 s;
              low = (case r of b # k # r' \<Rightarrow> if b = BSLASH \<and> k = CHR ''u'' then hex4 r' else None | _ \<Rightarrow> None)
          in if 0xD800 \<le> u \<and> u < 0xE000
             then (case low of
                     Some u2 \<Rightarrow>
                       if u < 0xDC00 \<and> 0xDC00 \<le> u2 \<and> u2 < 0xE000
                       then Some (utf8_encode ((u - 0xD800) * 1024 + (u2 - 0xDC00) + 0x10000), drop 6 r)
                       else Some (rune_error, r)
                   | None \<Rightarrow> Some (rune_error, r))
             else Some (utf8_encode u, r))"

definition unescape :: "string \<Rightarrow> (string \<times> string) option" where
  "unescape s =
     (case s of
        [] \<Rightarrow> None
      | e # r \<Rightarrow>
          if e = DQUOTE \<or> e = BSLASH \<or> e = CHR ''/'' then Some ([e], r)
          else if e = CHR ''b'' then Some ([CHR 0x08], r)
          else if e = CHR ''f'' then Some ([CHR 0x0C], r)
          else if e = CHR ''n'' then Some ([CHR 0x0A], r)
          else if e = CHR ''r'' then Some ([CHR 0x0D], r)
          else if e = CHR ''t'' then Some ([CHR 0x09], r)
          else if e = CHR ''u'' then unescape_u r
          else None)"

text \<open>One unit of a string body: an escape, an ASCII byte, a UTF-8 sequence or a bad byte.\<close>

definition unquote_unit :: "string \<Rightarrow> (string \<times> string) option" where
  "unquote_unit s =
     (case s of
        [] \<Rightarrow> None
      | c # cs \<Rightarrow>
          if c = BSLASH then unescape cs
          else if ord c < 0x20 then None
          else if ord c < 0x80 then Some ([c], cs)
          else case utf8_size s of
                 None \<Rightarrow> Some (rune_error, cs)
               | Some n \<Rightarrow> Some (take n s, drop n s))"

lemma utf8_size_bounds: "utf8_size s = Some n \<Longrightarrow> 2 \<le> n \<and> n \<le> 4 \<and> n \<le> length s"
  by (auto simp: utf8_size_def split: list.splits if_splits)

lemma hex4_length: "hex4 s = Some u \<Longrightarrow> 4 \<le> length s"
  by (cases s rule: hex4.cases) auto

lemma unescape_u_shrinks: "unescape_u s = Some (d, r) \<Longrightarrow> length r < length s"
  using hex4_length [of s]
  by (auto simp: unescape_u_def Let_def split: option.splits if_splits)

lemma unescape_shrinks: "unescape s = Some (d, r) \<Longrightarrow> length r < length s"
  using unescape_u_shrinks [of "tl s"]
  by (fastforce simp: unescape_def split: list.splits if_splits)

lemma unquote_unit_shrinks: "unquote_unit s = Some (d, r) \<Longrightarrow> length r < length s"
  using unescape_shrinks [of "tl s"] utf8_size_bounds [of s]
  by (fastforce simp: unquote_unit_def split: list.splits if_splits option.splits)

text \<open>The body of a string literal, after the opening quote: the decoded string and what
  follows the closing quote.\<close>

function (sequential) unquote :: "string \<Rightarrow> (string \<times> string) option" where
  "unquote s =
     (if s \<noteq> [] \<and> hd s = DQUOTE then Some ([], tl s)
      else case unquote_unit s of
             None \<Rightarrow> None
           | Some (d, r) \<Rightarrow>
               (case unquote r of None \<Rightarrow> None | Some (d', r') \<Rightarrow> Some (d @ d', r')))"
  by pat_completeness auto
termination
  by (relation "measure length") (auto dest: unquote_unit_shrinks)

declare unquote.simps [simp del]

definition num_int :: "string \<Rightarrow> (string \<times> string) option" where
  "num_int s =
     (case s of
        [] \<Rightarrow> None
      | c # r \<Rightarrow>
          if c = CHR ''0'' then Some ([c], r)
          else if is_digit c then Some (takeWhile is_digit s, dropWhile is_digit s)
          else None)"

definition num_frac :: "string \<Rightarrow> (string \<times> string) option" where
  "num_frac s =
     (case s of
        [] \<Rightarrow> Some ([], s)
      | c # r \<Rightarrow>
          if c = CHR ''.'' then
            (if takeWhile is_digit r = [] then None
             else Some (c # takeWhile is_digit r, dropWhile is_digit r))
          else Some ([], s))"

definition num_exp :: "string \<Rightarrow> (string \<times> string) option" where
  "num_exp s =
     (case s of
        [] \<Rightarrow> Some ([], s)
      | c # r \<Rightarrow>
          if c = CHR ''e'' \<or> c = CHR ''E'' then
            (let sign = (case r of g # _ \<Rightarrow> if g = CHR ''+'' \<or> g = CHR ''-'' then [g] else [] | [] \<Rightarrow> []);
                 ds = drop (length sign) r
             in if takeWhile is_digit ds = [] then None
                else Some (c # sign @ takeWhile is_digit ds, dropWhile is_digit ds))
          else Some ([], s))"

text \<open>A number literal and what follows it.\<close>

definition parse_num :: "string \<Rightarrow> (string \<times> string) option" where
  "parse_num s =
     (let sign = (case s of c # _ \<Rightarrow> if c = CHR ''-'' then [c] else [] | [] \<Rightarrow> [])
      in case num_int (drop (length sign) s) of
           None \<Rightarrow> None
         | Some (i, r) \<Rightarrow>
             (case num_frac r of
                None \<Rightarrow> None
              | Some (f, r1) \<Rightarrow>
                  (case num_exp r1 of
                     None \<Rightarrow> None
                   | Some (e, r2) \<Rightarrow> Some (sign @ i @ f @ e, r2))))"

definition parse_lit :: "string \<Rightarrow> json \<Rightarrow> string \<Rightarrow> (json \<times> string) option" where
  "parse_lit word v s =
     (if strings_HasPrefix s word then Some (v, drop (length word) s) else None)"

definition parse_scalar :: "string \<Rightarrow> (json \<times> string) option" where
  "parse_scalar s =
     (case s of
        [] \<Rightarrow> None
      | c # r \<Rightarrow>
          if c = DQUOTE then map_option (\<lambda>(d, r'). (JStr d, r')) (unquote r)
          else if c = CHR ''t'' then parse_lit ''true'' (JBool True) s
          else if c = CHR ''f'' then parse_lit ''false'' (JBool False) s
          else if c = CHR ''n'' then parse_lit ''null'' JNull s
          else map_option (\<lambda>(tok, r'). (JNum tok, r')) (parse_num s))"

fun pval :: "nat \<Rightarrow> string \<Rightarrow> (json \<times> string) option"
  and pelems :: "nat \<Rightarrow> string \<Rightarrow> (json list \<times> string) option"
  and pmembers :: "nat \<Rightarrow> string \<Rightarrow> ((string \<times> json) list \<times> string) option"
where
  "pval 0 s = None"
| "pval (Suc f) s =
     (case skip_ws s of
        [] \<Rightarrow> None
      | c # r \<Rightarrow>
          if c = CHR ''['' then
            (if skip_ws r \<noteq> [] \<and> hd (skip_ws r) = CHR '']'' then Some (JArr [], tl (skip_ws r))
             else map_option (\<lambda>(vs, r'). (JArr vs, r')) (pelems f r))
          else if c = CHR ''{'' then
            (if skip_ws r \<noteq> [] \<and> hd (skip_ws r) = CHR ''}'' then Some (JObj [], tl (skip_ws r))
             else map_option (\<lambda>(kvs, r'). (JObj kvs, r')) (pmembers f r))
          else parse_scalar (c # r))"
| "pelems 0 s = None"
| "pelems (Suc f) s =
     (case pval f s of
        None \<Rightarrow> None
      | Some (v, r) \<Rightarrow>
          (case skip_ws r of
             [] \<Rightarrow> None
           | c # r' \<Rightarrow>
               if c = CHR '']'' then Some ([v], r')
               else if c = CHR '','' then map_option (\<lambda>(vs, r''). (v # vs, r'')) (pelems f r')
               else None))"
| "pmembers 0 s = None"
| "pmembers (Suc f) s =
     (case skip_ws s of
        [] \<Rightarrow> None
      | q # r \<Rightarrow>
          if q \<noteq> DQUOTE then None
          else case unquote r of
                 None \<Rightarrow> None
               | Some (k, r1) \<Rightarrow>
                   (case skip_ws r1 of
                      [] \<Rightarrow> None
                    | c # r2 \<Rightarrow>
                        if c \<noteq> CHR '':'' then None
                        else case pval f r2 of
                               None \<Rightarrow> None
                             | Some (v, r3) \<Rightarrow>
                                 (case skip_ws r3 of
                                    [] \<Rightarrow> None
                                  | d # r4 \<Rightarrow>
                                      if d = CHR ''}'' then Some ([(k, v)], r4)
                                      else if d = CHR '','' then
                                        map_option (\<lambda>(kvs, r5). ((k, v) # kvs, r5)) (pmembers f r4)
                                      else None)))"

text \<open>The whole text is one value, surrounded by white space only.\<close>

definition json_parse :: "string \<Rightarrow> json option" where
  "json_parse s =
     (case pval (2 * length s + 2) s of
        None \<Rightarrow> None
      | Some (v, r) \<Rightarrow> if skip_ws r = [] then Some v else None)"

section \<open>The fuel is enough\<close>

lemma length_skip_ws: "length (skip_ws s) \<le> length s"
  by (simp add: skip_ws_def length_dropWhile_le)

lemma skip_ws_Cons: "skip_ws s = c # r \<Longrightarrow> length r < length s"
  using length_skip_ws [of s] by simp

lemma unquote_shrinks: "unquote s = Some (d, r) \<Longrightarrow> length r < length s"
proof (induction s arbitrary: d r rule: unquote.induct)
  case (1 s)
  show ?case
  proof (cases "s \<noteq> [] \<and> hd s = DQUOTE")
    case True
    with "1.prems" show ?thesis
      by (subst (asm) unquote.simps) (cases s, auto)
  next
    case False
    with "1.prems" obtain u t d' where u: "unquote_unit s = Some (u, t)" "unquote t = Some (d', r)"
      by (subst (asm) unquote.simps) (auto split: option.splits)
    from "1.IH" [OF False u(1) refl u(2)] unquote_unit_shrinks [OF u(1)] show ?thesis
      by simp
  qed
qed

lemma num_int_shrinks: "num_int s = Some (t, r) \<Longrightarrow> length r < length s"
  by (auto simp: num_int_def length_dropWhile_le less_Suc_eq_le split: list.splits if_splits)

lemma length_dropWhile_drop: "length (dropWhile P (drop n x)) \<le> Suc (length x)"
  by (rule le_trans [OF length_dropWhile_le]) simp

lemma num_frac_shrinks: "num_frac s = Some (t, r) \<Longrightarrow> length r \<le> length s"
  using length_dropWhile_drop [of is_digit 0]
  by (auto simp: num_frac_def split: list.splits if_splits)

lemma num_exp_shrinks: "num_exp s = Some (t, r) \<Longrightarrow> length r \<le> length s"
  by (cases s) (auto simp: num_exp_def Let_def length_dropWhile_drop split: if_splits)

lemma parse_num_shrinks:
  assumes "parse_num s = Some (t, r)" shows "length r < length s"
proof -
  obtain n i r0 f r1 e where "num_int (drop n s) = Some (i, r0)"
    "num_frac r0 = Some (f, r1)" "num_exp r1 = Some (e, r)"
    using assms unfolding parse_num_def Let_def by (auto split: option.splits)
  then have "length r < length (drop n s)"
    using num_int_shrinks num_frac_shrinks num_exp_shrinks by (meson le_trans not_le)
  then show ?thesis by simp
qed

lemma parse_scalar_shrinks: "parse_scalar s = Some (v, r) \<Longrightarrow> length r < length s"
  using parse_num_shrinks [of s] unquote_shrinks [of "tl s"]
  by (cases s) (auto simp: parse_scalar_def parse_lit_def split: if_splits)

lemma parse_shrinks:
  "(\<forall>s v r. pval f s = Some (v, r) \<longrightarrow> length r < length s) \<and>
   (\<forall>s vs r. pelems f s = Some (vs, r) \<longrightarrow> length r < length s) \<and>
   (\<forall>s kvs r. pmembers f s = Some (kvs, r) \<longrightarrow> length r < length s)"
proof (induction f)
  case (Suc f)
  then have pv: "pval f s = Some (v, r) \<Longrightarrow> length r < length s"
    and pe: "pelems f s = Some (vs, r) \<Longrightarrow> length r < length s"
    and pm: "pmembers f s = Some (kvs, r) \<Longrightarrow> length r < length s" for s v vs kvs r
    by blast+
  have "length r < length s" if "pval (Suc f) s = Some (v, r)" for s v r
  proof (cases "skip_ws s")
    case (Cons c t)
    then have "length t < length s" by (rule skip_ws_Cons)
    moreover have "length (tl (skip_ws t)) \<le> length t"
      using length_skip_ws [of t] by simp
    ultimately show ?thesis
      using that Cons pe [of t] pm [of t] parse_scalar_shrinks [of "c # t" v r]
      by (auto split: if_splits)
  qed (use that in simp)
  moreover have "length r < length s" if "pelems (Suc f) s = Some (vs, r)" for s vs r
    using that by (auto split: list.splits if_splits option.splits dest!: pv pe skip_ws_Cons)
  moreover have "length r < length s" if "pmembers (Suc f) s = Some (kvs, r)" for s kvs r
    using that
    by (auto split: list.splits if_splits option.splits dest!: pv pm skip_ws_Cons unquote_shrinks)
  ultimately show ?case by blast
qed simp

lemmas pval_shrinks = parse_shrinks [THEN conjunct1, rule_format]

lemma parse_stable:
  "(\<forall>s. 2 * length s < f \<longrightarrow> pval (Suc f) s = pval f s) \<and>
   (\<forall>s. 2 * length s + 1 < f \<longrightarrow> pelems (Suc f) s = pelems f s) \<and>
   (\<forall>s. 2 * length s + 1 < f \<longrightarrow> pmembers (Suc f) s = pmembers f s)"
proof (induction f)
  case (Suc f)
  then have pv: "2 * length s < f \<Longrightarrow> pval (Suc f) s = pval f s"
    and pe: "2 * length s + 1 < f \<Longrightarrow> pelems (Suc f) s = pelems f s"
    and pm: "2 * length s + 1 < f \<Longrightarrow> pmembers (Suc f) s = pmembers f s" for s
    by blast+
  have "pval (Suc (Suc f)) s = pval (Suc f) s" if "2 * length s < Suc f" for s
    using that pe pm skip_ws_Cons [of s]
    unfolding pval.simps(2) [of "Suc f" s] pval.simps(2) [of f s]
    by (auto simp del: pelems.simps pmembers.simps split: list.splits)
  moreover have "pelems (Suc (Suc f)) s = pelems (Suc f) s" if "2 * length s + 1 < Suc f" for s
  proof (cases "pval f s")
    case (Some p)
    obtain v r where p: "p = (v, r)" by (cases p)
    have "2 * length t + 1 < f" if "skip_ws r = c # t" for c t
      using pval_shrinks [of f s v r] skip_ws_Cons [OF that] Some p \<open>2 * length s + 1 < Suc f\<close>
      by simp
    with Some p pe pv [of s] that show ?thesis
      unfolding pelems.simps(2) [of "Suc f" s] pelems.simps(2) [of f s]
      by (auto simp del: pval.simps pelems.simps split: list.splits)
  next
    case None
    with that pv [of s] show ?thesis
      unfolding pelems.simps(2) [of "Suc f" s] pelems.simps(2) [of f s] by simp
  qed
  moreover have "pmembers (Suc (Suc f)) s = pmembers (Suc f) s" if s: "2 * length s + 1 < Suc f" for s
  proof -
    have "pval (Suc f) r2 = pval f r2 \<and>
        (\<forall>v r3 d r4. pval f r2 = Some (v, r3) \<longrightarrow> skip_ws r3 = d # r4 \<longrightarrow>
           pmembers (Suc f) r4 = pmembers f r4)"
      if "skip_ws s = q # r" "unquote r = Some (k, r1)" "skip_ws r1 = c # r2" for q r k r1 c r2
    proof -
      have "length r2 < length s"
        using skip_ws_Cons [OF that(1)] unquote_shrinks [OF that(2)] skip_ws_Cons [OF that(3)] by simp
      then show ?thesis
        using s pv [of r2] pm pval_shrinks [of f r2] skip_ws_Cons by fastforce
    qed
    then show ?thesis
      unfolding pmembers.simps(2) [of "Suc f" s] pmembers.simps(2) [of f s]
      by (auto simp del: pval.simps pmembers.simps split: list.splits option.splits)
  qed
  ultimately show ?case by blast
qed simp

lemma pval_stable:
  assumes "2 * length s < f" "f \<le> g" shows "pval g s = pval f s"
  using assms(2) by (induction rule: dec_induct) (use assms(1) parse_stable in auto)

section \<open>Round trip\<close>

fun utf8_valid :: "string \<Rightarrow> bool" where
  "utf8_valid [] = True"
| "utf8_valid (c # cs) =
     (if ord c < 0x80 then utf8_valid cs
      else case utf8_size (c # cs) of None \<Rightarrow> False | Some n \<Rightarrow> utf8_valid (drop (n - 1) cs))"

text \<open>Values whose strings are valid UTF-8 and whose numbers are decimal integers.\<close>

fun json_ok :: "json \<Rightarrow> bool" where
  "json_ok JNull = True"
| "json_ok (JBool b) = True"
| "json_ok (JNum tok) \<longleftrightarrow> (\<exists>i. tok = strconv_Itoa i)"
| "json_ok (JStr s) = utf8_valid s"
| "json_ok (JArr vs) = list_all json_ok vs"
| "json_ok (JObj kvs) = list_all (\<lambda>(k, v). utf8_valid k \<and> json_ok v) kvs"

lemma hex_val_hex_digit: "d < 16 \<Longrightarrow> hex_val (hex_digit d) = Some d"
  by (auto simp: hex_val_def hex_digit_def is_digit_def in_range_def)

lemma hex_val_0: "hex_val (CHR ''0'') = Some 0"
  by (simp add: hex_val_def is_digit_def)

lemma unquote_unit_esc_ascii:
  assumes "ord c < 0x80"
  shows "unquote_unit (esc_ascii c @ t) = Some ([c], t)"
proof -
  have "ord c div 16 < 16" "16 * (ord c div 16) + ord c mod 16 = ord c"
    using assms by auto
  then have "unescape_u (''00'' @ hex_digit (ord c div 16) # hex_digit (ord c mod 16) # t) = Some ([c], t)"
    using assms by (simp add: unescape_u_def hex_val_hex_digit hex_val_0 utf8_encode_def Let_def)
  then show ?thesis
    using assms by (auto simp: esc_ascii_def html_safe_def unquote_unit_def unescape_def)
qed

lemma esc_ascii_head: "esc_ascii c \<noteq> [] \<and> hd (esc_ascii c) \<noteq> DQUOTE"
  by (simp add: esc_ascii_def html_safe_def)

lemma utf8_size_take: "utf8_size s = Some n \<Longrightarrow> utf8_size (take n s @ t) = Some n"
  by (auto simp: utf8_size_def split: list.splits if_splits)

lemma utf8_lead:
  "utf8_2 a b \<Longrightarrow> 0x80 \<le> ord a" "utf8_3 a b c \<Longrightarrow> 0x80 \<le> ord a" "utf8_4 a b c d \<Longrightarrow> 0x80 \<le> ord a"
  unfolding utf8_2_def utf8_3_def utf8_4_def in_range_def by linarith+

lemma utf8_size_head: "utf8_size s = Some n \<Longrightarrow> s \<noteq> [] \<and> 0x80 \<le> ord (hd s)"
  by (auto simp: utf8_size_def utf8_lead split: list.splits if_splits)

lemma hex4_line_separator:
  "hex4 (''2028'' @ t) = Some 0x2028" "hex4 (''2029'' @ t) = Some 0x2029"
  by (simp_all add: hex_val_def is_digit_def)

lemma utf8_encode_line_separator:
  "utf8_encode 0x2028 = [CHR 0xE2, CHR 0x80, CHR 0xA8]" "utf8_encode 0x2029 = [CHR 0xE2, CHR 0x80, CHR 0xA9]"
  by (simp_all add: utf8_encode_def char_of_def bit_Suc_0_iff)

lemma unescape_line_separator:
  "unescape_u (''2028'' @ t) = Some ([CHR 0xE2, CHR 0x80, CHR 0xA8], t)"
  "unescape_u (''2029'' @ t) = Some ([CHR 0xE2, CHR 0x80, CHR 0xA9], t)"
  unfolding unescape_u_def hex4_line_separator utf8_encode_line_separator [symmetric]
  by (simp_all add: Let_def del: hex4.simps)

lemma utf8_size_line_separator:
  "utf8_size (CHR 0xE2 # CHR 0x80 # CHR 0xA8 # r) = Some 3"
  "utf8_size (CHR 0xE2 # CHR 0x80 # CHR 0xA9 # r) = Some 3"
  by (simp_all add: utf8_size_def utf8_2_def utf8_3_def in_range_def)

lemma line_separator_size:
  assumes "line_separator s = Some d" "utf8_size s = Some n"
  shows "unquote_unit (BSLASH # ''u202'' @ d # t) = Some (take n s, t)"
proof -
  from assms(1) obtain e r where s: "s = CHR 0xE2 # CHR 0x80 # e # r"
    and e: "e = CHR 0xA8 \<and> d = CHR ''8'' \<or> e = CHR 0xA9 \<and> d = CHR ''9''"
    by (cases s; cases "tl s"; cases "tl (tl s)") (auto simp: line_separator_def split: if_splits)
  have unit: "unquote_unit (BSLASH # CHR ''u'' # x) = unescape_u x" for x
    by (simp add: unquote_unit_def unescape_def)
  from e show ?thesis
  proof (elim disjE conjE)
    assume "e = CHR 0xA8" "d = CHR ''8''"
    with s assms(2) show ?thesis
      using unescape_line_separator(1) [of t] by (simp add: utf8_size_line_separator unit)
  next
    assume "e = CHR 0xA9" "d = CHR ''9''"
    with s assms(2) show ?thesis
      using unescape_line_separator(2) [of t] by (simp add: utf8_size_line_separator unit)
  qed
qed

lemma unquote_unit_utf8:
  "utf8_size s = Some n \<Longrightarrow> unquote_unit (take n s @ t) = Some (take n s, t)"
  using utf8_size_take [of s n t] utf8_size_head [of s n] utf8_size_bounds [of s n]
  by (cases s; cases n) (auto simp: unquote_unit_def)

lemma unquote_step:
  assumes "unquote_unit (u @ r) = Some (d, r)" "u \<noteq> []" "hd u \<noteq> DQUOTE"
  shows "unquote (u @ r) = map_option (\<lambda>(d', r'). (d @ d', r')) (unquote r)"
  using assms by (subst unquote.simps) (auto split: option.splits)

lemma unquote_esc: "utf8_valid s \<Longrightarrow> unquote (esc s @ DQUOTE # t) = Some (s, t)"
proof (induction s rule: utf8_valid.induct)
  case 1
  show ?case by (subst unquote.simps) simp
next
  case (2 c cs)
  show ?case
  proof (cases "ord c < 0x80")
    case True
    with 2 show ?thesis
      using unquote_step [OF unquote_unit_esc_ascii [OF True], of "esc cs @ DQUOTE # t"]
      by (simp add: esc_ascii_head)
  next
    case False
    with "2.prems" obtain n where n: "utf8_size (c # cs) = Some n" "utf8_valid (drop (n - 1) cs)"
      by (auto split: option.splits)
    note IH = "2.IH"(2) [OF False n]
    have cut: "c # cs = take n (c # cs) @ drop (n - 1) cs"
      using utf8_size_bounds [OF n(1)] by (cases n) auto
    let ?u = "case line_separator (c # cs) of Some d \<Rightarrow> BSLASH # ''u202'' @ [d] | None \<Rightarrow> take n (c # cs)"
    have "unquote_unit (?u @ r) = Some (take n (c # cs), r)" for r
      using line_separator_size [OF _ n(1)] unquote_unit_utf8 [OF n(1)]
      by (cases "line_separator (c # cs)") auto
    moreover have "?u \<noteq> [] \<and> hd ?u \<noteq> DQUOTE"
      using False utf8_size_bounds [OF n(1)] by (cases n) (auto split: option.splits)
    ultimately have "unquote (?u @ esc (drop (n - 1) cs) @ DQUOTE # t) =
        Some (take n (c # cs) @ drop (n - 1) cs, t)"
      using IH unquote_step by simp
    with False n(1) cut show ?thesis by simp
  qed
qed

text \<open>What may follow a value, inside an array or an object or in an encoder's stream.\<close>

definition value_end :: "string \<Rightarrow> bool" where
  "value_end t \<longleftrightarrow> t = [] \<or> hd t \<in> {CHR 0x0A, CHR '','', CHR '']'', CHR ''}''}"

lemma nat_digits_head: "0 < n \<Longrightarrow> hd (nat_digits n) \<noteq> CHR ''0''"
proof (induction n rule: nat_digits.induct)
  case (1 n)
  show ?case
  proof (cases "n < 10")
    case True
    with "1.prems" have "ord (digit_char n) \<noteq> 48"
      by (simp add: of_char_digit_char)
    with True show ?thesis
      by (subst nat_digits.simps) auto
  next
    case False
    then have "hd (nat_digits (n div 10)) \<noteq> CHR ''0''"
      using "1.IH" by simp
    with False show ?thesis
      by (subst nat_digits.simps) simp
  qed
qed

lemma num_int_nat_digits:
  assumes "t = [] \<or> \<not> is_digit (hd t)"
  shows "num_int (nat_digits n @ t) = Some (nat_digits n, t)"
proof (cases "n = 0")
  case True
  then show ?thesis
    by (simp add: nat_digits.simps num_int_def digit_char_def char_of_def bit_Suc_0_iff)
next
  case False
  obtain c r where c: "nat_digits n = c # r" "is_digit c"
    using nat_digits_Cons by blast
  moreover have "c \<noteq> CHR ''0''"
    using nat_digits_head [of n] False c by simp
  moreover have "takeWhile is_digit (nat_digits n @ t) = nat_digits n"
    "dropWhile is_digit (nat_digits n @ t) = t"
    using nat_digits_is_digit [of n] assms
    by (auto simp: takeWhile_append dropWhile_append list_all_iff) (cases t; simp)+
  ultimately show ?thesis
    by (simp add: num_int_def)
qed

lemma value_end_num: "value_end t \<Longrightarrow> num_frac t = Some ([], t) \<and> num_exp t = Some ([], t) \<and>
    (t = [] \<or> \<not> is_digit (hd t))"
  by (cases t) (auto simp: value_end_def num_frac_def num_exp_def is_digit_def)

lemma parse_num_Itoa:
  assumes "value_end t"
  shows "parse_num (strconv_Itoa i @ t) = Some (strconv_Itoa i, t)"
proof (cases "i < 0")
  case True
  with value_end_num [OF assms] num_int_nat_digits [of t] show ?thesis
    by (simp add: parse_num_def strconv_Itoa_def)
next
  case False
  obtain c r where "nat_digits (nat i) = c # r" "c \<noteq> CHR ''-''"
    using nat_digits_Cons by blast
  with False value_end_num [OF assms] num_int_nat_digits [of t "nat i"] show ?thesis
    by (simp add: parse_num_def strconv_Itoa_def)
qed

lemma Itoa_head:
  obtains c r where "strconv_Itoa i = c # r" "is_digit c \<or> c = CHR ''-''"
  by (metis nat_digits_Cons strconv_Itoa_def)

lemma encode_head:
  assumes "json_ok v"
  obtains c r where "encode v = c # r" "\<not> is_space c" "c \<notin> {CHR '']'', CHR ''}'', CHR '',''}"
proof (cases v)
  case (JNum tok)
  with assms obtain i where "tok = strconv_Itoa i" by auto
  moreover obtain c r where "strconv_Itoa i = c # r" "is_digit c \<or> c = CHR ''-''"
    by (rule Itoa_head)
  moreover from this(2) have "\<not> is_space c" "c \<notin> {CHR '']'', CHR ''}'', CHR '',''}"
    by (auto simp: is_space_def is_digit_def)
  ultimately show thesis
    using JNum that by simp
next
  case (JBool b)
  then show thesis
    using that by (cases b) (auto simp: is_space_def)
qed (use that in \<open>auto simp: is_space_def encode_str_def split: if_splits\<close>)

lemma skip_ws_encode: "json_ok v \<Longrightarrow> skip_ws (encode v @ t) = encode v @ t"
  by (erule encode_head) (simp add: skip_ws_def)

lemma parse_scalar_encode:
  assumes "json_ok v" "value_end t" "\<nexists>vs. v = JArr vs" "\<nexists>kvs. v = JObj kvs"
  shows "parse_scalar (encode v @ t) = Some (v, t)"
proof (cases v)
  case (JNum tok)
  with assms obtain i where i: "tok = strconv_Itoa i" by auto
  obtain c r where "strconv_Itoa i = c # r" "is_digit c \<or> c = CHR ''-''"
    by (rule Itoa_head)
  with JNum i parse_num_Itoa [OF assms(2), of i] show ?thesis
    by (auto simp: parse_scalar_def is_digit_def)
next
  case (JStr s)
  with assms unquote_esc [of s t] show ?thesis
    by (simp add: parse_scalar_def encode_str_def)
qed (use assms in \<open>auto simp: parse_scalar_def parse_lit_def strings_HasPrefix_def\<close>)

text \<open>\<open>parses P n s v t\<close>: from \<open>n\<close> units of fuel on, \<open>P\<close> reads \<open>v\<close> off \<open>s\<close> and leaves \<open>t\<close>.\<close>

definition parses :: "(nat \<Rightarrow> string \<Rightarrow> ('v \<times> string) option) \<Rightarrow> string \<Rightarrow> 'v \<Rightarrow> string \<Rightarrow> bool" where
  "parses P s v t \<longleftrightarrow> (\<exists>n. \<forall>f \<ge> n. P f s = Some (v, t))"

lemma parses_suc: "(\<And>f. f \<ge> n \<Longrightarrow> P (Suc f) s = Some (v, t)) \<Longrightarrow> parses P s v t"
  unfolding parses_def by (rule exI [of _ "Suc n"]) (metis Suc_le_D Suc_le_mono)

lemma pelems_encode:
  assumes "\<And>v t. v \<in> set vs \<Longrightarrow> value_end t \<Longrightarrow> parses pval (encode v @ t) v t"
  shows "vs \<noteq> [] \<Longrightarrow> parses pelems (joined (map encode vs) @ CHR '']'' # t) vs t"
  using assms
proof (induction vs)
  case (Cons v vs)
  show ?case
  proof (cases vs)
    case Nil
    obtain n where n: "\<forall>f \<ge> n. pval f (encode v @ CHR '']'' # t) = Some (v, CHR '']'' # t)"
      using Cons.prems(2) [of v "CHR '']'' # t"] by (auto simp: parses_def value_end_def)
    show ?thesis
      by (rule parses_suc [of n]) (simp add: Nil n skip_ws_def is_space_def)
  next
    case (Cons w ws)
    let ?rest = "joined (map encode vs) @ CHR '']'' # t"
    obtain m where m: "\<forall>f \<ge> m. pelems f ?rest = Some (vs, t)"
      using Cons.IH Cons.prems Cons by (auto simp: parses_def)
    obtain n where n: "\<forall>f \<ge> n. pval f (encode v @ CHR '','' # ?rest) = Some (v, CHR '','' # ?rest)"
      using Cons.prems(2) [of v "CHR '','' # ?rest"] by (auto simp: parses_def value_end_def)
    have "joined (map encode (v # vs)) @ CHR '']'' # t = encode v @ CHR '','' # ?rest"
      by (simp add: Cons)
    with m n show ?thesis
      by (intro parses_suc [of "max m n"]) (simp add: skip_ws_def is_space_def)
  qed
qed simp

definition encode_member :: "string \<times> json \<Rightarrow> string" where
  "encode_member kv = encode_str (fst kv) @ CHR '':'' # encode (snd kv)"

lemma encode_JObj: "encode (JObj kvs) = CHR ''{'' # joined (map encode_member kvs) @ ''}''"
proof -
  have "(\<lambda>(k, v). encode_str k @ CHR '':'' # encode v) = encode_member"
    by (auto simp: encode_member_def)
  then show ?thesis by simp
qed

lemma pmember_step:
  assumes k: "utf8_valid k" and v: "pval f (encode v @ r) = Some (v, r)"
  shows "pmembers (Suc f) (encode_member (k, v) @ r) =
    (case skip_ws r of
       [] \<Rightarrow> None
     | d # r4 \<Rightarrow>
         if d = CHR ''}'' then Some ([(k, v)], r4)
         else if d = CHR '','' then map_option (\<lambda>(kvs, r5). ((k, v) # kvs, r5)) (pmembers f r4)
         else None)"
  using unquote_esc [OF k, of "CHR '':'' # encode v @ r"] v
  by (simp add: encode_member_def encode_str_def skip_ws_def is_space_def)

lemma pmembers_encode:
  assumes "\<And>kv t. kv \<in> set kvs \<Longrightarrow> value_end t \<Longrightarrow> parses pval (encode (snd kv) @ t) (snd kv) t"
    and "\<And>kv. kv \<in> set kvs \<Longrightarrow> utf8_valid (fst kv)"
  shows "kvs \<noteq> [] \<Longrightarrow> parses pmembers (joined (map encode_member kvs) @ CHR ''}'' # t) kvs t"
  using assms
proof (induction kvs)
  case (Cons kv kvs)
  obtain k v where kv: "kv = (k, v)" by (cases kv)
  have k: "utf8_valid k" using Cons.prems(3) [of kv] kv by simp
  show ?case
  proof (cases kvs)
    case Nil
    obtain n where n: "\<forall>f \<ge> n. pval f (encode v @ CHR ''}'' # t) = Some (v, CHR ''}'' # t)"
      using Cons.prems(2) [of kv "CHR ''}'' # t"] kv by (auto simp: parses_def value_end_def)
    show ?thesis
      by (rule parses_suc [of n]) (simp add: Nil n kv pmember_step k skip_ws_def is_space_def del: pmembers.simps)
  next
    case c: (Cons w ws)
    let ?rest = "joined (map encode_member kvs) @ CHR ''}'' # t"
    have "parses pmembers ?rest kvs t"
      using Cons.prems(2,3) by (intro Cons.IH) (simp_all add: c)
    then obtain m where m: "\<forall>f \<ge> m. pmembers f ?rest = Some (kvs, t)"
      by (auto simp: parses_def)
    obtain n where n: "\<forall>f \<ge> n. pval f (encode v @ CHR '','' # ?rest) = Some (v, CHR '','' # ?rest)"
      using Cons.prems(2) [of kv "CHR '','' # ?rest"] kv by (auto simp: parses_def value_end_def)
    have "joined (map encode_member (kv # kvs)) @ CHR ''}'' # t = encode_member (k, v) @ CHR '','' # ?rest"
      by (simp add: c kv)
    with m n show ?thesis
      by (intro parses_suc [of "max m n"])
        (simp add: pmember_step k kv skip_ws_def is_space_def del: pmembers.simps)
  qed
qed simp

lemma joined_head: "ss \<noteq> [] \<Longrightarrow> hd ss = c # r \<Longrightarrow> \<exists>r'. joined ss = c # r'"
  by (cases ss rule: joined.cases) auto

lemma pval_scalar:
  assumes "json_ok v" "value_end t" "\<nexists>vs. v = JArr vs" "\<nexists>kvs. v = JObj kvs"
  shows "parses pval (encode v @ t) v t"
proof (rule parses_suc [of 0])
  fix f :: nat
  obtain c r where c: "encode v = c # r"
    by (rule encode_head [OF assms(1)])
  have "c \<noteq> CHR ''['' \<and> c \<noteq> CHR ''{''"
  proof (cases v)
    case (JNum tok)
    with assms(1) obtain i where "tok = strconv_Itoa i" by auto
    moreover obtain d r' where d: "strconv_Itoa i = d # r'" "is_digit d \<or> d = CHR ''-''"
      by (rule Itoa_head)
    ultimately have "c = d" using JNum c by simp
    with d(2) show ?thesis by (auto simp: is_digit_def)
  qed (use assms c in \<open>auto simp: encode_str_def split: if_splits\<close>)
  with c skip_ws_encode [OF assms(1), of t] parse_scalar_encode [OF assms]
  show "pval (Suc f) (encode v @ t) = Some (v, t)"
    by simp
qed

lemma pval_encode: "json_ok v \<Longrightarrow> value_end t \<Longrightarrow> parses pval (encode v @ t) v t"
proof (induction v arbitrary: t)
  case (JArr vs)
  show ?case
  proof (cases vs)
    case Nil
    show ?thesis
      by (rule parses_suc [of 0]) (simp add: Nil skip_ws_def is_space_def)
  next
    case (Cons w ws)
    let ?r = "joined (map encode vs) @ CHR '']'' # t"
    have "json_ok w" using JArr.prems Cons by simp
    then obtain c r where "encode w = c # r" "\<not> is_space c" "c \<noteq> CHR '']''"
      by (rule encode_head) auto
    moreover from this obtain r' where "joined (map encode vs) = c # r'"
      using joined_head [of "map encode vs" c r] Cons by auto
    ultimately have start: "\<not> (skip_ws ?r \<noteq> [] \<and> hd (skip_ws ?r) = CHR '']'')"
      by (simp add: skip_ws_def)
    have "parses pelems ?r vs t"
      using JArr.prems JArr.IH Cons by (intro pelems_encode) (auto simp: list_all_iff)
    then obtain n where "\<forall>f \<ge> n. pelems f ?r = Some (vs, t)"
      by (auto simp: parses_def)
    with start show ?thesis
      by (intro parses_suc [of n]) (auto simp: skip_ws_def is_space_def)
  qed
next
  case (JObj kvs)
  show ?case
  proof (cases kvs)
    case Nil
    show ?thesis
      by (rule parses_suc [of 0]) (simp add: Nil skip_ws_def is_space_def)
  next
    case (Cons w ws)
    let ?r = "joined (map encode_member kvs) @ CHR ''}'' # t"
    obtain r' where "joined (map encode_member kvs) = DQUOTE # r'"
      using joined_head [of "map encode_member kvs" DQUOTE] Cons
      by (auto simp: encode_member_def encode_str_def)
    then have start: "\<not> (skip_ws ?r \<noteq> [] \<and> hd (skip_ws ?r) = CHR ''}'')"
      by (simp add: skip_ws_def is_space_def)
    have "parses pmembers ?r kvs t"
      using JObj.prems JObj.IH Cons by (intro pmembers_encode) (fastforce simp: list_all_iff)+
    then obtain n where "\<forall>f \<ge> n. pmembers f ?r = Some (kvs, t)"
      by (auto simp: parses_def)
    with start show ?thesis
      unfolding encode_JObj by (intro parses_suc [of n]) (auto simp: skip_ws_def is_space_def)
  qed
qed (rule pval_scalar; simp)+

lemma json_parse_encode:
  assumes "json_ok v" shows "json_parse (encode v) = Some v"
proof -
  obtain n where n: "\<forall>f \<ge> n. pval f (encode v) = Some (v, [])"
    using pval_encode [OF assms, of "[]"] by (auto simp: parses_def value_end_def)
  let ?k = "2 * length (encode v) + 2"
  have "pval ?k (encode v) = pval (max n ?k) (encode v)"
    by (rule pval_stable [symmetric]) auto
  with n show ?thesis
    by (simp add: json_parse_def skip_ws_def)
qed

end
