(* ===== verification/Messages.thy ===== *)
theory Messages
  imports Json
begin

text \<open>
  The frp wire protocol, \<^verbatim>\<open>internal/msg/msg.go\<close>: the ten message structs with their JSON
  tags, the type bytes, and the frame \<^verbatim>\<open>[1B type][8B big-endian length][JSON body]\<close> that
  \<^verbatim>\<open>WriteMsg\<close> produces and \<^verbatim>\<open>ReadMsg\<close> accepts.

  A struct is a record; what \<^verbatim>\<open>encoding/json\<close> does with it by reflection is driven by the
  table of its tags (\<open>tags\<close>, every field \<^verbatim>\<open>omitempty\<close>) and its field values in order
  (\<open>to_fields\<close>, \<open>of_fields\<close>). A Go map is its list of entries in ascending key order, the
  order in which \<^verbatim>\<open>json.Marshal\<close> writes it. The pooled buffers of the source are in
  \<open>Msg_Buffers\<close>. Main results: a frame is read back as the message it was
  written from, also inside a stream of frames, and a declared length outside
  \<open>[0, 10240]\<close> is refused before the body is read.
\<close>

section \<open>The message structs\<close>

type_synonym gomap = "(string \<times> string) list"

record Login =
  login_Version :: string
  login_Hostname :: string
  login_Os :: string
  login_Arch :: string
  login_User :: string
  login_PrivilegeKey :: string
  login_Timestamp :: int
  login_RunID :: string
  login_ClientID :: string
  login_Metas :: gomap
  login_PoolCount :: int

record LoginResp =
  loginresp_Version :: string
  loginresp_RunID :: string
  loginresp_Error :: string

record NewProxy =
  newproxy_ProxyName :: string
  newproxy_ProxyType :: string
  newproxy_UseEncryption :: bool
  newproxy_UseCompression :: bool
  newproxy_BandwidthLimit :: string
  newproxy_BandwidthLimitMode :: string
  newproxy_Group :: string
  newproxy_GroupKey :: string
  newproxy_Metas :: gomap
  newproxy_Annotations :: gomap
  newproxy_CustomDomains :: "string list"
  newproxy_SubDomain :: string
  newproxy_Locations :: "string list"
  newproxy_HTTPUser :: string
  newproxy_HTTPPwd :: string
  newproxy_HostHeaderRewrite :: string
  newproxy_Headers :: gomap
  newproxy_ResponseHeaders :: gomap
  newproxy_RouteByHTTPUser :: string

record NewProxyResp =
  newproxyresp_ProxyName :: string
  newproxyresp_RemoteAddr :: string
  newproxyresp_Error :: string

record CloseProxy =
  closeproxy_ProxyName :: string

record ReqWorkConn =
  reqworkconn_Count :: int

record NewWorkConn =
  newworkconn_RunID :: string
  newworkconn_PrivilegeKey :: string
  newworkconn_Timestamp :: int

record StartWorkConn =
  startworkconn_ProxyName :: string
  startworkconn_SrcAddr :: string
  startworkconn_DstAddr :: string
  startworkconn_SrcPort :: nat
  startworkconn_DstPort :: nat
  startworkconn_Error :: string

record Ping =
  ping_PrivilegeKey :: string
  ping_Timestamp :: int

record Pong =
  pong_Error :: string

datatype Message =
    Login Login
  | LoginResp LoginResp
  | NewProxy NewProxy
  | NewProxyResp NewProxyResp
  | CloseProxy CloseProxy
  | ReqWorkConn ReqWorkConn
  | NewWorkConn NewWorkConn
  | StartWorkConn StartWorkConn
  | Ping Ping
  | Pong Pong

datatype MsgType =
  TLogin | TLoginResp | TNewProxy | TNewProxyResp | TCloseProxy | TReqWorkConn
  | TNewWorkConn | TStartWorkConn | TPing | TPong

fun msg_type :: "Message \<Rightarrow> MsgType" where
  "msg_type (Login _) = TLogin"
| "msg_type (LoginResp _) = TLoginResp"
| "msg_type (NewProxy _) = TNewProxy"
| "msg_type (NewProxyResp _) = TNewProxyResp"
| "msg_type (CloseProxy _) = TCloseProxy"
| "msg_type (ReqWorkConn _) = TReqWorkConn"
| "msg_type (NewWorkConn _) = TNewWorkConn"
| "msg_type (StartWorkConn _) = TStartWorkConn"
| "msg_type (Ping _) = TPing"
| "msg_type (Pong _) = TPong"

section \<open>Type bytes\<close>

fun TypeOf :: "Message \<Rightarrow> char" where
  "TypeOf (Login _) = CHR ''o''"
| "TypeOf (LoginResp _) = CHR ''1''"
| "TypeOf (NewProxy _) = CHR ''p''"
| "TypeOf (NewProxyResp _) = CHR ''2''"
| "TypeOf (CloseProxy _) = CHR ''c''"
| "TypeOf (ReqWorkConn _) = CHR ''r''"
| "TypeOf (NewWorkConn _) = CHR ''w''"
| "TypeOf (StartWorkConn _) = CHR ''s''"
| "TypeOf (Ping _) = CHR ''h''"
| "TypeOf (Pong _) = CHR ''4''"

definition typeTo :: "char \<rightharpoonup> MsgType" where
  "typeTo = map_of
     [(CHR ''o'', TLogin), (CHR ''1'', TLoginResp), (CHR ''p'', TNewProxy),
      (CHR ''2'', TNewProxyResp), (CHR ''c'', TCloseProxy), (CHR ''r'', TReqWorkConn),
      (CHR ''w'', TNewWorkConn), (CHR ''s'', TStartWorkConn), (CHR ''h'', TPing), (CHR ''4'', TPong)]"

section \<open>Structs as seen by \<^verbatim>\<open>encoding/json\<close>\<close>

datatype gofield =
    FStr (fstr: string)
  | FInt (fint: int)
  | FUint16 (fuint: nat)
  | FBool (fbool: bool)
  | FMap (fmap: gomap)
  | FSlice (fslice: "string list")

text \<open>Tag and zero value of every field, in declaration order.\<close>

fun tags :: "MsgType \<Rightarrow> (string \<times> gofield) list" where
  "tags TLogin =
     [(''version'', FStr []), (''hostname'', FStr []), (''os'', FStr []), (''arch'', FStr []),
      (''user'', FStr []), (''privilege_key'', FStr []), (''timestamp'', FInt 0),
      (''run_id'', FStr []), (''client_id'', FStr []), (''metas'', FMap []), (''pool_count'', FInt 0)]"
| "tags TLoginResp = [(''version'', FStr []), (''run_id'', FStr []), (''error'', FStr [])]"
| "tags TNewProxy =
     [(''proxy_name'', FStr []), (''proxy_type'', FStr []), (''use_encryption'', FBool False),
      (''use_compression'', FBool False), (''bandwidth_limit'', FStr []),
      (''bandwidth_limit_mode'', FStr []), (''group'', FStr []), (''group_key'', FStr []),
      (''metas'', FMap []), (''annotations'', FMap []), (''custom_domains'', FSlice []),
      (''subdomain'', FStr []), (''locations'', FSlice []), (''http_user'', FStr []),
      (''http_pwd'', FStr []), (''host_header_rewrite'', FStr []), (''headers'', FMap []),
      (''response_headers'', FMap []), (''route_by_http_user'', FStr [])]"
| "tags TNewProxyResp = [(''proxy_name'', FStr []), (''remote_addr'', FStr []), (''error'', FStr [])]"
| "tags TCloseProxy = [(''proxy_name'', FStr [])]"
| "tags TReqWorkConn = [(''count'', FInt 0)]"
| "tags TNewWorkConn = [(''run_id'', FStr []), (''privilege_key'', FStr []), (''timestamp'', FInt 0)]"
| "tags TStartWorkConn =
     [(''proxy_name'', FStr []), (''src_addr'', FStr []), (''dst_addr'', FStr []),
      (''src_port'', FUint16 0), (''dst_port'', FUint16 0), (''error'', FStr [])]"
| "tags TPing = [(''privilege_key'', FStr []), (''timestamp'', FInt 0)]"
| "tags TPong = [(''error'', FStr [])]"

fun to_fields :: "Message \<Rightarrow> gofield list" where
  "to_fields (Login m) =
     [FStr (login_Version m), FStr (login_Hostname m), FStr (login_Os m), FStr (login_Arch m),
      FStr (login_User m), FStr (login_PrivilegeKey m), FInt (login_Timestamp m),
      FStr (login_RunID m), FStr (login_ClientID m), FMap (login_Metas m), FInt (login_PoolCount m)]"
| "to_fields (LoginResp m) =
     [FStr (loginresp_Version m), FStr (loginresp_RunID m), FStr (loginresp_Error m)]"
| "to_fields (NewProxy m) =
     [FStr (newproxy_ProxyName m), FStr (newproxy_ProxyType m), FBool (newproxy_UseEncryption m),
      FBool (newproxy_UseCompression m), FStr (newproxy_BandwidthLimit m),
      FStr (newproxy_BandwidthLimitMode m), FStr (newproxy_Group m), FStr (newproxy_GroupKey m),
      FMap (newproxy_Metas m), FMap (newproxy_Annotations m), FSlice (newproxy_CustomDomains m),
      FStr (newproxy_SubDomain m), FSlice (newproxy_Locations m), FStr (newproxy_HTTPUser m),
      FStr (newproxy_HTTPPwd m), FStr (newproxy_HostHeaderRewrite m), FMap (newproxy_Headers m),
      FMap (newproxy_ResponseHeaders m), FStr (newproxy_RouteByHTTPUser m)]"
| "to_fields (NewProxyResp m) =
     [FStr (newproxyresp_ProxyName m), FStr (newproxyresp_RemoteAddr m), FStr (newproxyresp_Error m)]"
| "to_fields (CloseProxy m) = [FStr (closeproxy_ProxyName m)]"
| "to_fields (ReqWorkConn m) = [FInt (reqworkconn_Count m)]"
| "to_fields (NewWorkConn m) =
     [FStr (newworkconn_RunID m), FStr (newworkconn_PrivilegeKey m), FInt (newworkconn_Timestamp m)]"
| "to_fields (StartWorkConn m) =
     [FStr (startworkconn_ProxyName m), FStr (startworkconn_SrcAddr m), FStr (startworkconn_DstAddr m),
      FUint16 (startworkconn_SrcPort m), FUint16 (startworkconn_DstPort m), FStr (startworkconn_Error m)]"
| "to_fields (Ping m) = [FStr (ping_PrivilegeKey m), FInt (ping_Timestamp m)]"
| "to_fields (Pong m) = [FStr (pong_Error m)]"

fun of_fields :: "MsgType \<Rightarrow> gofield list \<Rightarrow> Message" where
  "of_fields TLogin fs = Login
     \<lparr>login_Version = fstr (fs ! 0), login_Hostname = fstr (fs ! 1), login_Os = fstr (fs ! 2),
      login_Arch = fstr (fs ! 3), login_User = fstr (fs ! 4), login_PrivilegeKey = fstr (fs ! 5),
      login_Timestamp = fint (fs ! 6), login_RunID = fstr (fs ! 7), login_ClientID = fstr (fs ! 8),
      login_Metas = fmap (fs ! 9), login_PoolCount = fint (fs ! 10)\<rparr>"
| "of_fields TLoginResp fs = LoginResp
     \<lparr>loginresp_Version = fstr (fs ! 0), loginresp_RunID = fstr (fs ! 1), loginresp_Error = fstr (fs ! 2)\<rparr>"
| "of_fields TNewProxy fs = NewProxy
     \<lparr>newproxy_ProxyName = fstr (fs ! 0), newproxy_ProxyType = fstr (fs ! 1),
      newproxy_UseEncryption = fbool (fs ! 2), newproxy_UseCompression = fbool (fs ! 3),
      newproxy_BandwidthLimit = fstr (fs ! 4), newproxy_BandwidthLimitMode = fstr (fs ! 5),
      newproxy_Group = fstr (fs ! 6), newproxy_GroupKey = fstr (fs ! 7), newproxy_Metas = fmap (fs ! 8),
      newproxy_Annotations = fmap (fs ! 9), newproxy_CustomDomains = fslice (fs ! 10),
      newproxy_SubDomain = fstr (fs ! 11), newproxy_Locations = fslice (fs ! 12),
      newproxy_HTTPUser = fstr (fs ! 13), newproxy_HTTPPwd = fstr (fs ! 14),
      newproxy_HostHeaderRewrite = fstr (fs ! 15), newproxy_Headers = fmap (fs ! 16),
      newproxy_ResponseHeaders = fmap (fs ! 17), newproxy_RouteByHTTPUser = fstr (fs ! 18)\<rparr>"
| "of_fields TNewProxyResp fs = NewProxyResp
     \<lparr>newproxyresp_ProxyName = fstr (fs ! 0), newproxyresp_RemoteAddr = fstr (fs ! 1),
      newproxyresp_Error = fstr (fs ! 2)\<rparr>"
| "of_fields TCloseProxy fs = CloseProxy \<lparr>closeproxy_ProxyName = fstr (fs ! 0)\<rparr>"
| "of_fields TReqWorkConn fs = ReqWorkConn \<lparr>reqworkconn_Count = fint (fs ! 0)\<rparr>"
| "of_fields TNewWorkConn fs = NewWorkConn
     \<lparr>newworkconn_RunID = fstr (fs ! 0), newworkconn_PrivilegeKey = fstr (fs ! 1),
      newworkconn_Timestamp = fint (fs ! 2)\<rparr>"
| "of_fields TStartWorkConn fs = StartWorkConn
     \<lparr>startworkconn_ProxyName = fstr (fs ! 0), startworkconn_SrcAddr = fstr (fs ! 1),
      startworkconn_DstAddr = fstr (fs ! 2), startworkconn_SrcPort = fuint (fs ! 3),
      startworkconn_DstPort = fuint (fs ! 4), startworkconn_Error = fstr (fs ! 5)\<rparr>"
| "of_fields TPing fs = Ping \<lparr>ping_PrivilegeKey = fstr (fs ! 0), ping_Timestamp = fint (fs ! 1)\<rparr>"
| "of_fields TPong fs = Pong \<lparr>pong_Error = fstr (fs ! 0)\<rparr>"

section \<open>Marshal\<close>

fun is_empty_field :: "gofield \<Rightarrow> bool" where
  "is_empty_field (FStr s) = (s = [])"
| "is_empty_field (FInt i) = (i = 0)"
| "is_empty_field (FUint16 n) = (n = 0)"
| "is_empty_field (FBool b) = (\<not> b)"
| "is_empty_field (FMap m) = (m = [])"
| "is_empty_field (FSlice xs) = (xs = [])"

fun json_of_field :: "gofield \<Rightarrow> json" where
  "json_of_field (FStr s) = JStr s"
| "json_of_field (FInt i) = JNum (strconv_Itoa i)"
| "json_of_field (FUint16 n) = JNum (strconv_Itoa (int n))"
| "json_of_field (FBool b) = JBool b"
| "json_of_field (FMap m) = JObj (map (\<lambda>(k, v). (k, JStr v)) m)"
| "json_of_field (FSlice xs) = JArr (map JStr xs)"

fun struct_members :: "(string \<times> gofield) list \<Rightarrow> gofield list \<Rightarrow> (string \<times> json) list" where
  "struct_members ((name, z) # ts) (f # fs) =
     (if is_empty_field f then [] else [(name, json_of_field f)]) @ struct_members ts fs"
| "struct_members _ _ = []"

definition json_Marshal :: "Message \<Rightarrow> string" where
  "json_Marshal m = encode (JObj (struct_members (tags (msg_type m)) (to_fields m)))"

section \<open>Unmarshal\<close>

fun map_put :: "string \<Rightarrow> string \<Rightarrow> gomap \<Rightarrow> gomap" where
  "map_put k v [] = [(k, v)]"
| "map_put k v ((k', v') # m) =
     (if k < k' then (k, v) # (k', v') # m
      else if k = k' then (k, v) # m
      else (k', v') # map_put k v m)"

text \<open>
  Members are added to the map that is already there; \<^verbatim>\<open>null\<close> stores the zero string.
\<close>

fun decode_entries :: "(string \<times> json) list \<Rightarrow> gomap \<Rightarrow> gomap option" where
  "decode_entries [] m = Some m"
| "decode_entries ((k, JStr s) # kvs) m = decode_entries kvs (map_put k s m)"
| "decode_entries ((k, JNull) # kvs) m = decode_entries kvs (map_put k [] m)"
| "decode_entries _ m = None"

text \<open>
  Elements overwrite the slots of the slice that is already there; \<^verbatim>\<open>null\<close> leaves its slot
  as it is. (A slot behind the visible length counts as empty.)
\<close>

fun decode_elems :: "json list \<Rightarrow> string list \<Rightarrow> string list option" where
  "decode_elems [] old = Some []"
| "decode_elems (JStr s # vs) old = map_option ((#) s) (decode_elems vs (tl old))"
| "decode_elems (JNull # vs) old =
     map_option ((#) (if old = [] then [] else hd old)) (decode_elems vs (tl old))"
| "decode_elems _ old = None"

text \<open>\<open>None\<close> stands for \<^verbatim>\<open>*json.UnmarshalTypeError\<close>.\<close>

fun decode_field :: "gofield \<Rightarrow> json \<Rightarrow> gofield option" where
  "decode_field (FMap m) JNull = Some (FMap [])"
| "decode_field (FSlice xs) JNull = Some (FSlice [])"
| "decode_field f JNull = Some f"
| "decode_field (FStr _) (JStr s) = Some (FStr s)"
| "decode_field (FBool _) (JBool b) = Some (FBool b)"
| "decode_field (FInt _) (JNum tok) = map_option FInt (strconv_ParseInt tok)"
| "decode_field (FUint16 _) (JNum tok) =
     (if list_all is_digit tok \<and> dec_value tok < 2 ^ 16 then Some (FUint16 (dec_value tok)) else None)"
| "decode_field (FMap m) (JObj kvs) = map_option FMap (decode_entries kvs m)"
| "decode_field (FSlice xs) (JArr vs) = map_option FSlice (decode_elems vs xs)"
| "decode_field _ _ = None"

text \<open>
  Keys are matched exactly first and then under case folding, where U+017F and U+212A fold to
  the ASCII letters S and K.
\<close>

definition upper :: "char \<Rightarrow> char" where
  "upper c = (if 97 \<le> ord c \<and> ord c \<le> 122 then char_of (ord c - 32) else c)"

fun fold_key :: "string \<Rightarrow> string" where
  "fold_key [] = []"
| "fold_key (c # s) =
     (if take 2 (c # s) = [CHR 0xC5, CHR 0xBF] then CHR ''S'' # fold_key (drop 1 s)
      else if take 3 (c # s) = [CHR 0xE2, CHR 0x84, CHR 0xAA] then CHR ''K'' # fold_key (drop 2 s)
      else upper c # fold_key s)"

fun index_of :: "('a \<Rightarrow> bool) \<Rightarrow> 'a list \<Rightarrow> nat option" where
  "index_of P [] = None"
| "index_of P (x # xs) = (if P x then Some 0 else map_option Suc (index_of P xs))"

definition field_index :: "(string \<times> gofield) list \<Rightarrow> string \<Rightarrow> nat option" where
  "field_index ts key =
     (case index_of (\<lambda>t. fst t = key) ts of
        Some i \<Rightarrow> Some i
      | None \<Rightarrow> index_of (\<lambda>t. fold_key (fst t) = fold_key key) ts)"

fun decode_members ::
  "(string \<times> gofield) list \<Rightarrow> (string \<times> json) list \<Rightarrow> gofield list \<Rightarrow> gofield list option" where
  "decode_members ts [] fs = Some fs"
| "decode_members ts ((key, v) # kvs) fs =
     (case field_index ts key of
        None \<Rightarrow> decode_members ts kvs fs
      | Some i \<Rightarrow>
          (case decode_field (fs ! i) v of
             None \<Rightarrow> None
           | Some f \<Rightarrow> decode_members ts kvs (fs[i := f])))"

fun json_Unmarshal :: "string \<Rightarrow> MsgType \<Rightarrow> Message option" where
  "json_Unmarshal body t =
     (case json_parse body of
        Some (JObj kvs) \<Rightarrow> map_option (of_fields t) (decode_members (tags t) kvs (map snd (tags t)))
      | Some JNull \<Rightarrow> Some (of_fields t (map snd (tags t)))
      | _ \<Rightarrow> None)"

section \<open>Frames\<close>

definition headerSize :: nat where "headerSize = 9"
definition MaxBodySize :: nat where "MaxBodySize = 10240"

text \<open>\<^verbatim>\<open>binary.BigEndian.PutUint64\<close> and \<^verbatim>\<open>Uint64\<close>, for any number of bytes.\<close>

fun be_put :: "nat \<Rightarrow> nat \<Rightarrow> bytes" where
  "be_put 0 n = []"
| "be_put (Suc k) n = be_put k (n div 256) @ [of_nat (n mod 256)]"

definition be_get :: "bytes \<Rightarrow> nat" where
  "be_get bs = foldl (\<lambda>n b. 256 * n + unat b) 0 bs"

definition int64 :: "nat \<Rightarrow> int" where
  "int64 n = sint (of_nat n :: 64 word)"

definition frame :: "Message \<Rightarrow> bytes" where
  "frame m =
     (let body = bytes_of_string (json_Marshal m)
      in of_char (TypeOf m) # be_put 8 (length body) @ body)"

text \<open>
  The writer is any \<^verbatim>\<open>io.Writer\<close>: a state and a \<^verbatim>\<open>Write\<close> that returns the new state and the
  error, if any. The whole frame goes out in one \<^verbatim>\<open>Write\<close>.
\<close>

definition WriteMsg :: "('w \<Rightarrow> bytes \<Rightarrow> 'w \<times> 'e option) \<Rightarrow> 'w \<Rightarrow> Message \<Rightarrow> 'w \<times> 'e option" where
  "WriteMsg write w m = write w (frame m)"

datatype msg_error =
    IO_EOF
  | IO_ErrUnexpectedEOF
  | InvalidBodySize int
  | UnknownTypeByte char
  | UnmarshalError

definition io_ReadFull :: "bytes \<Rightarrow> nat \<Rightarrow> msg_error + bytes \<times> bytes" where
  "io_ReadFull r n =
     (if n \<le> length r then Inr (take n r, drop n r)
      else if r = [] then Inl IO_EOF
      else Inl IO_ErrUnexpectedEOF)"

text \<open>
  The reader is the stream of bytes still to come; a successful read returns what is left.
\<close>

definition ReadMsg :: "bytes \<Rightarrow> msg_error + Message \<times> bytes" where
  "ReadMsg r =
     (case io_ReadFull r 1 of
        Inl e \<Rightarrow> Inl e
      | Inr (typeBuf, r1) \<Rightarrow>
          (case io_ReadFull r1 8 of
             Inl e \<Rightarrow> Inl e
           | Inr (lenBuf, r2) \<Rightarrow>
               (let length = int64 (be_get lenBuf);
                    typeByte = char_of (unat (hd typeBuf))
                in if length < 0 \<or> length > int MaxBodySize then Inl (InvalidBodySize length)
                   else case typeTo typeByte of
                          None \<Rightarrow> Inl (UnknownTypeByte typeByte)
                        | Some t \<Rightarrow>
                            (case io_ReadFull r2 (nat length) of
                               Inl e \<Rightarrow> Inl e
                             | Inr (body, r3) \<Rightarrow>
                                 (case json_Unmarshal (string_of_bytes body) t of
                                    None \<Rightarrow> Inl UnmarshalError
                                  | Some m \<Rightarrow> Inr (m, r3))))))"

section \<open>Well-formed messages\<close>

text \<open>
  The values a Go struct of this type can hold, with valid UTF-8 in every string (json.Marshal
  replaces invalid bytes by U+FFFD).
\<close>

fun field_ok :: "gofield \<Rightarrow> bool" where
  "field_ok (FStr s) = utf8_valid s"
| "field_ok (FInt i) \<longleftrightarrow> - (2 ^ 63) \<le> i \<and> i < 2 ^ 63"
| "field_ok (FUint16 n) \<longleftrightarrow> n < 2 ^ 16"
| "field_ok (FBool b) = True"
| "field_ok (FMap m) \<longleftrightarrow>
     sorted_wrt (<) (map fst m) \<and> list_all (\<lambda>(k, v). utf8_valid k \<and> utf8_valid v) m"
| "field_ok (FSlice xs) = list_all utf8_valid xs"

definition msg_wf :: "Message \<Rightarrow> bool" where
  "msg_wf m = list_all field_ok (to_fields m)"

fun zero_for :: "gofield \<Rightarrow> gofield \<Rightarrow> bool" where
  "zero_for z (FStr s) \<longleftrightarrow> z = FStr []"
| "zero_for z (FInt i) \<longleftrightarrow> z = FInt 0"
| "zero_for z (FUint16 n) \<longleftrightarrow> z = FUint16 0"
| "zero_for z (FBool b) \<longleftrightarrow> z = FBool False"
| "zero_for z (FMap m) \<longleftrightarrow> z = FMap []"
| "zero_for z (FSlice xs) \<longleftrightarrow> z = FSlice []"

lemma zero_for_empty: "zero_for z f \<Longrightarrow> is_empty_field f \<Longrightarrow> z = f"
  by (cases f) auto

lemma tags_to_fields: "list_all2 (\<lambda>t f. zero_for (snd t) f) (tags (msg_type m)) (to_fields m)"
  by (cases m) simp_all

lemma of_to_fields: "of_fields (msg_type m) (to_fields m) = m"
  by (cases m) simp_all

lemma distinct_tags: "distinct (map fst (tags t))"
  by (cases t) simp_all

lemma tags_utf8: "t' \<in> set (tags t) \<Longrightarrow> utf8_valid (fst t')"
  by (cases t) auto

section \<open>The JSON round trip\<close>

lemma map_put_last:
  "(\<forall>p \<in> set m. fst p < k) \<Longrightarrow> map_put k v m = m @ [(k, v)]"
  by (induction m) (auto dest: less_not_sym)

lemma decode_entries_sorted:
  "sorted_wrt (<) (map fst (m @ m')) \<Longrightarrow>
   decode_entries (map (\<lambda>(k, v). (k, JStr v)) m') m = Some (m @ m')"
proof (induction m' arbitrary: m)
  case (Cons p m')
  obtain k v where [simp]: "p = (k, v)" by (cases p)
  have "map_put k v m = m @ [(k, v)]"
    using Cons.prems by (intro map_put_last) (auto simp: sorted_wrt_append)
  with Cons show ?case by simp
qed simp

lemma decode_elems_JStr: "decode_elems (map JStr xs) old = Some xs"
  by (induction xs arbitrary: old) auto

lemma decode_field_json:
  assumes "field_ok f" "zero_for z f"
  shows "decode_field z (json_of_field f) = Some f"
proof (cases f)
  case (FUint16 n)
  with assms show ?thesis
    by (simp add: strconv_Itoa_def nat_digits_is_digit)
qed (use assms decode_entries_sorted [of "[]"] in
      \<open>auto simp: ParseInt_Itoa decode_elems_JStr\<close>)

lemma index_of_append: "(\<And>x. x \<in> set xs \<Longrightarrow> \<not> P x) \<Longrightarrow> P y \<Longrightarrow>
   index_of P (xs @ y # ys) = Some (length xs)"
  by (induction xs) auto

lemma field_index_append:
  assumes "distinct (map fst (tp @ (name, z) # ts))"
  shows "field_index (tp @ (name, z) # ts) name = Some (length tp)"
proof -
  have "index_of (\<lambda>t. fst t = name) (tp @ (name, z) # ts) = Some (length tp)"
    using assms by (intro index_of_append) force+
  then show ?thesis
    by (simp add: field_index_def)
qed

lemma decode_members_struct:
  assumes "list_all2 (\<lambda>t f. zero_for (snd t) f) ts fs" "list_all field_ok fs"
    and "distinct (map fst (tp @ ts))" "length tp = length fp"
  shows "decode_members (tp @ ts) (struct_members ts fs) (fp @ map snd ts) = Some (fp @ fs)"
  using assms
proof (induction arbitrary: tp fp rule: list_all2_induct)
  case (Cons t ts f fs)
  obtain name z where [simp]: "t = (name, z)" by (cases t)
  have IH: "decode_members (tp @ t # ts) (struct_members ts fs) (fp @ f # map snd ts) = Some (fp @ f # fs)"
    using Cons.IH [of "tp @ [t]" "fp @ [f]"] Cons.prems by simp
  show ?case
  proof (cases "is_empty_field f")
    case True
    with IH Cons.hyps zero_for_empty [of z f] show ?thesis by simp
  next
    case False
    have "decode_field z (json_of_field f) = Some f"
      using Cons.hyps Cons.prems by (intro decode_field_json) auto
    moreover have "field_index (tp @ t # ts) name = Some (length tp)"
      using Cons.prems field_index_append by simp
    ultimately show ?thesis
      using IH False Cons.prems by (simp add: nth_append)
  qed
qed simp

lemma json_ok_field: "field_ok f \<Longrightarrow> json_ok (json_of_field f)"
  by (cases f) (auto simp: list_all_iff)

lemma json_ok_members:
  "list_all field_ok fs \<Longrightarrow> \<forall>t \<in> set ts. utf8_valid (fst t) \<Longrightarrow>
   list_all (\<lambda>(k, v). utf8_valid k \<and> json_ok v) (struct_members ts fs)"
  by (induction ts fs rule: struct_members.induct) (simp_all add: json_ok_field)

lemma Unmarshal_Marshal:
  assumes "msg_wf m" shows "json_Unmarshal (json_Marshal m) (msg_type m) = Some m"
proof -
  let ?ts = "tags (msg_type m)" and ?fs = "to_fields m"
  have "json_ok (JObj (struct_members ?ts ?fs))"
    using assms tags_utf8 by (simp add: msg_wf_def json_ok_members)
  then have "json_parse (json_Marshal m) = Some (JObj (struct_members ?ts ?fs))"
    by (simp only: json_Marshal_def json_parse_encode)
  moreover have "decode_members ?ts (struct_members ?ts ?fs) (map snd ?ts) = Some ?fs"
    using decode_members_struct [OF tags_to_fields, of m "[]" "[]"] assms distinct_tags
    by (simp add: msg_wf_def)
  ultimately show ?thesis
    by (simp add: of_to_fields)
qed

section \<open>The frame round trip\<close>

lemma length_be_put [simp]: "length (be_put k n) = k"
  by (induction k arbitrary: n) simp_all

lemma be_get_snoc [simp]: "be_get (bs @ [b]) = 256 * be_get bs + unat b"
  by (simp add: be_get_def)

lemma be_get_put: "be_get (be_put k n) = n mod 256 ^ k"
proof (induction k arbitrary: n)
  case (Suc k)
  have "unat (of_nat (n mod 256) :: byte) = n mod 256"
    by (simp add: unat_of_nat)
  then show ?case
    using Suc [of "n div 256"] by (simp add: mod_mult2_eq)
qed (simp add: be_get_def)

lemma be_get_less: "be_get bs < 256 ^ length bs"
proof (induction bs rule: rev_induct)
  case (snoc b bs)
  then show ?case
    using unat_byte_less [of b] by simp
qed (simp add: be_get_def)

lemma int64_small: "n < 2 ^ 63 \<Longrightarrow> int64 n = int n"
  by (simp add: int64_def signed_of_nat signed_take_bit_eq_take_bit_shift take_bit_eq_mod)

lemma int64_large:
  assumes "2 ^ 63 \<le> n" "n < 2 ^ 64" shows "int64 n = int n - 2 ^ 64"
proof -
  have "(int n - 2 ^ 63) mod 2 ^ 64 = int n - 2 ^ 63"
    using assms by (intro mod_pos_pos_trivial) auto
  then have "(int n + 2 ^ 63) mod 2 ^ 64 = int n - 2 ^ 63"
    using mod_add_self2 [of "int n - 2 ^ 63" "2 ^ 64"] by (simp add: add.commute)
  then show ?thesis
    by (simp add: int64_def signed_of_nat signed_take_bit_eq_take_bit_shift take_bit_eq_mod)
qed

lemma typeTo_TypeOf: "typeTo (TypeOf m) = Some (msg_type m)"
  by (cases m) (simp_all add: typeTo_def)

lemma length_frame: "length (frame m) = headerSize + length (json_Marshal m)"
  by (simp add: frame_def headerSize_def Let_def)

lemma char_of_unat_of_char: "char_of (unat (of_char c :: byte)) = c"
  by simp

lemma ReadMsg_header:
  assumes "length lenBuf = 8"
  shows "ReadMsg (b # lenBuf @ r) =
     (let length = int64 (be_get lenBuf); typeByte = char_of (unat b)
      in if length < 0 \<or> length > int MaxBodySize then Inl (InvalidBodySize length)
         else case typeTo typeByte of
                None \<Rightarrow> Inl (UnknownTypeByte typeByte)
              | Some t \<Rightarrow>
                  (case io_ReadFull r (nat length) of
                     Inl e \<Rightarrow> Inl e
                   | Inr (body, r3) \<Rightarrow>
                       (case json_Unmarshal (string_of_bytes body) t of
                          None \<Rightarrow> Inl UnmarshalError
                        | Some m \<Rightarrow> Inr (m, r3))))"
proof -
  have "io_ReadFull (b # lenBuf @ r) 1 = Inr ([b], lenBuf @ r)"
    by (simp add: io_ReadFull_def)
  moreover have "io_ReadFull (lenBuf @ r) 8 = Inr (lenBuf, r)"
    using assms by (simp add: io_ReadFull_def)
  ultimately show ?thesis
    by (simp add: ReadMsg_def del: json_Unmarshal.simps)
qed

lemma ReadMsg_frame:
  assumes "msg_wf m" "length (json_Marshal m) \<le> MaxBodySize"
  shows "ReadMsg (frame m @ rest) = Inr (m, rest)"
proof -
  let ?b = "json_Marshal m"
  have "int64 (be_get (be_put 8 (length ?b))) = int (length ?b)"
    using assms by (subst int64_small) (simp_all add: be_get_put MaxBodySize_def)
  then show ?thesis
    using assms Unmarshal_Marshal [OF assms(1)]
    by (simp add: frame_def ReadMsg_header typeTo_TypeOf io_ReadFull_def del: json_Unmarshal.simps)
qed

lemma ReadMsg_shrinks: "ReadMsg r = Inr (m, r') \<Longrightarrow> length r' < length r"
  by (auto simp: ReadMsg_def io_ReadFull_def Let_def simp del: json_Unmarshal.simps
      split: if_splits option.splits)

text \<open>A peer that reads messages until the first error: what the stream carried.\<close>

function ReadMsgs :: "bytes \<Rightarrow> Message list \<times> msg_error" where
  "ReadMsgs r =
     (case ReadMsg r of
        Inl e \<Rightarrow> ([], e)
      | Inr (m, r') \<Rightarrow> (let (ms, e) = ReadMsgs r' in (m # ms, e)))"
  by pat_completeness auto
termination
  by (relation "measure length") (auto dest: ReadMsg_shrinks)

declare ReadMsgs.simps [simp del]

lemma ReadMsgs_Nil: "ReadMsgs [] = ([], IO_EOF)"
  by (subst ReadMsgs.simps) (simp add: ReadMsg_def io_ReadFull_def)

lemma ReadMsgs_frames:
  "list_all (\<lambda>m. msg_wf m \<and> length (json_Marshal m) \<le> MaxBodySize) ms \<Longrightarrow>
   ReadMsgs (concat (map frame ms) @ r) = (let (ms', e) = ReadMsgs r in (ms @ ms', e))"
proof (induction ms)
  case (Cons m ms)
  then show ?case
    by (subst ReadMsgs.simps) (simp add: ReadMsg_frame case_prod_beta Let_def)
qed simp

lemma be_get_append_less: "length bs = 8 \<Longrightarrow> be_get bs < 2 ^ 64"
  using be_get_less [of bs] by simp

lemma ReadMsg_oversize:
  assumes "length lenBuf = 8" "MaxBodySize < be_get lenBuf"
  shows "ReadMsg (b # lenBuf @ r) = Inl (InvalidBodySize (int64 (be_get lenBuf)))"
proof -
  have "int64 (be_get lenBuf) < 0 \<or> int64 (be_get lenBuf) > int MaxBodySize"
    using assms be_get_append_less [OF assms(1)] int64_small [of "be_get lenBuf"] int64_large [of "be_get lenBuf"]
    by (cases "be_get lenBuf < 2 ^ 63") auto
  then show ?thesis
    using assms by (simp add: ReadMsg_header Let_def del: json_Unmarshal.simps)
qed

lemma ReadMsg_truncated:
  assumes "length (json_Marshal m) \<le> MaxBodySize" "n < length (frame m)"
  shows "ReadMsg (take n (frame m)) \<in> {Inl IO_EOF, Inl IO_ErrUnexpectedEOF}"
proof -
  let ?b = "bytes_of_string (json_Marshal m)" and ?l = "be_put 8 (length (json_Marshal m))"
  have len: "int64 (be_get ?l) = int (length ?b)"
    using assms by (subst int64_small) (simp_all add: be_get_put MaxBodySize_def)
  consider "n = 0" | k where "n = Suc k" "k < 8" | k where "n = 9 + k" "k < length ?b"
    using assms by (cases n; cases "n < 9") (force simp: length_frame headerSize_def le_Suc_ex not_less)+
  then show ?thesis
  proof cases
    case 1
    then show ?thesis by (simp add: ReadMsg_def io_ReadFull_def)
  next
    case 2
    then have "take n (frame m) = of_char (TypeOf m) # take k ?l"
      by (simp add: frame_def Let_def)
    then show ?thesis
      using 2 by (simp add: ReadMsg_def io_ReadFull_def)
  next
    case 3
    then have "n = Suc (8 + k)"
      by simp
    then have "take n (frame m) = of_char (TypeOf m) # ?l @ take k ?b"
      by (simp only: frame_def Let_def take_Suc_Cons take_append) simp
    then show ?thesis
      using 3 assms len
      by (simp add: ReadMsg_header typeTo_TypeOf io_ReadFull_def Let_def del: json_Unmarshal.simps)
  qed
qed

section \<open>Properties\<close>

text \<open>
  C11: What \<^verbatim>\<open>WriteMsg\<close> puts on the wire, \<^verbatim>\<open>ReadMsg\<close> reads back as the same message and leaves
  the reader at the first byte after the frame, for every well-formed message whose body is
  within the size limit.
\<close>

theorem ReadMsg_WriteMsg:
  assumes "msg_wf m" and "length (json_Marshal m) \<le> MaxBodySize"
  shows "WriteMsg (\<lambda>w buf. (w @ buf, None :: msg_error option)) w m = (w @ frame m, None)
     \<and> ReadMsg (frame m @ rest) = Inr (m, rest)"
  using ReadMsg_frame [OF assms] by (simp add: WriteMsg_def)

definition example_proxy :: NewProxy where
  "example_proxy =
     \<lparr>newproxy_ProxyName = ''web'', newproxy_ProxyType = ''http'', newproxy_UseEncryption = True,
      newproxy_UseCompression = False, newproxy_BandwidthLimit = [], newproxy_BandwidthLimitMode = [],
      newproxy_Group = [], newproxy_GroupKey = [], newproxy_Metas = [],
      newproxy_Annotations = [], newproxy_CustomDomains = [''a.io'', ''b.io''],
      newproxy_SubDomain = [], newproxy_Locations = [''/''], newproxy_HTTPUser = [],
      newproxy_HTTPPwd = ''<&>'', newproxy_HostHeaderRewrite = [],
      newproxy_Headers = [(''X-A'', ''1''), (''X-B'', ''2'')], newproxy_ResponseHeaders = [],
      newproxy_RouteByHTTPUser = []\<rparr>"

lemmas marshal_eval = json_Marshal_def encode_str_def esc_ascii_def html_safe_def encode_member_def

lemma example_proxy_ok: "msg_wf (NewProxy example_proxy)"
  by (simp add: msg_wf_def example_proxy_def)

lemma example_proxy_length: "length (json_Marshal (NewProxy example_proxy)) \<le> MaxBodySize"
  by (simp add: example_proxy_def marshal_eval MaxBodySize_def)

theorem ReadMsg_WriteMsg_witness:
  "ReadMsg (frame (NewProxy example_proxy) @ [7]) = Inr (NewProxy example_proxy, [7])"
  using ReadMsg_WriteMsg [OF example_proxy_ok example_proxy_length] by blast

lemma ReadMsgs_cut:
  assumes "\<forall>m \<in> set ms. msg_wf m \<and> length (json_Marshal m) \<le> MaxBodySize"
  shows "\<exists>k e. ReadMsgs (take n (concat (map frame ms))) = (take k ms, e)
      \<and> e \<in> {IO_EOF, IO_ErrUnexpectedEOF}
      \<and> (length (concat (map frame ms)) \<le> n \<longrightarrow> take k ms = ms)"
  using assms
proof (induction ms arbitrary: n)
  case Nil
  show ?case by (simp add: ReadMsgs_Nil)
next
  case (Cons m ms)
  show ?case
  proof (cases "n < length (frame m)")
    case True
    then have "ReadMsg (take n (concat (map frame (m # ms)))) \<in> {Inl IO_EOF, Inl IO_ErrUnexpectedEOF}"
      using ReadMsg_truncated [of m n] Cons.prems by simp
    with True show ?thesis
      by (intro exI [of _ 0]) (subst ReadMsgs.simps, auto)
  next
    case False
    obtain k e where ke: "ReadMsgs (take (n - length (frame m)) (concat (map frame ms))) = (take k ms, e)"
      "e \<in> {IO_EOF, IO_ErrUnexpectedEOF}"
      "length (concat (map frame ms)) \<le> n - length (frame m) \<longrightarrow> take k ms = ms"
      using Cons.IH [of "n - length (frame m)"] Cons.prems by auto
    have "ReadMsgs (take n (concat (map frame (m # ms)))) = (take (Suc k) (m # ms), e)"
      using ReadMsgs_frames [of "[m]"] False ke Cons.prems by simp
    with ke False show ?thesis by (intro exI [of _ "Suc k"] exI [of _ e]) auto
  qed
qed

text \<open>
  A stream of frames that is cut off at any byte decodes to a prefix of the messages that
  were written, in order, followed by an end-of-file error: no frame boundary is ever lost and
  no message is invented; the whole stream decodes to all of them.
\<close>

theorem ReadMsgs_stream:
  assumes "\<forall>m \<in> set ms. msg_wf m \<and> length (json_Marshal m) \<le> MaxBodySize"
  shows "\<exists>k e. ReadMsgs (take n (concat (map frame ms))) = (take k ms, e)
      \<and> e \<in> {IO_EOF, IO_ErrUnexpectedEOF}
      \<and> (length (concat (map frame ms)) \<le> n \<longrightarrow> take k ms = ms)"
  using assms by (rule ReadMsgs_cut)

definition example_ping :: Message where
  "example_ping = Ping \<lparr>ping_PrivilegeKey = ''k'', ping_Timestamp = -5\<rparr>"

lemma example_ping_ok: "msg_wf example_ping" "length (json_Marshal example_ping) \<le> MaxBodySize"
  by (simp_all add: example_ping_def msg_wf_def marshal_eval MaxBodySize_def strconv_Itoa_def nat_digits.simps)

theorem ReadMsgs_stream_witness:
  "\<exists>k e. ReadMsgs (take 300 (concat (map frame [example_ping, NewProxy example_proxy])))
     = (take k [example_ping, NewProxy example_proxy], e)"
  using ReadMsgs_stream [of "[example_ping, NewProxy example_proxy]" 300]
    example_ping_ok example_proxy_ok example_proxy_length by auto

text \<open>
  A declared body length above \<^verbatim>\<open>MaxBodySize\<close>, read as an unsigned number (so a length whose
  sign bit is set counts too), is refused whatever the type byte and the bytes that follow, and
  every accepted message took between 9 and 10249 bytes off the stream.
\<close>

theorem ReadMsg_size_limit:
  "(length lenBuf = 8 \<longrightarrow> MaxBodySize < be_get lenBuf \<longrightarrow>
      ReadMsg (b # lenBuf @ r) = Inl (InvalidBodySize (int64 (be_get lenBuf))))
   \<and> (ReadMsg s = Inr (m, s') \<longrightarrow>
      (\<exists>k. headerSize \<le> k \<and> k \<le> headerSize + MaxBodySize \<and> k \<le> length s \<and> s' = drop k s))"
proof (intro conjI impI)
  assume "ReadMsg s = Inr (m, s')"
  then show "\<exists>k. headerSize \<le> k \<and> k \<le> headerSize + MaxBodySize \<and> k \<le> length s \<and> s' = drop k s"
    by (auto simp: ReadMsg_def io_ReadFull_def Let_def headerSize_def add.commute simp del: json_Unmarshal.simps
        split: if_splits option.splits
        intro!: exI [of _ "Suc (8 + nat (int64 (be_get (take 8 (drop 1 s)))))"])
qed (rule ReadMsg_oversize)

theorem ReadMsg_size_limit_witness:
  "ReadMsg (0x6F # [0xFF, 0, 0, 0, 0, 0, 0, 1] @ []) = Inl (InvalidBodySize (- (2 ^ 56) + 1))
   \<and> (\<exists>k \<ge> headerSize. [7] = drop k (frame example_ping @ [7]))"
proof
  have l: "be_get [0xFF, 0, 0, 0, 0, 0, 0, 1] = 0xFF00000000000001"
    by (simp add: be_get_def)
  have "int64 0xFF00000000000001 = - (2 ^ 56) + 1"
    by (subst int64_large) simp_all
  then show "ReadMsg (0x6F # [0xFF, 0, 0, 0, 0, 0, 0, 1] @ []) = Inl (InvalidBodySize (- (2 ^ 56) + 1))"
    using ReadMsg_size_limit [of "[0xFF, 0, 0, 0, 0, 0, 0, 1]" "0x6F" "[]", THEN conjunct1]
    unfolding l by (simp add: MaxBodySize_def)
  show "\<exists>k \<ge> headerSize. [7] = drop k (frame example_ping @ [7])"
    using ReadMsg_size_limit [THEN conjunct2] ReadMsg_frame [OF example_ping_ok] by blast
qed

text \<open>
  \<^verbatim>\<open>WriteMsg\<close> has no size check of its own: a message whose JSON body is longer than
  \<^verbatim>\<open>MaxBodySize\<close> is put on the wire without an error, and the peer's \<^verbatim>\<open>ReadMsg\<close> refuses the frame.
\<close>

theorem WriteMsg_oversize_refused:
  assumes "MaxBodySize < length (json_Marshal m)" and "length (json_Marshal m) < 2 ^ 63"
  shows "WriteMsg (\<lambda>w buf. (w @ buf, None :: msg_error option)) w m = (w @ frame m, None)
     \<and> ReadMsg (frame m @ rest) = Inl (InvalidBodySize (int (length (json_Marshal m))))"
proof -
  let ?l = "be_put 8 (length (json_Marshal m))"
  have l: "be_get ?l = length (json_Marshal m)"
    using assms by (simp add: be_get_put)
  then have "ReadMsg (of_char (TypeOf m) # ?l @ bytes_of_string (json_Marshal m) @ rest)
      = Inl (InvalidBodySize (int64 (be_get ?l)))"
    using assms by (intro ReadMsg_oversize) auto
  then show ?thesis
    using assms by (simp add: WriteMsg_def frame_def Let_def l int64_small)
qed

lemma esc_replicate_x: "esc (replicate n CHR ''x'') = replicate n CHR ''x''"
  by (induction n) (simp_all add: esc_ascii_def html_safe_def)

lemma long_error_length:
  "length (json_Marshal (Pong \<lparr>pong_Error = replicate (Suc n) CHR ''x''\<rparr>)) = n + 13"
  using esc_replicate_x [of "Suc n"] by (simp add: json_Marshal_def encode_str_def esc_ascii_def html_safe_def)

theorem WriteMsg_oversize_refused_witness:
  "ReadMsg (frame (Pong \<lparr>pong_Error = replicate (Suc 10299) CHR ''x''\<rparr>) @ []) = Inl (InvalidBodySize 10312)"
  using WriteMsg_oversize_refused [of "Pong \<lparr>pong_Error = replicate (Suc 10299) CHR ''x''\<rparr>" "[]" "[]"]
  unfolding long_error_length MaxBodySize_def by simp

end
