(* ===== verification/Crypto.thy ===== *)
theory Crypto
  imports Messages
begin

unbundle bit_operations_syntax

text \<open>
  The encryption layer, \<^verbatim>\<open>internal/crypto/crypto.go\<close>: AES (\<^verbatim>\<open>crypto/aes\<close>, FIPS 197, all three key
  sizes) and the CFB stream of \<^verbatim>\<open>crypto/cipher\<close> with its block-sized register, over a writer and
  a stream of bytes; the initial vector that \<^verbatim>\<open>rand.Read\<close> delivers is an argument. \<^verbatim>\<open>pbkdf2.Key\<close>
  is not in the repository and is a parameter of \<open>DeriveKey\<close>. The locale \<open>stream_pair\<close> states
  when a decrypting stream follows an encrypting one; it is interpreted on the two
  directions of CFB. Main result: whatever the chunks in which it is written and read, the
  plain text comes back.
\<close>

section \<open>AES\<close>

definition aes_BlockSize :: nat where "aes_BlockSize = 16"

definition sbox :: "byte list" where
  "sbox =
     [0x63, 0x7c, 0x77, 0x7b, 0xf2, 0x6b, 0x6f, 0xc5, 0x30, 0x01, 0x67, 0x2b, 0xfe, 0xd7, 0xab, 0x76,
      0xca, 0x82, 0xc9, 0x7d, 0xfa, 0x59, 0x47, 0xf0, 0xad, 0xd4, 0xa2, 0xaf, 0x9c, 0xa4, 0x72, 0xc0,
      0xb7, 0xfd, 0x93, 0x26, 0x36, 0x3f, 0xf7, 0xcc, 0x34, 0xa5, 0xe5, 0xf1, 0x71, 0xd8, 0x31, 0x15,
      0x04, 0xc7, 0x23, 0xc3, 0x18, 0x96, 0x05, 0x9a, 0x07, 0x12, 0x80, 0xe2, 0xeb, 0x27, 0xb2, 0x75,
      0x09, 0x83, 0x2c, 0x1a, 0x1b, 0x6e, 0x5a, 0xa0, 0x52, 0x3b, 0xd6, 0xb3, 0x29, 0xe3, 0x2f, 0x84,
      0x53, 0xd1, 0x00, 0xed, 0x20, 0xfc, 0xb1, 0x5b, 0x6a, 0xcb, 0xbe, 0x39, 0x4a, 0x4c, 0x58, 0xcf,
      0xd0, 0xef, 0xaa, 0xfb, 0x43, 0x4d, 0x33, 0x85, 0x45, 0xf9, 0x02, 0x7f, 0x50, 0x3c, 0x9f, 0xa8,
      0x51, 0xa3, 0x40, 0x8f, 0x92, 0x9d, 0x38, 0xf5, 0xbc, 0xb6, 0xda, 0x21, 0x10, 0xff, 0xf3, 0xd2,
      0xcd, 0x0c, 0x13, 0xec, 0x5f, 0x97, 0x44, 0x17, 0xc4, 0xa7, 0x7e, 0x3d, 0x64, 0x5d, 0x19, 0x73,
      0x60, 0x81, 0x4f, 0xdc, 0x22, 0x2a, 0x90, 0x88, 0x46, 0xee, 0xb8, 0x14, 0xde, 0x5e, 0x0b, 0xdb,
      0xe0, 0x32, 0x3a, 0x0a, 0x49, 0x06, 0x24, 0x5c, 0xc2, 0xd3, 0xac, 0x62, 0x91, 0x95, 0xe4, 0x79,
      0xe7, 0xc8, 0x37, 0x6d, 0x8d, 0xd5, 0x4e, 0xa9, 0x6c, 0x56, 0xf4, 0xea, 0x65, 0x7a, 0xae, 0x08,
      0xba, 0x78, 0x25, 0x2e, 0x1c, 0xa6, 0xb4, 0xc6, 0xe8, 0xdd, 0x74, 0x1f, 0x4b, 0xbd, 0x8b, 0x8a,
      0x70, 0x3e, 0xb5, 0x66, 0x48, 0x03, 0xf6, 0x0e, 0x61, 0x35, 0x57, 0xb9, 0x86, 0xc1, 0x1d, 0x9e,
      0xe1, 0xf8, 0x98, 0x11, 0x69, 0xd9, 0x8e, 0x94, 0x9b, 0x1e, 0x87, 0xe9, 0xce, 0x55, 0x28, 0xdf,
      0x8c, 0xa1, 0x89, 0x0d, 0xbf, 0xe6, 0x42, 0x68, 0x41, 0x99, 0x2d, 0x0f, 0xb0, 0x54, 0xbb, 0x16]"

definition sub_byte :: "byte \<Rightarrow> byte" where
  "sub_byte b = sbox ! unat b"

definition xor_bytes :: "bytes \<Rightarrow> bytes \<Rightarrow> bytes" where
  "xor_bytes xs ys = map (\<lambda>(x, y). x XOR y) (zip xs ys)"

definition xtime :: "byte \<Rightarrow> byte" where
  "xtime b = push_bit 1 b XOR (if bit b 7 then 0x1b else 0)"

definition rcon :: "nat \<Rightarrow> byte" where
  "rcon i = (xtime ^^ (i - 1)) 1"

text \<open>Key expansion: the words of the key schedule, each a list of four bytes.\<close>

definition key_word :: "nat \<Rightarrow> bytes list \<Rightarrow> nat \<Rightarrow> bytes" where
  "key_word nk w i =
     (let t = w ! (i - 1);
          t' = (if i mod nk = 0 then xor_bytes (map sub_byte (rotate1 t)) [rcon (i div nk), 0, 0, 0]
                else if nk > 6 \<and> i mod nk = 4 then map sub_byte t
                else t)
      in xor_bytes (w ! (i - nk)) t')"

definition aes_rounds :: "nat \<Rightarrow> nat" where
  "aes_rounds nk = nk + 6"

definition key_schedule :: "bytes \<Rightarrow> bytes list" where
  "key_schedule key =
     (let nk = length key div 4
      in fold (\<lambda>i w. w @ [key_word nk w i]) [nk..<4 * (aes_rounds nk + 1)]
           (map (\<lambda>i. take 4 (drop (4 * i) key)) [0..<nk]))"

definition round_key :: "bytes list \<Rightarrow> nat \<Rightarrow> bytes" where
  "round_key w r = concat (take 4 (drop (4 * r) w))"

definition shift_rows :: "bytes \<Rightarrow> bytes" where
  "shift_rows s = map (\<lambda>i. s ! ((i + 4 * (i mod 4)) mod 16)) [0..<16]"

definition mix_column :: "bytes \<Rightarrow> bytes" where
  "mix_column c =
     (let a = c ! 0; b = c ! 1; d = c ! 2; e = c ! 3
      in [xtime a XOR (xtime b XOR b) XOR d XOR e, a XOR xtime b XOR (xtime d XOR d) XOR e,
          a XOR b XOR xtime d XOR (xtime e XOR e), (xtime a XOR a) XOR b XOR d XOR xtime e])"

definition mix_columns :: "bytes \<Rightarrow> bytes" where
  "mix_columns s = concat (map (\<lambda>i. mix_column (take 4 (drop (4 * i) s))) [0..<4])"

definition aes_Encrypt :: "bytes \<Rightarrow> bytes \<Rightarrow> bytes" where
  "aes_Encrypt key block =
     (let w = key_schedule key;
          n = aes_rounds (length key div 4);
          s = xor_bytes block (round_key w 0);
          s = fold (\<lambda>r s. xor_bytes (mix_columns (shift_rows (map sub_byte s))) (round_key w r)) [1..<n] s
      in xor_bytes (shift_rows (map sub_byte s)) (round_key w n))"

section \<open>The CFB streams\<close>

text \<open>The struct \<^verbatim>\<open>cipher.cfb\<close>; \<open>cfb_block\<close> is the key of its block cipher.\<close>

record cfb =
  cfb_key :: bytes
  cfb_next :: bytes
  cfb_out :: bytes
  cfb_outUsed :: nat

definition newCFB :: "bytes \<Rightarrow> bytes \<Rightarrow> cfb" where
  "newCFB key iv = \<lparr>cfb_key = key, cfb_next = iv, cfb_out = replicate aes_BlockSize 0, cfb_outUsed = aes_BlockSize\<rparr>"

text \<open>One byte of \<^verbatim>\<open>XORKeyStream\<close>; \<open>decrypt\<close> selects which side is fed back.\<close>

definition cfb_refill :: "cfb \<Rightarrow> cfb" where
  "cfb_refill x =
     (if cfb_outUsed x = aes_BlockSize
      then x\<lparr>cfb_out := aes_Encrypt (cfb_key x) (cfb_next x), cfb_outUsed := 0\<rparr> else x)"

definition cfb_byte :: "bool \<Rightarrow> cfb \<Rightarrow> byte \<Rightarrow> cfb \<times> byte" where
  "cfb_byte decrypt x src =
     (let x1 = cfb_refill x;
          dst = src XOR cfb_out x1 ! cfb_outUsed x1
      in (x1\<lparr>cfb_next := (cfb_next x1)[cfb_outUsed x1 := (if decrypt then src else dst)],
             cfb_outUsed := cfb_outUsed x1 + 1\<rparr>, dst))"

fun xor_stream :: "('s \<Rightarrow> byte \<Rightarrow> 's \<times> byte) \<Rightarrow> 's \<Rightarrow> bytes \<Rightarrow> 's \<times> bytes" where
  "xor_stream f s [] = (s, [])"
| "xor_stream f s (b # bs) =
     (case f s b of (s1, c) \<Rightarrow> (case xor_stream f s1 bs of (s2, cs) \<Rightarrow> (s2, c # cs)))"

definition XORKeyStream :: "bool \<Rightarrow> cfb \<Rightarrow> bytes \<Rightarrow> cfb \<times> bytes" where
  "XORKeyStream decrypt x src = xor_stream (cfb_byte decrypt) x src"

section \<open>Keys, writer and reader\<close>

definition salt :: string where "salt = ''frp''"
definition iterations :: nat where "iterations = 64"

text \<open>\<open>pbkdf2\<close> stands for \<^verbatim>\<open>pbkdf2.Key\<close> with SHA-1: password, salt, iterations, key length.\<close>

definition DeriveKey :: "(bytes \<Rightarrow> bytes \<Rightarrow> nat \<Rightarrow> nat \<Rightarrow> bytes) \<Rightarrow> string \<Rightarrow> bytes" where
  "DeriveKey pbkdf2 token = pbkdf2 (bytes_of_string token) (bytes_of_string salt) iterations aes_BlockSize"

datatype 'e crypto_error = KeySizeError nat | RandRead | WriteIV 'e | ReadIV msg_error

definition aes_NewCipher :: "bytes \<Rightarrow> 'e crypto_error + bytes" where
  "aes_NewCipher key = (if length key \<in> {16, 24, 32} then Inr key else Inl (KeySizeError (length key)))"

text \<open>
  \<open>iv\<close> is what \<^verbatim>\<open>rand.Read\<close> delivers, \<open>None\<close> for its error. The \<^verbatim>\<open>StreamWriter\<close> is the encrypting stream; the
  writer it writes to is passed along.
\<close>

definition NewCryptoWriter ::
  "('w \<Rightarrow> bytes \<Rightarrow> 'w \<times> 'e option) \<Rightarrow> bytes option \<Rightarrow> 'w \<Rightarrow> bytes \<Rightarrow> 'w \<times> ('e crypto_error + cfb)" where
  "NewCryptoWriter write iv w key =
     (case aes_NewCipher key of
        Inl e \<Rightarrow> (w, Inl e)
      | Inr block \<Rightarrow>
          (case iv of
             None \<Rightarrow> (w, Inl RandRead)
           | Some iv' \<Rightarrow>
               (case write w iv' of
                  (w', Some e) \<Rightarrow> (w', Inl (WriteIV e))
                | (w', None) \<Rightarrow> (w', Inr (newCFB block iv')))))"

definition StreamWriter_Write ::
  "('w \<Rightarrow> bytes \<Rightarrow> 'w \<times> 'e option) \<Rightarrow> 'w \<times> cfb \<Rightarrow> bytes \<Rightarrow> ('w \<times> cfb) \<times> 'e option" where
  "StreamWriter_Write write ws src =
     (case XORKeyStream False (snd ws) src of
        (s', c) \<Rightarrow> (case write (fst ws) c of (w', e) \<Rightarrow> ((w', s'), e)))"

definition NewCryptoReader :: "bytes \<Rightarrow> bytes \<Rightarrow> 'e crypto_error + bytes \<times> cfb" where
  "NewCryptoReader r key =
     (case aes_NewCipher key of
        Inl e \<Rightarrow> Inl e
      | Inr block \<Rightarrow>
          (case io_ReadFull r aes_BlockSize of
             Inl e \<Rightarrow> Inl (ReadIV e)
           | Inr (iv, r') \<Rightarrow> Inr (r', newCFB block iv)))"

text \<open>A \<^verbatim>\<open>Read\<close> for which the underlying reader delivers \<open>n\<close> bytes.\<close>

definition StreamReader_Read :: "nat \<Rightarrow> bytes \<times> cfb \<Rightarrow> (bytes \<times> cfb) \<times> bytes" where
  "StreamReader_Read n rs =
     (case XORKeyStream True (snd rs) (take n (fst rs)) of
        (s', p) \<Rightarrow> ((drop n (fst rs), s'), p))"

section \<open>A decrypting stream follows an encrypting one\<close>

locale stream_pair =
  fixes enc dec :: "'s \<Rightarrow> byte \<Rightarrow> 's \<times> byte"
  assumes in_step: "enc s p = (s', c) \<Longrightarrow> dec s c = (s', p)"
begin

lemma stream_in_step: "xor_stream enc s ps = (s', cs) \<Longrightarrow> xor_stream dec s cs = (s', ps)"
  by (induction ps arbitrary: s s' cs) (auto dest: in_step split: prod.splits)

lemma stream_prefix:
  assumes "xor_stream enc s ps = (s', cs)"
  shows "snd (xor_stream dec s (take n cs)) = take n ps"
  using assms
proof (induction ps arbitrary: s cs n)
  case (Cons p ps)
  obtain s1 c where e: "enc s p = (s1, c)" by fastforce
  obtain s2 cs1 where r: "xor_stream enc s1 ps = (s2, cs1)" by fastforce
  have cs: "cs = c # cs1" using Cons.prems e r by simp
  show ?case
  proof (cases n)
    case (Suc m)
    with cs Cons.IH [of s1 cs1 m] Cons.prems e r in_step [OF e] show ?thesis
      by (auto split: prod.splits)
  qed simp
qed simp

end

lemma xor_stream_append:
  "xor_stream f s (xs @ ys) =
     (case xor_stream f s xs of (s1, cs) \<Rightarrow> (case xor_stream f s1 ys of (s2, ds) \<Rightarrow> (s2, cs @ ds)))"
  by (induction xs arbitrary: s) (auto split: prod.splits)

lemma length_xor_stream: "length (snd (xor_stream f s xs)) = length xs"
proof (induction xs arbitrary: s)
  case (Cons a xs)
  then show ?case
    by (auto split: prod.split) (metis snd_conv)
qed simp

lemma cfb_in_step:
  assumes "cfb_byte False x p = (x', c)" shows "cfb_byte True x c = (x', p)"
proof -
  let ?o = "cfb_out (cfb_refill x) ! cfb_outUsed (cfb_refill x)"
  from assms have "c = p XOR ?o" "x' = (cfb_refill x)\<lparr>cfb_next := (cfb_next (cfb_refill x))[cfb_outUsed (cfb_refill x) := c],
      cfb_outUsed := cfb_outUsed (cfb_refill x) + 1\<rparr>"
    by (auto simp: cfb_byte_def Let_def)
  moreover from this have "c XOR ?o = p"
    by (simp add: xor.assoc)
  ultimately show ?thesis
    by (simp add: cfb_byte_def Let_def)
qed

interpretation cfb: stream_pair "cfb_byte False" "cfb_byte True"
  by unfold_locales (rule cfb_in_step)

text \<open>Successive writes and reads.\<close>

fun crypto_writes :: "bytes \<times> cfb \<Rightarrow> bytes list \<Rightarrow> bytes \<times> cfb" where
  "crypto_writes ws [] = ws"
| "crypto_writes ws (p # ps) =
     crypto_writes (fst (StreamWriter_Write (\<lambda>w b. (w @ b, None :: unit option)) ws p)) ps"

fun crypto_reads :: "nat list \<Rightarrow> bytes \<times> cfb \<Rightarrow> bytes" where
  "crypto_reads [] rs = []"
| "crypto_reads (n # ns) rs = (case StreamReader_Read n rs of (rs', p) \<Rightarrow> p @ crypto_reads ns rs')"

lemma crypto_writes_stream:
  "crypto_writes (w, x) ps = (case XORKeyStream False x (concat ps) of (x', c) \<Rightarrow> (w @ c, x'))"
proof (induction ps arbitrary: w x)
  case (Cons p ps)
  then show ?case
    by (simp add: StreamWriter_Write_def XORKeyStream_def xor_stream_append split: prod.splits)
qed (simp add: XORKeyStream_def)

lemma crypto_reads_stream:
  "crypto_reads ns (r, x) = snd (XORKeyStream True x (take (sum_list ns) r))"
proof (induction ns arbitrary: r x)
  case (Cons n ns)
  have "take (n + sum_list ns) r = take n r @ take (sum_list ns) (drop n r)"
    by (simp add: take_add)
  with Cons show ?case
    by (simp add: StreamReader_Read_def XORKeyStream_def xor_stream_append split: prod.splits)
qed (simp add: XORKeyStream_def)

lemma crypto_pair:
  assumes "length key \<in> {16, 24, 32}" "length iv = aes_BlockSize"
  shows "\<exists>x c. NewCryptoWriter (\<lambda>w b. (w @ b, None :: unit option)) (Some iv) w key = (w @ iv, Inr x) \<and>
      fst (crypto_writes (w @ iv, x) ps) = w @ iv @ c \<and> length c = length (concat ps) \<and>
      (NewCryptoReader (iv @ c) key :: unit crypto_error + bytes \<times> cfb) = Inr (c, x) \<and>
      (\<forall>ns. crypto_reads ns (c, x) = take (sum_list ns) (concat ps))"
proof -
  let ?x = "newCFB key iv"
  obtain x' c where e: "xor_stream (cfb_byte False) ?x (concat ps) = (x', c)" by fastforce
  have "length c = length (concat ps)"
    using length_xor_stream [of "cfb_byte False" ?x "concat ps"] e by simp
  then show ?thesis
    using assms e cfb.stream_prefix [OF e]
    by (intro exI [of _ ?x] exI [of _ c])
      (auto simp: NewCryptoWriter_def NewCryptoReader_def aes_NewCipher_def io_ReadFull_def
        crypto_writes_stream crypto_reads_stream XORKeyStream_def)
qed

section \<open>Properties\<close>

text \<open>
  C23: The encrypted channel is transparent: with the key derived from the token, any initial
  vector and any sequence of writes, a reader that is opened on what the writer put out reads
  back the plain text, in order and complete, in whatever chunks it reads; the cipher text is as
  long as the plain text, after the 16 bytes of the initial vector. The hypothesis on
  \<^verbatim>\<open>pbkdf2.Key\<close> is its documented key length.
\<close>

theorem crypto_roundtrip:
  assumes pbkdf2_length: "\<And>pw s i n. length (pbkdf2 pw s i n) = n"
    and "length iv = aes_BlockSize"
  shows "\<exists>x c. NewCryptoWriter (\<lambda>w b. (w @ b, None :: unit option)) (Some iv) w (DeriveKey pbkdf2 token) = (w @ iv, Inr x) \<and>
      fst (crypto_writes (w @ iv, x) ps) = w @ iv @ c \<and> length c = length (concat ps) \<and>
      (NewCryptoReader (iv @ c) (DeriveKey pbkdf2 token) :: unit crypto_error + bytes \<times> cfb) = Inr (c, x) \<and>
      (\<forall>ns. crypto_reads ns (c, x) = take (sum_list ns) (concat ps))"
  using assms by (intro crypto_pair) (simp_all add: DeriveKey_def aes_BlockSize_def)

definition toy_pbkdf2 :: "bytes \<Rightarrow> bytes \<Rightarrow> nat \<Rightarrow> nat \<Rightarrow> bytes" where
  "toy_pbkdf2 pw s i n = take n (pw @ s @ replicate n 0)"

theorem crypto_roundtrip_witness:
  "\<exists>x c. NewCryptoWriter (\<lambda>w b. (w @ b, None :: unit option)) (Some (replicate 16 9)) [] (DeriveKey toy_pbkdf2 ''test'')
       = (replicate 16 9, Inr x) \<and> crypto_reads [2, 9] (c, x) = [1, 2, 3, 4]"
proof -
  have "length (toy_pbkdf2 pw s i n) = n" for pw s i n
    by (simp add: toy_pbkdf2_def)
  moreover have "length (replicate 16 9) = aes_BlockSize"
    by (simp add: aes_BlockSize_def)
  ultimately obtain x c where
      "NewCryptoWriter (\<lambda>w b. (w @ b, None :: unit option)) (Some (replicate 16 9)) [] (DeriveKey toy_pbkdf2 ''test'')
         = ([] @ replicate 16 9, Inr x)"
      "\<forall>ns. crypto_reads ns (c, x) = take (sum_list ns) (concat [[1, 2], [3, 4]])"
    using crypto_roundtrip [of toy_pbkdf2 "replicate 16 9" "[]" "''test''" "[[1, 2], [3, 4]]"] by blast
  moreover from this(2) have "crypto_reads [2, 9] (c, x) = [1, 2, 3, 4]"
    by (simp del: crypto_reads.simps)
  ultimately show ?thesis
    by (metis append_Nil)
qed

end
