(* ===== verification/Key_Table.thy ===== *)
theory Key_Table
  imports Prelude
begin

text \<open>
  The contract of a Go map that is keyed by run id: what a lookup returns after an insert or a
  delete. The pool registry and the control manager keep such tables; each interprets the locale
  on its own representation and reads off what a history of operations leaves behind.
\<close>

datatype ('k, 'v) table_op = Set_key 'k 'v | Delete_key 'k

text \<open>The last write of a history to a key: nothing, a value, or a deletion.\<close>

fun last_write :: "('k, 'v) table_op list \<Rightarrow> 'k \<Rightarrow> 'v option option" where
  "last_write [] k = None"
| "last_write (Set_key k' v # ops) k =
     (case last_write ops k of Some w \<Rightarrow> Some w | None \<Rightarrow> if k' = k then Some (Some v) else None)"
| "last_write (Delete_key k' # ops) k =
     (case last_write ops k of Some w \<Rightarrow> Some w | None \<Rightarrow> if k' = k then Some None else None)"

locale key_table =
  fixes lookup :: "'t \<Rightarrow> 'k \<Rightarrow> 'v option"
    and insert :: "'k \<Rightarrow> 'v \<Rightarrow> 't \<Rightarrow> 't"
    and delete :: "'k \<Rightarrow> 't \<Rightarrow> 't"
  assumes lookup_insert: "lookup (insert k v t) k' = (if k' = k then Some v else lookup t k')"
    and lookup_delete: "lookup (delete k t) k' = (if k' = k then None else lookup t k')"
begin

fun apply_op :: "'t \<Rightarrow> ('k, 'v) table_op \<Rightarrow> 't" where
  "apply_op t (Set_key k v) = insert k v t"
| "apply_op t (Delete_key k) = delete k t"

lemma lookup_history:
  "lookup (foldl apply_op t ops) k = (case last_write ops k of Some w \<Rightarrow> w | None \<Rightarrow> lookup t k)"
proof (induction ops arbitrary: t)
  case (Cons op ops)
  then show ?case
    by (cases op) (auto simp: lookup_insert lookup_delete split: option.splits)
qed simp

lemma lookup_insert_delete: "lookup (delete k (insert k v t)) k' = lookup (delete k t) k'"
  by (simp add: lookup_insert lookup_delete)

end

end
