(* ===== verification/Go_Chan.thy ===== *)
theory Go_Chan
  imports Prelude
begin

text \<open>
  Buffered Go channels, as the pool and the control writer use them: a FIFO queue with a
  capacity and a closed flag. A send or receive in a \<^verbatim>\<open>select\<close> with a \<^verbatim>\<open>default\<close> branch asks
  whether the operation can proceed; a blocking one waits until it can. Sending on a closed
  channel panics. The locale \<open>bounded_fifo\<close> states the contract of the buffer and shows, for every
  sequence of operations, that values come out in the order in which they went in and that the
  capacity is never exceeded; it is interpreted on the channel operations.
\<close>

record 'a chan =
  buf :: "'a list"
  chcap :: nat
  chclosed :: bool

definition make_chan :: "nat \<Rightarrow> 'a chan" where
  "make_chan n = \<lparr>buf = [], chcap = n, chclosed = False\<rparr>"

datatype 'c send_outcome = Sent 'c | SendBlocks | SendPanics

definition chan_send :: "'a chan \<Rightarrow> 'a \<Rightarrow> 'a chan send_outcome" where
  "chan_send c x =
     (if chclosed c then SendPanics
      else if length (buf c) < chcap c then Sent (c\<lparr>buf := buf c @ [x]\<rparr>)
      else SendBlocks)"

datatype ('a, 'c) recv_outcome = Received 'a 'c | RecvClosed | RecvBlocks

definition chan_recv :: "'a chan \<Rightarrow> ('a, 'a chan) recv_outcome" where
  "chan_recv c =
     (case buf c of
        x # xs \<Rightarrow> Received x (c\<lparr>buf := xs\<rparr>)
      | [] \<Rightarrow> if chclosed c then RecvClosed else RecvBlocks)"

definition chan_close :: "'a chan \<Rightarrow> 'a chan" where
  "chan_close c = c\<lparr>chclosed := True\<rparr>"

definition chan_len :: "'a chan \<Rightarrow> nat" where
  "chan_len c = length (buf c)"

section \<open>The contract of the buffer\<close>

datatype 'a fifo_op = Push 'a | Pop

locale bounded_fifo =
  fixes push :: "'q \<Rightarrow> 'a \<Rightarrow> 'q option"
    and pop :: "'q \<Rightarrow> ('a \<times> 'q) option"
    and items :: "'q \<Rightarrow> 'a list"
    and limit :: "'q \<Rightarrow> nat"
  assumes push_items: "push q x = Some q' \<Longrightarrow> items q' = items q @ [x] \<and> limit q' = limit q"
    and push_limit: "push q x = Some q' \<Longrightarrow> length (items q) < limit q"
    and pop_items: "pop q = Some (x, q') \<Longrightarrow> items q = x # items q' \<and> limit q' = limit q"
begin

text \<open>An operation that cannot proceed leaves the queue alone.\<close>

fun run :: "'q \<Rightarrow> 'a fifo_op list \<Rightarrow> 'q \<times> 'a list \<times> 'a list" where
  "run q [] = (q, [], [])"
| "run q (Push x # ops) =
     (case push q x of
        None \<Rightarrow> run q ops
      | Some q1 \<Rightarrow> (case run q1 ops of (q', ins, outs) \<Rightarrow> (q', x # ins, outs)))"
| "run q (Pop # ops) =
     (case pop q of
        None \<Rightarrow> run q ops
      | Some (x, q1) \<Rightarrow> (case run q1 ops of (q', ins, outs) \<Rightarrow> (q', ins, x # outs)))"

lemma fifo_run:
  "run q ops = (q', ins, outs) \<Longrightarrow> length (items q) \<le> limit q \<Longrightarrow>
   items q @ ins = outs @ items q' \<and> length (items q') \<le> limit q' \<and> limit q' = limit q"
proof (induction ops arbitrary: q ins outs)
  case (Cons op ops)
  show ?case
  proof (cases op)
    case (Push x)
    show ?thesis
    proof (cases "push q x")
      case (Some q1)
      with Cons.prems Push obtain ins1 where "run q1 ops = (q', ins1, outs)" "ins = x # ins1"
        by (auto split: prod.splits)
      moreover have "items q1 = items q @ [x]" "limit q1 = limit q" "length (items q) < limit q"
        using Some push_items push_limit by blast+
      ultimately show ?thesis
        using Cons.IH [of q1 ins1 outs] by simp
    qed (use Cons.IH [of q ins outs] Cons.prems Push in auto)
  next
    case Pop
    show ?thesis
    proof (cases "pop q")
      case (Some p)
      obtain x q1 where p: "p = (x, q1)" by (cases p)
      with Some Cons.prems Pop obtain outs1 where "run q1 ops = (q', ins, outs1)" "outs = x # outs1"
        by (auto split: prod.splits)
      moreover have "items q = x # items q1" "limit q1 = limit q"
        using Some p pop_items by blast+
      ultimately show ?thesis
        using Cons.IH [of q1 ins outs1] Cons.prems by simp
    qed (use Cons.IH [of q ins outs] Cons.prems Pop in auto)
  qed
qed simp

end

section \<open>Channels implement it\<close>

definition send_opt :: "'a chan \<Rightarrow> 'a \<Rightarrow> 'a chan option" where
  "send_opt c x = (case chan_send c x of Sent c' \<Rightarrow> Some c' | _ \<Rightarrow> None)"

definition recv_opt :: "'a chan \<Rightarrow> ('a \<times> 'a chan) option" where
  "recv_opt c = (case chan_recv c of Received x c' \<Rightarrow> Some (x, c') | _ \<Rightarrow> None)"

interpretation gochan: bounded_fifo send_opt recv_opt buf chcap
  by unfold_locales
    (auto simp: send_opt_def chan_send_def recv_opt_def chan_recv_def split: if_splits list.splits)

lemma chan_send_Sent:
  "chan_send c x = Sent c' \<longleftrightarrow> \<not> chclosed c \<and> length (buf c) < chcap c \<and> c' = c\<lparr>buf := buf c @ [x]\<rparr>"
  by (auto simp: chan_send_def)

lemma chan_recv_Received: "chan_recv c = Received x c' \<longleftrightarrow> (\<exists>xs. buf c = x # xs \<and> c' = c\<lparr>buf := xs\<rparr>)"
  by (auto simp: chan_recv_def split: list.splits if_splits)

end
