(* ===== verification/Control_Manager.thy ===== *)
theory Control_Manager
  imports Key_Table Go_Chan "HOL-Library.AList"
begin

text \<open>
  The table of control sessions, \<^verbatim>\<open>internal/server/control_manager.go\<close>. A \<open>controlEntry\<close> holds
  references to the objects of a session: the cancel function and the done channel of its context and its
  two queues; the reference of an object is the number of the session that made it. The map starts as
  nil (\<open>None\<close>); reading or deleting from a nil map is allowed, \<open>Register\<close> makes the map. The three methods
  run under the manager's mutex. \<open>Register\<close> returns the contexts that it cancels.
\<close>

type_synonym session_ref = nat

record controlEntry =
  entry_cancel :: session_ref
  entry_reqCh :: session_ref
  entry_sendCh :: session_ref
  entry_done :: session_ref

type_synonym controlManager = "(string \<times> controlEntry) list option"

definition entries :: "controlManager \<Rightarrow> (string \<times> controlEntry) list" where
  "entries cm = (case cm of None \<Rightarrow> [] | Some es \<Rightarrow> es)"

definition GetEntry :: "controlManager \<Rightarrow> string \<Rightarrow> controlEntry option" where
  "GetEntry cm runID = map_of (entries cm) runID"

definition Register :: "controlManager \<Rightarrow> string \<Rightarrow> controlEntry \<Rightarrow> controlManager \<times> session_ref list" where
  "Register cm runID e =
     (let cm1 = (if cm = None then Some [] else cm)
      in (Some (AList.update runID e (entries cm1)),
          case map_of (entries cm1) runID of Some old \<Rightarrow> [entry_cancel old] | None \<Rightarrow> []))"

definition Remove_entry :: "controlManager \<Rightarrow> string \<Rightarrow> controlManager" where
  "Remove_entry cm runID = map_option (AList.delete runID) cm"

section \<open>Sending to a session\<close>

text \<open>\<open>Send\<close> drops the message when the queue is full.\<close>

definition Send :: "'m chan \<Rightarrow> 'm \<Rightarrow> 'm chan" where
  "Send ch m = (case chan_send ch m of Sent ch' \<Rightarrow> ch' | _ \<Rightarrow> ch)"

text \<open>
  \<open>SendReqWorkConn\<close>: one outcome for each ready branch of the \<^verbatim>\<open>select\<close> (either may be taken when both
  are ready), none when the call has to wait.
\<close>

definition SendReqWorkConn :: "unit chan \<Rightarrow> bool \<Rightarrow> (unit chan \<times> bool) list" where
  "SendReqWorkConn ch is_done =
     (case chan_send ch () of Sent ch' \<Rightarrow> [(ch', True)] | _ \<Rightarrow> []) @ (if is_done then [(ch, False)] else [])"

section \<open>The table contract\<close>

definition set_entry :: "string \<Rightarrow> controlEntry \<Rightarrow> controlManager \<Rightarrow> controlManager" where
  "set_entry runID e cm = fst (Register cm runID e)"

interpretation control_table: key_table GetEntry set_entry "\<lambda>runID cm. Remove_entry cm runID"
  by unfold_locales
    (auto simp: GetEntry_def set_entry_def Register_def Remove_entry_def entries_def Let_def update_conv'
      delete_conv' split: option.splits)

lemma GetEntry_Register [simp]:
  "GetEntry (fst (Register cm runID e)) k = (if k = runID then Some e else GetEntry cm k)"
  using control_table.lookup_insert [of runID e cm k] by (simp add: set_entry_def)

lemma GetEntry_Remove [simp]: "GetEntry (Remove_entry cm runID) k = (if k = runID then None else GetEntry cm k)"
  by (rule control_table.lookup_delete)

lemma GetEntry_nil [simp]: "GetEntry None k = None"
  by (simp add: GetEntry_def entries_def)

lemma Register_cancels:
  "snd (Register cm runID e) = (case GetEntry cm runID of Some old \<Rightarrow> [entry_cancel old] | None \<Rightarrow> [])"
  by (simp add: Register_def GetEntry_def entries_def Let_def split: option.split)

lemma Send_bound: "length (buf ch) \<le> chcap ch \<Longrightarrow> length (buf (Send ch m)) \<le> chcap (Send ch m)"
  by (auto simp: Send_def chan_send_def)

text \<open>The call returns false only for a cancelled session, and waits only for a live one with a full queue.\<close>

lemma SendReqWorkConn_outcomes:
  "(ch', ok) \<in> set (SendReqWorkConn ch is_done) \<longleftrightarrow>
     (if ok then chan_send ch () = Sent ch' else is_done \<and> ch' = ch)"
  by (auto simp: SendReqWorkConn_def split: send_outcome.splits)

lemma SendReqWorkConn_waits:
  assumes "\<not> chclosed ch"
  shows "SendReqWorkConn ch is_done = [] \<longleftrightarrow> \<not> is_done \<and> chcap ch \<le> length (buf ch)"
  using assms by (auto simp: SendReqWorkConn_def chan_send_def)

end
