(* ===== verification/Bufio.thy ===== *)
theory Bufio
  imports Prelude
begin

text \<open>
  \<^verbatim>\<open>bufio.Writer\<close> over an \<^verbatim>\<open>io.Writer\<close>, as the control writer uses it: \<^verbatim>\<open>Write\<close> copies into the buffer
  and flushes when it is full (a large write into an empty buffer goes out directly), \<^verbatim>\<open>Flush\<close>
  writes the buffer out, and the first error is sticky. The underlying writer accepts every
  byte or fails after a number of bytes that the environment chooses. Main result
  (\<open>bufio_stream\<close>): unless an error occurred, the bytes written out followed by the bytes
  in the buffer are exactly the bytes handed to \<^verbatim>\<open>Write\<close>.
\<close>

record sink =
  out :: bytes
  room :: "nat option"

definition sink_write :: "sink \<Rightarrow> bytes \<Rightarrow> sink \<times> nat \<times> bool" where
  "sink_write s p =
     (case room s of
        None \<Rightarrow> (s\<lparr>out := out s @ p\<rparr>, length p, False)
      | Some k \<Rightarrow>
          if length p \<le> k then (s\<lparr>out := out s @ p, room := Some (k - length p)\<rparr>, length p, False)
          else (s\<lparr>out := out s @ take k p, room := Some 0\<rparr>, k, True))"

record bufio =
  wr :: sink
  bbuf :: bytes
  bsize :: nat
  berr :: bool

definition bufio_NewWriterSize :: "sink \<Rightarrow> nat \<Rightarrow> bufio" where
  "bufio_NewWriterSize w n = \<lparr>wr = w, bbuf = [], bsize = n, berr = False\<rparr>"

definition bufio_Flush :: "bufio \<Rightarrow> bufio \<times> bool" where
  "bufio_Flush b =
     (if berr b then (b, True)
      else if bbuf b = [] then (b, False)
      else case sink_write (wr b) (bbuf b) of
             (w, n, err) \<Rightarrow>
               if err \<or> n < length (bbuf b) then (b\<lparr>wr := w, bbuf := drop n (bbuf b), berr := True\<rparr>, True)
               else (b\<lparr>wr := w, bbuf := []\<rparr>, False))"

lemma sink_write_cases:
  obtains (ok) w where "sink_write s p = (w, length p, False)" "out w = out s @ p"
  | (failed) w k where "sink_write s p = (w, k, True)" "k < length p" "out w = out s @ take k p"
proof (cases "\<exists>k. room s = Some k \<and> k < length p")
  case True
  then obtain k where "room s = Some k" "k < length p" by blast
  then show thesis
    by (intro failed [of "s\<lparr>out := out s @ take k p, room := Some 0\<rparr>" k]) (simp_all add: sink_write_def)
next
  case False
  then have "snd (sink_write s p) = (length p, False)" "out (fst (sink_write s p)) = out s @ p"
    by (auto simp: sink_write_def not_less split: option.splits)
  then show thesis
    by (intro ok [of "fst (sink_write s p)"]) (simp_all add: prod_eq_iff)
qed

lemma bufio_Flush_cases:
  assumes "\<not> berr b"
  obtains (ok) b' where "bufio_Flush b = (b', False)" "\<not> berr b'" "bbuf b' = []" "bsize b' = bsize b"
      "out (wr b') = out (wr b) @ bbuf b"
  | (failed) b' k where "bufio_Flush b = (b', True)" "berr b'" "bsize b' = bsize b"
      "out (wr b') = out (wr b) @ take k (bbuf b)"
proof (cases "bbuf b = []")
  case True
  with assms show thesis by (intro ok [of b]) (simp_all add: bufio_Flush_def)
next
  case False
  show thesis
  proof (cases rule: sink_write_cases [of "wr b" "bbuf b"])
    case (ok w)
    with False assms show thesis
      by (intro that(1) [of "b\<lparr>wr := w, bbuf := []\<rparr>"]) (simp_all add: bufio_Flush_def)
  next
    case (failed w k)
    with False assms show thesis
      by (intro that(2) [of "b\<lparr>wr := w, bbuf := drop k (bbuf b), berr := True\<rparr>" k]) (simp_all add: bufio_Flush_def)
  qed
qed

text \<open>The loop of \<^verbatim>\<open>Write\<close>: it ends because every round empties the buffer or the input, or fails.\<close>

definition write_round :: "bufio \<Rightarrow> bytes \<Rightarrow> bufio \<times> bytes" where
  "write_round b p =
     (if bbuf b = [] then
        (case sink_write (wr b) p of (w, n, err) \<Rightarrow> (b\<lparr>wr := w, berr := err\<rparr>, drop n p))
      else
        (let n = bsize b - length (bbuf b)
         in (fst (bufio_Flush (b\<lparr>bbuf := bbuf b @ take n p\<rparr>)), drop n p)))"

function bufio_Write :: "bufio \<Rightarrow> bytes \<Rightarrow> bufio \<times> bool" where
  "bufio_Write b p =
     (if length p > bsize b - length (bbuf b) \<and> \<not> berr b then
        (case write_round b p of (b', p') \<Rightarrow> bufio_Write b' p')
      else if berr b then (b, True)
      else (b\<lparr>bbuf := bbuf b @ p\<rparr>, False))"
  by pat_completeness auto

definition write_measure :: "bufio \<times> bytes \<Rightarrow> nat" where
  "write_measure x = (case x of (b, p) \<Rightarrow> if berr b then 0 else (if bbuf b = [] then 1 else 2) + length p)"

lemma write_round_measure:
  assumes "length p > bsize b - length (bbuf b)" "\<not> berr b"
  shows "write_measure (write_round b p) < write_measure (b, p)"
proof (cases "bbuf b = []")
  case True
  from assms have "p \<noteq> []" by auto
  then show ?thesis
    using True assms
    by (cases rule: sink_write_cases [of "wr b" p]) (auto simp: write_round_def write_measure_def)
next
  case False
  let ?b = "b\<lparr>bbuf := bbuf b @ take (bsize b - length (bbuf b)) p\<rparr>"
  from assms have "\<not> berr ?b" by simp
  then show ?thesis
    using False assms
    by (cases rule: bufio_Flush_cases [of ?b]) (auto simp: write_round_def write_measure_def Let_def)
qed

termination bufio_Write
  by (relation "measure write_measure") (auto, metis write_round_measure)

declare bufio_Write.simps [simp del]

text \<open>Bytes accepted so far.\<close>

definition accepted :: "bufio \<Rightarrow> bytes" where
  "accepted b = out (wr b) @ bbuf b"

lemma write_round_accepted:
  assumes "\<not> berr b" "write_round b p = (b', p')"
  shows "(berr b' \<and> prefix (out (wr b')) (accepted b @ p) \<and> prefix (out (wr b)) (out (wr b'))) \<or>
     (\<not> berr b' \<and> accepted b' @ p' = accepted b @ p \<and> prefix (out (wr b)) (out (wr b')))"
proof (cases "bbuf b = []")
  case True
  then show ?thesis
    using assms
    by (cases rule: sink_write_cases [of "wr b" p])
      (auto simp: write_round_def accepted_def take_is_prefix)
next
  case False
  let ?n = "bsize b - length (bbuf b)"
  let ?b = "b\<lparr>bbuf := bbuf b @ take ?n p\<rparr>"
  from assms have "\<not> berr ?b" by simp
  then show ?thesis
  proof (cases rule: bufio_Flush_cases [of ?b])
    case (ok b1)
    with False assms show ?thesis by (auto simp: write_round_def accepted_def Let_def)
  next
    case (failed b1 k)
    have "prefix (take k (bbuf b @ take ?n p)) (bbuf b @ p)"
      by (metis append_assoc append_take_drop_id prefix_prefix take_is_prefix)
    with False assms failed show ?thesis by (auto simp: write_round_def accepted_def Let_def)
  qed
qed

lemma bufio_Write_accepted:
  assumes "\<not> berr b" "bufio_Write b p = (b', err)"
  shows "err = berr b' \<and> prefix (out (wr b)) (out (wr b')) \<and>
    (if err then prefix (out (wr b')) (accepted b @ p) else accepted b' = accepted b @ p)"
  using assms
proof (induction b p arbitrary: b' err rule: bufio_Write.induct)
  case (1 b p)
  show ?case
  proof (cases "length p > bsize b - length (bbuf b)")
    case False
    with 1(2,3) show ?thesis
      by (subst (asm) bufio_Write.simps) (auto simp: accepted_def)
  next
    case True
    obtain b1 p1 where r: "write_round b p = (b1, p1)" by fastforce
    with True 1(2,3) have w: "bufio_Write b1 p1 = (b', err)"
      by (subst (asm) bufio_Write.simps) simp
    show ?thesis
    proof (cases "berr b1")
      case True
      then have "b' = b1 \<and> err"
        using w by (subst (asm) bufio_Write.simps) simp
      then show ?thesis
        using write_round_accepted [OF 1(2) r] True by auto
    next
      case False
      show ?thesis
        using 1(1) [OF _ r [symmetric] False w] True 1(2) write_round_accepted [OF 1(2) r] False
        by (auto intro: prefix_order.trans)
    qed
  qed
qed

end
