(* ===== verification/Req_Stats.thy ===== *)
theory Req_Stats
  imports Prelude
begin

text \<open>
  The counters of the refill requests, \<^verbatim>\<open>internal/server/stats.go\<close>. A nil \<^verbatim>\<open>*ReqWorkConnStats\<close> is
  \<open>None\<close>: the code skips the counting. Each update is one or more atomic additions.
\<close>

record ReqWorkConnStats =
  requested :: nat
  enqueued :: nat
  dropped :: nat
  sent :: nat
  inflight :: int

definition zero_stats :: ReqWorkConnStats where
  "zero_stats = \<lparr>requested = 0, enqueued = 0, dropped = 0, sent = 0, inflight = 0\<rparr>"

record ReqWorkConnSnapshot =
  snap_Requested :: nat
  snap_Enqueued :: nat
  snap_Dropped :: nat
  snap_Sent :: nat
  snap_Inflight :: int

definition Snapshot :: "ReqWorkConnStats option \<Rightarrow> ReqWorkConnSnapshot" where
  "Snapshot s =
     (case s of
        None \<Rightarrow> \<lparr>snap_Requested = 0, snap_Enqueued = 0, snap_Dropped = 0, snap_Sent = 0, snap_Inflight = 0\<rparr>
      | Some st \<Rightarrow> \<lparr>snap_Requested = requested st, snap_Enqueued = enqueued st, snap_Dropped = dropped st,
                    snap_Sent = sent st, snap_Inflight = inflight st\<rparr>)"

text \<open>\<^verbatim>\<open>writeReq\<close> counts the batch as sent and takes it off the requests in flight.\<close>

definition count_sent :: "nat \<Rightarrow> ReqWorkConnStats option \<Rightarrow> ReqWorkConnStats option" where
  "count_sent c = map_option (\<lambda>s. s\<lparr>sent := sent s + c, inflight := inflight s - int c\<rparr>)"

definition count_requested :: "ReqWorkConnStats option \<Rightarrow> ReqWorkConnStats option" where
  "count_requested = map_option (\<lambda>s. s\<lparr>requested := requested s + 1\<rparr>)"

definition count_enqueued :: "ReqWorkConnStats option \<Rightarrow> ReqWorkConnStats option" where
  "count_enqueued = map_option (\<lambda>s. s\<lparr>enqueued := enqueued s + 1, inflight := inflight s + 1\<rparr>)"

definition count_dropped :: "ReqWorkConnStats option \<Rightarrow> ReqWorkConnStats option" where
  "count_dropped = map_option (\<lambda>s. s\<lparr>dropped := dropped s + 1\<rparr>)"

text \<open>The documented relation of the counters: what is in flight is what was enqueued and not sent.\<close>

definition stats_ok :: "ReqWorkConnStats option \<Rightarrow> bool" where
  "stats_ok st = (case st of None \<Rightarrow> True | Some s \<Rightarrow> inflight s = int (enqueued s) - int (sent s))"

lemma stats_ok_counts [simp]:
  "stats_ok (count_sent c st) = stats_ok st" "stats_ok (count_requested st) = stats_ok st"
  "stats_ok (count_enqueued st) = stats_ok st" "stats_ok (count_dropped st) = stats_ok st"
  by (auto simp: stats_ok_def count_sent_def count_requested_def count_enqueued_def count_dropped_def
      split: option.splits)

end
