(* ===== verification/Control_Writer.thy ===== *)
theory Control_Writer
  imports Messages Go_Chan Bufio Req_Stats
begin

text \<open>
  The single writer goroutine of a control session, \<^verbatim>\<open>internal/server/control_writer.go\<close>.

  \<open>controlWriter\<close> is the struct with its two queues, the flush timer and the buffered writer; \<open>flush\<close>,
  \<open>writeReq\<close>, \<open>batchLimit\<close>, \<open>flushDelay\<close>, \<open>stopTimer\<close>, \<open>resetTimer\<close> are its methods. The loop \<^verbatim>\<open>run\<close>
  with \<^verbatim>\<open>writeReqBatch\<close> is the step function \<open>cw_exec\<close> over the program points \<open>wpc\<close>, one outcome
  for each ready branch of a \<^verbatim>\<open>select\<close>. \<open>cw_step\<close> interleaves it with the environment: other
  goroutines enqueue refill signals and responses, the timer fires, the session is
  cancelled, the connection breaks at an arbitrary byte.

  Main results: every signal taken off the queue is in exactly one written request (or
  counted in the batch in hand), responses go out in order, the peer decodes the stream as
  the written messages, bytes never stay in the buffer without an armed timer, batches are
  bounded, and a cancelled writer stops after flushing.
\<close>

section \<open>Definitions\<close>

definition reqWorkBatchMax :: nat where "reqWorkBatchMax = 128"
definition reqWorkBatchMid :: nat where "reqWorkBatchMid = 64"
definition reqWorkBatchLow :: nat where "reqWorkBatchLow = 16"
definition reqWorkBacklogHigh :: nat where "reqWorkBacklogHigh = 512"
definition reqWorkBacklogMid :: nat where "reqWorkBacklogMid = 128"
definition controlWriteBufferBytes :: nat where "controlWriteBufferBytes = 64 * 1024"
definition controlReqChSize :: nat where "controlReqChSize = 2048"
definition controlSendChSize :: nat where "controlSendChSize = 1024"

text \<open>Flush delays in microseconds.\<close>

definition reqWorkFlushFloor :: nat where "reqWorkFlushFloor = 50"
definition reqWorkFlushDefault :: nat where "reqWorkFlushDefault = 200"
definition reqWorkFlushCeil :: nat where "reqWorkFlushCeil = 400"

lemmas writer_consts = reqWorkBatchMax_def reqWorkBatchMid_def reqWorkBatchLow_def reqWorkBacklogHigh_def
  reqWorkBacklogMid_def controlWriteBufferBytes_def controlReqChSize_def controlSendChSize_def
  reqWorkFlushFloor_def reqWorkFlushDefault_def reqWorkFlushCeil_def

text \<open>
  A \<^verbatim>\<open>time.Timer\<close>: stopped, running, or with a tick that can be received. The field \<open>log\<close> is a history
  variable: the messages handed to \<^verbatim>\<open>msg.WriteMsg\<close> so far.
\<close>

datatype timer = TimerStopped | TimerArmed nat | TimerFired

record controlWriter =
  bw :: bufio
  flushTimer :: timer
  pendingFlush :: bool
  reqCh :: "unit chan"
  sendCh :: "Message chan"
  cwdone :: bool
  stats :: "ReqWorkConnStats option"
  log :: "Message list"

text \<open>\<^verbatim>\<open>Stop\<close> and drain: neither a running timer nor a tick is left.\<close>

definition stopTimer :: "timer \<Rightarrow> timer" where
  "stopTimer t = (case t of TimerArmed d \<Rightarrow> TimerStopped | TimerFired \<Rightarrow> TimerStopped | TimerStopped \<Rightarrow> TimerStopped)"

definition resetTimer :: "timer \<Rightarrow> nat \<Rightarrow> timer" where
  "resetTimer t d = (case stopTimer t of _ \<Rightarrow> TimerArmed d)"

definition batchLimit :: "controlWriter \<Rightarrow> nat" where
  "batchLimit cw =
     (let q = chan_len (reqCh cw)
      in if q \<ge> reqWorkBacklogHigh then reqWorkBatchMax
         else if q \<ge> reqWorkBacklogMid then reqWorkBatchMid
         else reqWorkBatchLow)"

definition flushDelay :: "controlWriter \<Rightarrow> nat" where
  "flushDelay cw =
     (let q = chan_len (reqCh cw)
      in if q \<ge> reqWorkBacklogHigh then reqWorkFlushFloor
         else if q \<ge> reqWorkBacklogMid then reqWorkFlushDefault
         else reqWorkFlushCeil)"

text \<open>The methods return the error as a flag.\<close>

definition flush :: "controlWriter \<Rightarrow> controlWriter \<times> bool" where
  "flush cw =
     (if \<not> pendingFlush cw then (cw, False)
      else case bufio_Flush (bw cw) of
             (b, err) \<Rightarrow>
               if err then (cw\<lparr>bw := b\<rparr>, True)
               else (cw\<lparr>bw := b, pendingFlush := False, flushTimer := stopTimer (flushTimer cw)\<rparr>, False))"

definition bufio_write_opt :: "bufio \<Rightarrow> bytes \<Rightarrow> bufio \<times> unit option" where
  "bufio_write_opt b p = (case bufio_Write b p of (b', err) \<Rightarrow> (b', if err then Some () else None))"

definition write_msg :: "controlWriter \<Rightarrow> Message \<Rightarrow> controlWriter \<times> bool" where
  "write_msg cw m =
     (case WriteMsg bufio_write_opt (bw cw) m of (b, e) \<Rightarrow> (cw\<lparr>bw := b, log := log cw @ [m]\<rparr>, e \<noteq> None))"

definition writeReq :: "controlWriter \<Rightarrow> nat \<Rightarrow> controlWriter \<times> bool" where
  "writeReq cw cnt =
     (if cnt \<le> 0 then (cw, False)
      else
        let cw1 = cw\<lparr>stats := count_sent cnt (stats cw)\<rparr>
        in case write_msg cw1 (ReqWorkConn \<lparr>reqworkconn_Count = int cnt\<rparr>) of
             (cw2, err) \<Rightarrow>
               if err then (cw2, True)
               else (cw2\<lparr>pendingFlush := True, flushTimer := resetTimer (flushTimer cw2) (flushDelay cw2)\<rparr>, False))"

definition writeResponse :: "controlWriter \<Rightarrow> Message \<Rightarrow> controlWriter \<times> bool" where
  "writeResponse cw m =
     (case flush cw of
        (cw1, True) \<Rightarrow> (cw1, True)
      | (cw1, False) \<Rightarrow>
          (case write_msg cw1 m of
             (cw2, True) \<Rightarrow> (cw2, True)
           | (cw2, False) \<Rightarrow> flush (cw2\<lparr>pendingFlush := True\<rparr>)))"

section \<open>The loop\<close>

text \<open>
  \<open>LoopTop\<close>: the exit check. \<open>FastSelect\<close>: drain a signal if there is one. \<open>MainSelect\<close>: the blocking
  select. \<open>GotReq\<close>: a signal was taken, \<^verbatim>\<open>writeReq(1)\<close> is next. \<open>BatchStart\<close> and \<open>Batching limit
  batch\<close>: \<^verbatim>\<open>writeReqBatch\<close>. \<open>Stopped\<close>: \<^verbatim>\<open>run\<close> has returned, after its deferred flush.
\<close>

datatype wpc = LoopTop | FastSelect | MainSelect | GotReq | BatchStart | Batching nat nat | Stopped

definition stop :: "controlWriter \<Rightarrow> controlWriter \<times> wpc" where
  "stop cw = (cw\<lparr>bw := fst (bufio_Flush (bw cw))\<rparr>, Stopped)"

definition continue_unless :: "controlWriter \<times> bool \<Rightarrow> wpc \<Rightarrow> controlWriter \<times> wpc" where
  "continue_unless r next_pc = (case r of (cw, err) \<Rightarrow> if err then stop cw else (cw, next_pc))"

definition take_req :: "controlWriter \<Rightarrow> controlWriter option" where
  "take_req cw = (case chan_recv (reqCh cw) of Received _ ch \<Rightarrow> Some (cw\<lparr>reqCh := ch\<rparr>) | _ \<Rightarrow> None)"

definition finish_batch :: "controlWriter \<Rightarrow> nat \<Rightarrow> nat \<Rightarrow> controlWriter \<times> bool" where
  "finish_batch cw limit batch =
     (case writeReq cw batch of
        (cw1, True) \<Rightarrow> (cw1, True)
      | (cw1, False) \<Rightarrow> if limit \<ge> reqWorkBatchMid then flush cw1 else (cw1, False))"

fun cw_exec :: "controlWriter \<Rightarrow> wpc \<Rightarrow> (controlWriter \<times> wpc) list" where
  "cw_exec cw LoopTop = [if cwdone cw then stop cw else (cw, FastSelect)]"
| "cw_exec cw FastSelect =
     [case take_req cw of Some cw' \<Rightarrow> (cw', GotReq) | None \<Rightarrow> (cw, MainSelect)]"
| "cw_exec cw GotReq = [continue_unless (writeReq cw 1) BatchStart]"
| "cw_exec cw BatchStart =
     [(let limit = batchLimit cw in (cw, Batching (if limit \<le> 0 then 1 else limit) 0))]"
| "cw_exec cw (Batching limit batch) =
     [if batch < limit then
        (case take_req cw of
           Some cw' \<Rightarrow> (cw', Batching limit (batch + 1))
         | None \<Rightarrow> if batch = 0 then (cw, LoopTop) else continue_unless (writeReq cw batch) LoopTop)
      else continue_unless (finish_batch cw limit batch) LoopTop]"
| "cw_exec cw MainSelect =
     (if cwdone cw then [stop cw] else []) @
     (case take_req cw of Some cw' \<Rightarrow> [(cw', GotReq)] | None \<Rightarrow> []) @
     (case chan_recv (sendCh cw) of
        Received m ch \<Rightarrow> [continue_unless (writeResponse (cw\<lparr>sendCh := ch\<rparr>) m) LoopTop]
      | _ \<Rightarrow> []) @
     (if flushTimer cw = TimerFired
      then [continue_unless (flush (cw\<lparr>flushTimer := TimerStopped\<rparr>)) LoopTop] else [])"
| "cw_exec cw Stopped = []"

definition sendLoop :: "sink \<Rightarrow> unit chan \<Rightarrow> Message chan \<Rightarrow> bool \<Rightarrow> ReqWorkConnStats option \<Rightarrow> controlWriter" where
  "sendLoop w req send done_ch st =
     \<lparr>bw = bufio_NewWriterSize w controlWriteBufferBytes,
      flushTimer = stopTimer (TimerArmed 3600000000), pendingFlush = False,
      reqCh = req, sendCh = send, cwdone = done_ch, stats = st, log = []\<rparr>"

section \<open>The writer among other goroutines\<close>

record cw_sys =
  cw :: controlWriter
  at :: wpc
  signals :: nat
  responses :: "Message list"

definition is_req :: "Message \<Rightarrow> bool" where
  "is_req m = (case m of ReqWorkConn _ \<Rightarrow> True | _ \<Rightarrow> False)"

definition cw_init :: "ReqWorkConnStats option \<Rightarrow> cw_sys" where
  "cw_init st = \<lparr>cw = sendLoop \<lparr>out = [], room = None\<rparr> (make_chan controlReqChSize) (make_chan controlSendChSize) False st,
     at = LoopTop, signals = 0, responses = []\<rparr>"

inductive cw_step :: "cw_sys \<Rightarrow> cw_sys \<Rightarrow> bool" where
  writer: "(c', pc') \<in> set (cw_exec (cw s) (at s)) \<Longrightarrow> cw_step s (s\<lparr>cw := c', at := pc'\<rparr>)"
| signal: "chan_send (reqCh (cw s)) () = Sent ch \<Longrightarrow>
     cw_step s (s\<lparr>cw := (cw s)\<lparr>reqCh := ch, stats := count_enqueued (stats (cw s))\<rparr>, signals := signals s + 1\<rparr>)"
| respond: "chan_send (sendCh (cw s)) m = Sent ch \<Longrightarrow> \<not> is_req m \<Longrightarrow>
     cw_step s (s\<lparr>cw := (cw s)\<lparr>sendCh := ch\<rparr>, responses := responses s @ [m]\<rparr>)"
| cancel: "cw_step s (s\<lparr>cw := (cw s)\<lparr>cwdone := True\<rparr>\<rparr>)"
| tick: "flushTimer (cw s) = TimerArmed d \<Longrightarrow> cw_step s (s\<lparr>cw := (cw s)\<lparr>flushTimer := TimerFired\<rparr>\<rparr>)"
| break: "room (wr (bw (cw s))) = None \<Longrightarrow>
     cw_step s (s\<lparr>cw := (cw s)\<lparr>bw := (bw (cw s))\<lparr>wr := (wr (bw (cw s)))\<lparr>room := Some k\<rparr>\<rparr>\<rparr>\<rparr>)"

definition cw_reachable :: "ReqWorkConnStats option \<Rightarrow> cw_sys \<Rightarrow> bool" where
  "cw_reachable st s \<longleftrightarrow> cw_step\<^sup>*\<^sup>* (cw_init st) s"

section \<open>What the methods do to the stream and to the history\<close>

definition frames :: "Message list \<Rightarrow> bytes" where
  "frames ms = concat (map frame ms)"

lemma frames_simps [simp]: "frames [] = []" "frames (ms @ ms') = frames ms @ frames ms'" "frames [m] = frame m"
  by (simp_all add: frames_def)

text \<open>
  The buffered bytes and the flags agree. After an error only the prefix property of what went out
  remains.
\<close>

definition stream_ok :: "controlWriter \<Rightarrow> bool" where
  "stream_ok c \<longleftrightarrow> \<not> berr (bw c) \<and> accepted (bw c) = frames (log c) \<and>
     (\<not> pendingFlush c \<longrightarrow> bbuf (bw c) = [])"

definition stream_broken :: "controlWriter \<Rightarrow> bool" where
  "stream_broken c \<longleftrightarrow> berr (bw c) \<and> prefix (out (wr (bw c))) (frames (log c))"

text \<open>A method keeps the queues, the exit flag and the counters, and appends \<open>ms\<close> to the history.\<close>

definition same_queues :: "controlWriter \<Rightarrow> controlWriter \<Rightarrow> bool" where
  "same_queues c c' \<longleftrightarrow> reqCh c' = reqCh c \<and> sendCh c' = sendCh c \<and> cwdone c' = cwdone c"

definition stream_after :: "controlWriter \<times> bool \<Rightarrow> bool" where
  "stream_after r \<longleftrightarrow> (if snd r then stream_broken (fst r) else stream_ok (fst r))"

lemma bufio_Flush_accepted:
  assumes "\<not> berr b" "bufio_Flush b = (b', err)"
  shows "if err then berr b' \<and> prefix (out (wr b')) (accepted b)
         else \<not> berr b' \<and> bbuf b' = [] \<and> accepted b' = accepted b"
  using assms(1)
proof (cases rule: bufio_Flush_cases)
  case (failed b1 k)
  then show ?thesis
    using assms by (auto simp: accepted_def take_is_prefix)
qed (use assms in \<open>auto simp: accepted_def\<close>)

lemma stopTimer_stopped [simp]: "stopTimer t = TimerStopped"
  by (simp add: stopTimer_def split: timer.split)

lemma flush_ok:
  assumes "stream_ok c" "flush c = (c', err)"
  shows "stream_after (c', err) \<and> same_queues c c' \<and> log c' = log c \<and> stats c' = stats c \<and>
    (\<not> err \<longrightarrow> \<not> pendingFlush c' \<and> (if pendingFlush c then flushTimer c' = TimerStopped else c' = c))"
proof (cases "pendingFlush c")
  case False
  with assms show ?thesis by (auto simp: flush_def stream_after_def same_queues_def)
next
  case True
  obtain b e where b: "bufio_Flush (bw c) = (b, e)" by fastforce
  have "\<not> berr (bw c)" "accepted (bw c) = frames (log c)"
    using assms(1) by (simp_all add: stream_ok_def)
  with bufio_Flush_accepted [OF _ b] assms(2) True b show ?thesis
    by (cases e) (auto simp: flush_def stream_ok_def stream_broken_def stream_after_def same_queues_def)
qed

lemma write_msg_ok:
  assumes "stream_ok c" "write_msg c m = (c', err)"
  shows "(if err then stream_broken c' else stream_ok (c'\<lparr>pendingFlush := True\<rparr>)) \<and>
    same_queues c c' \<and> log c' = log c @ [m] \<and> stats c' = stats c \<and>
    flushTimer c' = flushTimer c \<and> pendingFlush c' = pendingFlush c"
proof -
  obtain b e where b: "bufio_Write (bw c) (frame m) = (b, e)" by fastforce
  have "\<not> berr (bw c)" "accepted (bw c) = frames (log c)"
    using assms(1) by (simp_all add: stream_ok_def)
  with bufio_Write_accepted [OF _ b] assms(2) b show ?thesis
    by (cases e) (auto simp: write_msg_def WriteMsg_def bufio_write_opt_def stream_ok_def stream_broken_def
        same_queues_def)
qed

lemma stream_ok_stats [simp]: "stream_ok (c\<lparr>stats := st\<rparr>) = stream_ok c"
  by (simp add: stream_ok_def)

lemma writeReq_ok:
  assumes "stream_ok c" "writeReq c n = (c', err)" "0 < n"
  shows "stream_after (c', err) \<and> same_queues c c' \<and>
    log c' = log c @ [ReqWorkConn \<lparr>reqworkconn_Count = int n\<rparr>] \<and> stats c' = count_sent n (stats c) \<and>
    (\<not> err \<longrightarrow> pendingFlush c' \<and> flushTimer c' = TimerArmed (flushDelay c))"
proof -
  let ?c = "c\<lparr>stats := count_sent n (stats c)\<rparr>" and ?m = "ReqWorkConn \<lparr>reqworkconn_Count = int n\<rparr>"
  obtain c1 e where w: "write_msg ?c ?m = (c1, e)" by fastforce
  have "stream_ok ?c" using assms(1) by simp
  note W = write_msg_ok [OF this w]
  have "e = err" "c' = (if err then c1 else c1\<lparr>pendingFlush := True, flushTimer := TimerArmed (flushDelay c1)\<rparr>)"
    using assms(2,3) w by (auto simp: writeReq_def resetTimer_def Let_def split: if_splits)
  moreover have "flushDelay c1 = flushDelay c"
    using W by (simp add: flushDelay_def same_queues_def)
  ultimately show ?thesis
    using W by (auto simp: stream_after_def same_queues_def stream_ok_def split: if_splits)
qed

lemma same_queues_trans: "same_queues a b \<Longrightarrow> same_queues b c \<Longrightarrow> same_queues a c"
  by (simp add: same_queues_def)

lemma finish_batch_ok:
  assumes "stream_ok c" "finish_batch c limit n = (c', err)" "0 < n"
  shows "stream_after (c', err) \<and> same_queues c c' \<and>
    log c' = log c @ [ReqWorkConn \<lparr>reqworkconn_Count = int n\<rparr>] \<and> stats c' = count_sent n (stats c) \<and>
    (\<not> err \<longrightarrow> pendingFlush c' \<longrightarrow> flushTimer c' \<noteq> TimerStopped)"
proof -
  obtain c1 e where w: "writeReq c n = (c1, e)" by fastforce
  note W = writeReq_ok [OF assms(1) w assms(3)]
  show ?thesis
  proof (cases "e \<or> limit < reqWorkBatchMid")
    case True
    with assms(2) w W show ?thesis
      by (cases e) (auto simp: finish_batch_def)
  next
    case False
    with assms(2) w have f: "flush c1 = (c', err)"
      by (simp add: finish_batch_def)
    have "stream_ok c1" using W False by (simp add: stream_after_def)
    from flush_ok [OF this f] W show ?thesis
      by (auto intro: same_queues_trans)
  qed
qed

text \<open>A response that is taken off the queue is lost only when the flush before it fails.\<close>

lemma writeResponse_ok:
  assumes "stream_ok c" "writeResponse c m = (c', err)"
  shows "stream_after (c', err) \<and> same_queues c c' \<and> stats c' = stats c \<and>
    (log c' = log c @ [m] \<or> err \<and> log c' = log c) \<and> (\<not> err \<longrightarrow> \<not> pendingFlush c')"
proof -
  obtain c1 e where f: "flush c = (c1, e)" by fastforce
  note F = flush_ok [OF assms(1) f]
  show ?thesis
  proof (cases e)
    case True
    with F f assms(2) show ?thesis by (auto simp: writeResponse_def)
  next
    case False
    then have "stream_ok c1" using F by (simp add: stream_after_def)
    obtain c2 e2 where w: "write_msg c1 m = (c2, e2)" by fastforce
    note W = write_msg_ok [OF \<open>stream_ok c1\<close> w]
    show ?thesis
    proof (cases e2)
      case True
      with W F f w False assms(2) show ?thesis
        by (auto simp: writeResponse_def stream_after_def intro: same_queues_trans)
    next
      case False2: False
      with assms(2) f w False have f2: "flush (c2\<lparr>pendingFlush := True\<rparr>) = (c', err)"
        by (simp add: writeResponse_def)
      have "stream_ok (c2\<lparr>pendingFlush := True\<rparr>)" using W False2 by simp
      from flush_ok [OF this f2] W F show ?thesis
        by (auto simp: same_queues_def)
    qed
  qed
qed

section \<open>One step of the writer\<close>

fun in_hand :: "wpc \<Rightarrow> nat" where
  "in_hand GotReq = 1" | "in_hand (Batching limit batch) = batch" | "in_hand _ = 0"

fun req_count :: "Message \<Rightarrow> nat" where
  "req_count (ReqWorkConn r) = nat (reqworkconn_Count r)" | "req_count _ = 0"

definition req_total :: "Message list \<Rightarrow> nat" where
  "req_total ms = sum_list (map req_count ms)"

definition resps :: "Message list \<Rightarrow> Message list" where
  "resps ms = filter (\<lambda>m. \<not> is_req m) ms"

lemma req_total_simps [simp]: "req_total [] = 0" "req_total (m # ms) = req_count m + req_total ms"
  "req_total (ms @ ms') = req_total ms + req_total ms'"
  by (simp_all add: req_total_def)

lemma resps_simps [simp]: "resps [] = []" "resps (m # ms) = (if is_req m then resps ms else m # resps ms)"
  "resps (ms @ ms') = resps ms @ resps ms'"
  by (simp_all add: resps_def)

lemma is_req_simps [simp]: "is_req (ReqWorkConn r)" "\<not> is_req m \<Longrightarrow> req_count m = 0"
  by (simp add: is_req_def) (cases m; simp add: is_req_def)

fun pc_ok :: "wpc \<Rightarrow> bool" where
  "pc_ok (Batching limit batch) \<longleftrightarrow> limit \<in> {16, 64, 128} \<and> batch \<le> limit" | "pc_ok _ = True"

definition counts_ok :: "Message list \<Rightarrow> bool" where
  "counts_ok ms \<longleftrightarrow> (\<forall>m \<in> set ms. is_req m \<longrightarrow> 1 \<le> req_count m \<and> req_count m \<le> 128)"

lemma counts_ok_simps [simp]: "counts_ok []" "counts_ok (ms @ ms') \<longleftrightarrow> counts_ok ms \<and> counts_ok ms'"
  "counts_ok (m # ms) \<longleftrightarrow> (is_req m \<longrightarrow> 1 \<le> req_count m \<and> req_count m \<le> 128) \<and> counts_ok ms"
  by (auto simp: counts_ok_def)

definition stopped_ok :: "controlWriter \<Rightarrow> bool" where
  "stopped_ok c \<longleftrightarrow> (if berr (bw c) then prefix (out (wr (bw c))) (frames (log c))
                      else out (wr (bw c)) = frames (log c))"

definition writer_ok :: "controlWriter \<Rightarrow> wpc \<Rightarrow> bool" where
  "writer_ok c pc \<longleftrightarrow> (if pc = Stopped then stopped_ok c
     else stream_ok c \<and> (pendingFlush c \<longrightarrow> flushTimer c \<noteq> TimerStopped))"

text \<open>
  What a step from \<open>(c, pc)\<close> to \<open>(c', pc')\<close> writes (\<open>new\<close>), what it takes off the queues, and the response
  it loses when it stops.
\<close>

definition writer_moves :: "controlWriter \<Rightarrow> wpc \<Rightarrow> controlWriter \<Rightarrow> wpc \<Rightarrow> Message list \<Rightarrow> Message list \<Rightarrow> bool" where
  "writer_moves c pc c' pc' new lost \<longleftrightarrow>
     log c' = log c @ new \<and> stats c' = count_sent (req_total new) (stats c) \<and> counts_ok new \<and>
     chan_len (reqCh c) + in_hand pc = chan_len (reqCh c') + in_hand pc' + req_total new \<and>
     buf (sendCh c) = resps new @ lost @ buf (sendCh c') \<and> length lost \<le> 1 \<and> (pc' \<noteq> Stopped \<longrightarrow> lost = []) \<and>
     writer_ok c' pc' \<and> pc_ok pc'"

lemma count_sent_0 [simp]: "count_sent 0 st = st"
  by (cases st) (simp_all add: count_sent_def)

lemma stop_ok:
  assumes "stream_ok c \<or> stream_broken c" "stop c = (c', pc')"
  shows "pc' = Stopped \<and> stopped_ok c' \<and> same_queues c c' \<and> log c' = log c \<and> stats c' = stats c"
proof -
  obtain b e where b: "bufio_Flush (bw c) = (b, e)" by fastforce
  show ?thesis
  proof (cases "berr (bw c)")
    case True
    with assms have "stream_broken c" "b = bw c"
      using b by (auto simp: stream_ok_def bufio_Flush_def)
    with assms b show ?thesis
      by (auto simp: stop_def stopped_ok_def stream_broken_def same_queues_def)
  next
    case False
    with assms have "stream_ok c" by (auto simp: stream_broken_def)
    with bufio_Flush_accepted [OF False b] assms b show ?thesis
      by (cases e) (auto simp: stop_def stopped_ok_def stream_ok_def same_queues_def accepted_def)
  qed
qed

lemma continue_unless_ok:
  assumes "stream_after r" "\<not> snd r \<longrightarrow> pendingFlush (fst r) \<longrightarrow> flushTimer (fst r) \<noteq> TimerStopped"
    and "continue_unless r n = (c', pc')" "n \<noteq> Stopped"
  shows "writer_ok c' pc' \<and> same_queues (fst r) c' \<and> log c' = log (fst r) \<and> stats c' = stats (fst r) \<and>
    pc' = (if snd r then Stopped else n)"
proof (cases r)
  case (Pair c err)
  show ?thesis
  proof (cases err)
    case True
    with Pair assms stop_ok [of c c' pc'] show ?thesis
      by (auto simp: continue_unless_def stream_after_def writer_ok_def)
  next
    case False
    with Pair assms show ?thesis
      by (auto simp: continue_unless_def stream_after_def writer_ok_def same_queues_def)
  qed
qed

lemma take_req_Some: "take_req c = Some c' \<Longrightarrow>
    \<exists>ch. c' = c\<lparr>reqCh := ch\<rparr> \<and> chan_len (reqCh c) = Suc (chan_len ch)"
  by (auto simp: take_req_def chan_recv_def chan_len_def split: recv_outcome.splits list.splits if_splits)

lemma writer_ok_reqCh [simp]: "writer_ok (c\<lparr>reqCh := ch\<rparr>) pc = writer_ok c pc"
  by (simp add: writer_ok_def stopped_ok_def stream_ok_def)

lemma moves_write:
  assumes r: "stream_after r" "same_queues c (fst r)" "log (fst r) = log c @ new"
      "stats (fst r) = count_sent (req_total new) (stats c)"
      "\<not> snd r \<longrightarrow> pendingFlush (fst r) \<longrightarrow> flushTimer (fst r) \<noteq> TimerStopped"
    and k: "continue_unless r n = (c', pc')" "n \<noteq> Stopped" "pc_ok n" "in_hand n = 0"
    and new: "counts_ok new" "resps new = []" "in_hand pc = req_total new"
  shows "writer_moves c pc c' pc' new []"
  using continue_unless_ok [OF r(1) r(5) k(1,2)] assms
  by (auto simp: writer_moves_def same_queues_def)

lemma moves_stop:
  assumes "stop c = (c', pc')" "writer_ok c pc" "pc \<noteq> Stopped" "in_hand pc = 0"
  shows "writer_moves c pc c' pc' [] []"
proof -
  have "stream_ok c" using assms by (simp add: writer_ok_def)
  with stop_ok [of c c' pc'] assms show ?thesis
    by (auto simp: writer_moves_def writer_ok_def same_queues_def)
qed

lemma moves_quiet:
  assumes "writer_ok c pc" "pc \<noteq> Stopped" "pc' \<noteq> Stopped" "in_hand pc = in_hand pc'" "pc_ok pc'"
  shows "writer_moves c pc c pc' [] []"
  using assms by (simp add: writer_moves_def writer_ok_def)

lemma moves_take:
  assumes "take_req c = Some c'" "writer_ok c pc" "pc \<noteq> Stopped" "pc' \<noteq> Stopped"
    "in_hand pc' = Suc (in_hand pc)" "pc_ok pc'"
  shows "writer_moves c pc c' pc' [] []"
proof -
  obtain ch where "c' = c\<lparr>reqCh := ch\<rparr>" "chan_len (reqCh c) = Suc (chan_len ch)"
    using take_req_Some [OF assms(1)] by blast
  with assms show ?thesis
    by (simp add: writer_moves_def) (simp add: writer_ok_def)
qed

lemma moves_writeReq:
  assumes "writer_ok c pc" "pc \<noteq> Stopped" "in_hand pc = n" "0 < n" "n \<le> 128"
    and "continue_unless (writeReq c n) k = (c', pc')" "k \<noteq> Stopped" "pc_ok k" "in_hand k = 0"
  shows "\<exists>new. writer_moves c pc c' pc' new []"
proof -
  have "stream_ok c" using assms by (simp add: writer_ok_def)
  from writeReq_ok [OF this surjective_pairing assms(4)] assms
  have "writer_moves c pc c' pc' [ReqWorkConn \<lparr>reqworkconn_Count = int n\<rparr>] []"
    by (intro moves_write [of "writeReq c n"]) auto
  then show ?thesis ..
qed

lemma moves_finish_batch:
  assumes "writer_ok c pc" "pc \<noteq> Stopped" "in_hand pc = n" "0 < n" "n \<le> 128"
    and "continue_unless (finish_batch c limit n) k = (c', pc')" "k \<noteq> Stopped" "pc_ok k" "in_hand k = 0"
  shows "\<exists>new. writer_moves c pc c' pc' new []"
proof -
  have "stream_ok c" using assms by (simp add: writer_ok_def)
  from finish_batch_ok [OF this surjective_pairing assms(4), of limit] assms
  have "writer_moves c pc c' pc' [ReqWorkConn \<lparr>reqworkconn_Count = int n\<rparr>] []"
    by (intro moves_write [of "finish_batch c limit n"]) auto
  then show ?thesis ..
qed

lemma moves_response:
  assumes ok: "writer_ok c pc" "pc \<noteq> Stopped" "in_hand pc = 0"
    and recv: "chan_recv (sendCh c) = Received m ch" "\<not> is_req m"
    and "continue_unless (writeResponse (c\<lparr>sendCh := ch\<rparr>) m) LoopTop = (c', pc')"
  shows "\<exists>new lost. writer_moves c pc c' pc' new lost"
proof -
  let ?r = "writeResponse (c\<lparr>sendCh := ch\<rparr>) m"
  have buf: "buf (sendCh c) = m # buf ch"
    using recv by (auto simp: chan_recv_Received)
  have "stream_ok (c\<lparr>sendCh := ch\<rparr>)"
    using ok by (simp add: writer_ok_def stream_ok_def)
  note R = writeResponse_ok [OF this surjective_pairing, of m]
  have C: "writer_ok c' pc' \<and> same_queues (fst ?r) c' \<and> log c' = log (fst ?r) \<and> stats c' = stats (fst ?r) \<and>
    pc' = (if snd ?r then Stopped else LoopTop)"
    using R assms(6) by (intro continue_unless_ok) auto
  show ?thesis
  proof (cases "log (fst ?r) = log c @ [m]")
    case True
    with C R recv buf ok have "writer_moves c pc c' pc' [m] []"
      by (cases "snd ?r") (auto simp: writer_moves_def same_queues_def)
    then show ?thesis by blast
  next
    case False
    with C R recv buf ok have "writer_moves c pc c' pc' [] [m]"
      by (cases "snd ?r") (auto simp: writer_moves_def same_queues_def)
    then show ?thesis by blast
  qed
qed

lemma moves_tick:
  assumes "writer_ok c MainSelect"
    and "continue_unless (flush (c\<lparr>flushTimer := TimerStopped\<rparr>)) LoopTop = (c', pc')"
  shows "writer_moves c MainSelect c' pc' [] []"
proof -
  let ?r = "flush (c\<lparr>flushTimer := TimerStopped\<rparr>)"
  have "stream_ok (c\<lparr>flushTimer := TimerStopped\<rparr>)"
    using assms by (simp add: writer_ok_def stream_ok_def)
  from flush_ok [OF this surjective_pairing] assms show ?thesis
    by (intro moves_write [of ?r]) (auto simp: same_queues_def)
qed

lemma batchLimit_cases: "batchLimit c \<in> {16, 64, 128}"
  by (simp add: batchLimit_def writer_consts Let_def)

lemma writer_step:
  assumes step: "(c', pc') \<in> set (cw_exec c pc)" and ok: "writer_ok c pc" "pc_ok pc"
    and send: "\<forall>m \<in> set (buf (sendCh c)). \<not> is_req m"
  shows "\<exists>new lost. writer_moves c pc c' pc' new lost"
proof (cases pc)
  case LoopTop
  with step ok show ?thesis
    using moves_stop [of c c' pc' LoopTop] moves_quiet [of c LoopTop FastSelect]
    by (auto split: if_splits)
next
  case FastSelect
  with step ok show ?thesis
    using moves_take [of c c' FastSelect GotReq] moves_quiet [of c FastSelect MainSelect]
    by (auto split: option.splits)
next
  case GotReq
  with step ok moves_writeReq [of c GotReq 1 BatchStart c' pc'] show ?thesis by auto
next
  case BatchStart
  with step ok moves_quiet [of c BatchStart pc'] batchLimit_cases [of c] show ?thesis
    by (auto simp: Let_def split: if_splits)
next
  case (Batching limit batch)
  have small: "batch \<le> 128" "limit \<noteq> 0" using ok Batching by auto
  consider (take) cw' where "batch < limit" "take_req c = Some cw'" "(c', pc') = (cw', Batching limit (batch + 1))"
    | (empty) "batch = 0" "(c', pc') = (c, LoopTop)"
    | (part) "0 < batch" "continue_unless (writeReq c batch) LoopTop = (c', pc')"
    | (full) "0 < batch" "continue_unless (finish_batch c limit batch) LoopTop = (c', pc')"
    using step Batching small by (fastforce split: if_splits option.splits)
  then show ?thesis
  proof cases
    case take
    with ok Batching moves_take [of c c' pc "Batching limit (batch + 1)"] show ?thesis by auto
  next
    case empty
    with ok Batching moves_quiet [of c pc LoopTop] show ?thesis by auto
  next
    case part
    with ok Batching small moves_writeReq [of c pc batch LoopTop] show ?thesis by auto
  next
    case full
    with ok Batching small moves_finish_batch [of c pc batch limit LoopTop] show ?thesis by auto
  qed
next
  case MainSelect
  consider (quit) "stop c = (c', pc')"
    | (take) "take_req c = Some c'" "pc' = GotReq"
    | (send) m ch where "chan_recv (sendCh c) = Received m ch"
        "continue_unless (writeResponse (c\<lparr>sendCh := ch\<rparr>) m) LoopTop = (c', pc')"
    | (tick) "continue_unless (flush (c\<lparr>flushTimer := TimerStopped\<rparr>)) LoopTop = (c', pc')"
    using step MainSelect by (cases "chan_recv (sendCh c)") (auto split: if_splits option.splits)
  then show ?thesis
  proof cases
    case quit
    with ok MainSelect moves_stop [of c c' pc' pc] show ?thesis by auto
  next
    case take
    with ok MainSelect moves_take [of c c' pc GotReq] show ?thesis by auto
  next
    case (send m ch)
    then have "\<not> is_req m" using assms(4) by (auto simp: chan_recv_Received)
    with ok MainSelect send moves_response [of c pc m ch c' pc'] show ?thesis by auto
  next
    case tick
    with ok MainSelect moves_tick [of c c' pc'] show ?thesis by auto
  qed
next
  case Stopped
  with step show ?thesis by simp
qed

section \<open>Invariant of every reachable state\<close>

definition stats_inv :: "ReqWorkConnStats option \<Rightarrow> cw_sys \<Rightarrow> bool" where
  "stats_inv st s \<longleftrightarrow> stats (cw s) = map_option (\<lambda>b. b\<lparr>sent := sent b + req_total (log (cw s)),
     enqueued := enqueued b + signals s, inflight := inflight b + int (signals s) - int (req_total (log (cw s)))\<rparr>) st"

definition resp_inv :: "cw_sys \<Rightarrow> bool" where
  "resp_inv s \<longleftrightarrow> (\<exists>lost. responses s = resps (log (cw s)) @ lost @ buf (sendCh (cw s)) \<and> length lost \<le> 1 \<and>
     (at s \<noteq> Stopped \<longrightarrow> lost = [])) \<and> (\<forall>m \<in> set (responses s). \<not> is_req m)"

definition cw_inv :: "ReqWorkConnStats option \<Rightarrow> cw_sys \<Rightarrow> bool" where
  "cw_inv st s \<longleftrightarrow> writer_ok (cw s) (at s) \<and> pc_ok (at s) \<and> counts_ok (log (cw s)) \<and>
     signals s = chan_len (reqCh (cw s)) + in_hand (at s) + req_total (log (cw s)) \<and>
     resp_inv s \<and> stats_inv st s"

lemma cw_inv_init: "cw_inv st (cw_init st)"
  by (cases st) (simp_all add: cw_inv_def cw_init_def sendLoop_def writer_ok_def stream_ok_def accepted_def
      bufio_NewWriterSize_def make_chan_def chan_len_def resp_inv_def stats_inv_def)

lemma writer_inv:
  assumes "cw_inv st s" "(c', pc') \<in> set (cw_exec (cw s) (at s))"
  shows "cw_inv st (s\<lparr>cw := c', at := pc'\<rparr>)"
proof -
  have run: "at s \<noteq> Stopped" using assms(2) by auto
  then have resp: "responses s = resps (log (cw s)) @ buf (sendCh (cw s))"
      "\<forall>m \<in> set (responses s). \<not> is_req m"
    using assms(1) by (auto simp: cw_inv_def resp_inv_def)
  then obtain new lost where M: "writer_moves (cw s) (at s) c' pc' new lost"
    using writer_step [OF assms(2)] assms(1) by (auto simp: cw_inv_def)
  have "resp_inv (s\<lparr>cw := c', at := pc'\<rparr>)"
    unfolding resp_inv_def using M resp by (intro conjI exI [of _ lost]) (auto simp: writer_moves_def)
  moreover have "stats_inv st (s\<lparr>cw := c', at := pc'\<rparr>)"
    using M assms(1) by (cases st) (auto simp: cw_inv_def stats_inv_def writer_moves_def count_sent_def)
  ultimately show ?thesis
    using M assms(1) by (auto simp: cw_inv_def writer_moves_def)
qed

lemma writer_ok_env [simp]:
  "writer_ok (c\<lparr>sendCh := ch\<rparr>) pc = writer_ok c pc" "writer_ok (c\<lparr>cwdone := d\<rparr>) pc = writer_ok c pc"
  "writer_ok (c\<lparr>reqCh := rch, stats := st\<rparr>) pc = writer_ok c pc"
  "writer_ok (c\<lparr>bw := (bw c)\<lparr>wr := (wr (bw c))\<lparr>room := k\<rparr>\<rparr>\<rparr>) pc = writer_ok c pc"
  by (simp_all add: writer_ok_def stopped_ok_def stream_ok_def accepted_def)

lemma cw_inv_step:
  assumes "cw_step s s'" "cw_inv st s" shows "cw_inv st s'"
  using assms
proof cases
  case (writer c' pc')
  with assms(2) writer_inv show ?thesis by blast
next
  case (signal ch)
  with assms(2) show ?thesis
    by (cases st) (auto simp: cw_inv_def chan_send_Sent chan_len_def resp_inv_def stats_inv_def count_enqueued_def)
next
  case (respond m ch)
  with assms(2) show ?thesis
    by (auto simp: cw_inv_def chan_send_Sent resp_inv_def stats_inv_def)
next
  case cancel
  with assms(2) show ?thesis by (simp add: cw_inv_def resp_inv_def stats_inv_def)
next
  case (tick d)
  with assms(2) show ?thesis
    by (simp add: cw_inv_def resp_inv_def stats_inv_def writer_ok_def stopped_ok_def stream_ok_def split: if_splits)
next
  case (break k)
  with assms(2) show ?thesis by (simp add: cw_inv_def resp_inv_def stats_inv_def)
qed

lemma cw_inv_reachable: "cw_reachable st s \<Longrightarrow> cw_inv st s"
  unfolding cw_reachable_def by (induction rule: rtranclp_induct) (auto intro: cw_inv_init cw_inv_step)

section \<open>Properties\<close>

text \<open>Schedules of the writer and its environment, for concrete instances.\<close>

datatype cw_sched = Writer nat | Signal | Respond Message | Cancel | Tick | Break nat

fun cw_do :: "cw_sys \<Rightarrow> cw_sched \<Rightarrow> cw_sys option" where
  "cw_do s (Writer k) =
     (if k < length (cw_exec (cw s) (at s))
      then case cw_exec (cw s) (at s) ! k of (c', pc') \<Rightarrow> Some (s\<lparr>cw := c', at := pc'\<rparr>) else None)"
| "cw_do s Signal =
     (case chan_send (reqCh (cw s)) () of
        Sent ch \<Rightarrow> Some (s\<lparr>cw := (cw s)\<lparr>reqCh := ch, stats := count_enqueued (stats (cw s))\<rparr>, signals := signals s + 1\<rparr>)
      | _ \<Rightarrow> None)"
| "cw_do s (Respond m) =
     (case chan_send (sendCh (cw s)) m of
        Sent ch \<Rightarrow> if is_req m then None else Some (s\<lparr>cw := (cw s)\<lparr>sendCh := ch\<rparr>, responses := responses s @ [m]\<rparr>)
      | _ \<Rightarrow> None)"
| "cw_do s Cancel = Some (s\<lparr>cw := (cw s)\<lparr>cwdone := True\<rparr>\<rparr>)"
| "cw_do s Tick =
     (case flushTimer (cw s) of TimerArmed d \<Rightarrow> Some (s\<lparr>cw := (cw s)\<lparr>flushTimer := TimerFired\<rparr>\<rparr>) | _ \<Rightarrow> None)"
| "cw_do s (Break k) =
     (if room (wr (bw (cw s))) = None
      then Some (s\<lparr>cw := (cw s)\<lparr>bw := (bw (cw s))\<lparr>wr := (wr (bw (cw s)))\<lparr>room := Some k\<rparr>\<rparr>\<rparr>\<rparr>) else None)"

fun cw_run :: "cw_sys \<Rightarrow> cw_sched list \<Rightarrow> cw_sys option" where
  "cw_run s [] = Some s"
| "cw_run s (x # xs) = (case cw_do s x of None \<Rightarrow> None | Some s' \<Rightarrow> cw_run s' xs)"

lemma cw_do_sound: "cw_do s x = Some s' \<Longrightarrow> cw_step s s'"
proof (cases x)
  case (Writer k)
  assume "cw_do s x = Some s'"
  with Writer show ?thesis
    by (auto split: if_splits prod.splits intro!: cw_step.writer) (metis nth_mem)
qed (auto split: send_outcome.splits if_splits timer.splits intro: cw_step.intros cw_step.signal [simplified])

lemma cw_run_reachable: "cw_run (cw_init st) xs = Some s \<Longrightarrow> cw_reachable st s"
proof -
  have "cw_run s0 xs = Some s \<Longrightarrow> cw_step\<^sup>*\<^sup>* s0 s" for s0
    by (induction xs arbitrary: s0)
      (auto split: option.splits dest: cw_do_sound intro: converse_rtranclp_into_rtranclp)
  then show "cw_run (cw_init st) xs = Some s \<Longrightarrow> cw_reachable st s"
    by (simp add: cw_reachable_def)
qed

abbreviation one_req :: Message where
  "one_req \<equiv> ReqWorkConn \<lparr>reqworkconn_Count = 1\<rparr>"

lemma one_req_ok: "msg_wf one_req" "length (json_Marshal one_req) = 11"
  by (simp_all add: msg_wf_def marshal_eval strconv_Itoa_def nat_digits.simps)

lemma one_req_length: "length (frame one_req) = 20"
  by (simp add: length_frame headerSize_def one_req_ok)

lemma bufio_Write_fits: "\<not> berr b \<Longrightarrow> length (bbuf b) + length p \<le> bsize b \<Longrightarrow>
    bufio_Write b p = (b\<lparr>bbuf := bbuf b @ p\<rparr>, False)"
proof -
  assume "\<not> berr b" "length (bbuf b) + length p \<le> bsize b"
  moreover from this have "\<not> bsize b - length (bbuf b) < length p" by simp
  ultimately show ?thesis by (subst bufio_Write.simps) simp
qed

lemmas cw_eval = cw_init_def sendLoop_def bufio_NewWriterSize_def make_chan_def chan_send_def chan_recv_def
  take_req_def writer_consts count_enqueued_def count_sent_def writeReq_def write_msg_def WriteMsg_def
  bufio_write_opt_def bufio_Write_fits one_req_length continue_unless_def resetTimer_def flushDelay_def
  chan_len_def batchLimit_def stop_def Let_def

definition signalled :: "cw_sched list" where
  "signalled = [Signal, Writer 0, Writer 0, Writer 0, Writer 0, Writer 0]"

definition signalled_sys :: cw_sys where
  "signalled_sys = the (cw_run (cw_init (Some zero_stats)) signalled)"

lemma signalled_run: "cw_run (cw_init (Some zero_stats)) signalled = Some signalled_sys"
  and signalled_sys: "log (cw signalled_sys) = [one_req]" "at signalled_sys = LoopTop"
    "bbuf (bw (cw signalled_sys)) = frame one_req" "signals signalled_sys = 1"
    "out (wr (bw (cw signalled_sys))) = []"
  by (simp_all add: signalled_sys_def signalled_def cw_eval)

lemma signalled_reachable: "cw_reachable (Some zero_stats) signalled_sys"
  using signalled_run by (rule cw_run_reachable)

lemma out_prefix_frames:
  assumes "writer_ok c pc" shows "\<exists>n. out (wr (bw c)) = take n (frames (log c))"
proof -
  have "prefix (out (wr (bw c))) (accepted (bw c))"
    by (simp add: accepted_def)
  then have "prefix (out (wr (bw c))) (frames (log c))"
    using assms by (auto simp: writer_ok_def stopped_ok_def stream_ok_def split: if_splits)
  then show ?thesis by (metis append_eq_conv_conj prefixE)
qed

lemma stopped_out: "writer_ok c Stopped \<Longrightarrow> \<not> berr (bw c) \<Longrightarrow> out (wr (bw c)) = frames (log c)"
  by (simp add: writer_ok_def stopped_ok_def)

text \<open>
  C6: No refill signal is lost or duplicated by the batching: at every moment and in every
  interleaving, the signals that were accepted into \<^verbatim>\<open>reqCh\<close> are those still queued, those in the batch
  in hand, and the sum of the counts of the \<^verbatim>\<open>ReqWorkConn\<close> messages written; every such
  message asks for between 1 and 128 connections, and the counters \<^verbatim>\<open>sent\<close>, \<^verbatim>\<open>enqueued\<close> and
  \<^verbatim>\<open>inflight\<close> have moved by exactly these amounts.
\<close>

theorem control_writer_accounts:
  assumes "cw_reachable st s"
  shows "signals s = chan_len (reqCh (cw s)) + in_hand (at s) + req_total (log (cw s))
    \<and> (\<forall>r. ReqWorkConn r \<in> set (log (cw s)) \<longrightarrow> 1 \<le> reqworkconn_Count r \<and> reqworkconn_Count r \<le> 128)
    \<and> stats (cw s) = map_option (\<lambda>b. b\<lparr>sent := sent b + req_total (log (cw s)),
        enqueued := enqueued b + signals s,
        inflight := inflight b + int (signals s) - int (req_total (log (cw s)))\<rparr>) st"
proof -
  have "1 \<le> reqworkconn_Count r \<and> reqworkconn_Count r \<le> 128" if "ReqWorkConn r \<in> set (log (cw s))" for r
    using cw_inv_reachable [OF assms] that by (auto simp: cw_inv_def counts_ok_def)
  then show ?thesis
    using cw_inv_reachable [OF assms] by (simp add: cw_inv_def stats_inv_def)
qed

theorem control_writer_accounts_witness:
  "cw_reachable (Some zero_stats) signalled_sys \<and>
   map_option sent (stats (cw signalled_sys)) = Some 1"
  using control_writer_accounts [OF signalled_reachable] signalled_reachable
  by (simp add: signalled_sys zero_stats_def)

text \<open>
  C24: What the peer sees on the control connection is the sequence of messages the writer wrote:
  the bytes that went out are always a prefix of the concatenated frames, cut only inside the
  message being transferred, the peer decodes them to a prefix of the written messages, and
  a writer that has stopped without a write error has delivered all of them. Responses leave in
  the order in which they were queued; at most one is lost, by a writer that stops on an
  error.
\<close>

theorem control_writer_stream:
  assumes "cw_reachable st s"
    and "\<forall>m \<in> set (log (cw s)). msg_wf m \<and> length (json_Marshal m) \<le> MaxBodySize"
  shows "(\<exists>k e. ReadMsgs (out (wr (bw (cw s)))) = (take k (log (cw s)), e) \<and>
        (at s = Stopped \<longrightarrow> \<not> berr (bw (cw s)) \<longrightarrow> take k (log (cw s)) = log (cw s)))
    \<and> (\<exists>lost. responses s = filter (\<lambda>m. \<not> is_req m) (log (cw s)) @ lost @ buf (sendCh (cw s)) \<and> length lost \<le> 1 \<and>
        (at s \<noteq> Stopped \<longrightarrow> lost = []))"
proof
  have inv: "writer_ok (cw s) (at s)" "resp_inv s"
    using cw_inv_reachable [OF assms(1)] by (simp_all add: cw_inv_def)
  obtain n where n: "out (wr (bw (cw s))) = take n (frames (log (cw s)))"
      "at s = Stopped \<longrightarrow> \<not> berr (bw (cw s)) \<longrightarrow> length (frames (log (cw s))) \<le> n"
  proof (cases "at s = Stopped \<and> \<not> berr (bw (cw s))")
    case True
    with inv that [of "length (frames (log (cw s)))"] show thesis by (simp add: stopped_out)
  next
    case False
    with out_prefix_frames [OF inv(1)] that show thesis by blast
  qed
  show "\<exists>k e. ReadMsgs (out (wr (bw (cw s)))) = (take k (log (cw s)), e) \<and>
      (at s = Stopped \<longrightarrow> \<not> berr (bw (cw s)) \<longrightarrow> take k (log (cw s)) = log (cw s))"
    using ReadMsgs_cut [OF assms(2), of n] n unfolding frames_def by metis
  show "\<exists>lost. responses s = filter (\<lambda>m. \<not> is_req m) (log (cw s)) @ lost @ buf (sendCh (cw s)) \<and> length lost \<le> 1 \<and>
      (at s \<noteq> Stopped \<longrightarrow> lost = [])"
    using inv(2) by (simp add: resp_inv_def resps_def)
qed

theorem control_writer_stream_witness:
  "cw_reachable (Some zero_stats) signalled_sys \<and>
   (\<exists>k e. ReadMsgs (out (wr (bw (cw signalled_sys)))) = (take k [one_req], e))"
  using control_writer_stream [OF signalled_reachable] signalled_reachable one_req_ok
  by (auto simp: signalled_sys MaxBodySize_def)

text \<open>
  C35: Written bytes cannot be forgotten in the buffer: while the writer runs, a non-empty buffer
  means that a flush is pending and that the flush timer is running or has fired, and
  without a pending flush everything written is on the wire. When the timer has fired and
  nothing else is ready, the blocking select can only take the timer branch, which empties the
  buffer or stops on a write error.
\<close>

theorem control_writer_flushes:
  assumes "cw_reachable st s" "at s \<noteq> Stopped"
  shows "(bbuf (bw (cw s)) \<noteq> [] \<longrightarrow> pendingFlush (cw s) \<and> flushTimer (cw s) \<noteq> TimerStopped)
    \<and> (\<not> pendingFlush (cw s) \<longrightarrow> out (wr (bw (cw s))) = frames (log (cw s)))
    \<and> (at s = MainSelect \<and> flushTimer (cw s) = TimerFired \<and> buf (reqCh (cw s)) = [] \<and> buf (sendCh (cw s)) = []
        \<and> \<not> cwdone (cw s) \<longrightarrow>
       (\<exists>c' pc'. cw_exec (cw s) (at s) = [(c', pc')] \<and> (pc' = Stopped \<or> bbuf (bw c') = [])))"
proof (intro conjI impI)
  have ok: "stream_ok (cw s)" "pendingFlush (cw s) \<longrightarrow> flushTimer (cw s) \<noteq> TimerStopped"
    using cw_inv_reachable [OF assms(1)] assms(2) by (auto simp: cw_inv_def writer_ok_def)
  then show "pendingFlush (cw s)" "flushTimer (cw s) \<noteq> TimerStopped" if "bbuf (bw (cw s)) \<noteq> []"
    using that by (auto simp: stream_ok_def)
  show "out (wr (bw (cw s))) = frames (log (cw s))" if "\<not> pendingFlush (cw s)"
    using ok(1) that by (auto simp: stream_ok_def accepted_def)
  assume main: "at s = MainSelect \<and> flushTimer (cw s) = TimerFired \<and> buf (reqCh (cw s)) = [] \<and>
      buf (sendCh (cw s)) = [] \<and> \<not> cwdone (cw s)"
  let ?r = "flush ((cw s)\<lparr>flushTimer := TimerStopped\<rparr>)"
  obtain c' pc' where c: "continue_unless ?r LoopTop = (c', pc')" by fastforce
  have "cw_exec (cw s) (at s) = [(c', pc')]"
    using main c by (auto simp: take_req_def chan_recv_def split: if_splits)
  moreover have "pc' = Stopped \<or> bbuf (bw c') = []"
  proof -
    have "stream_ok ((cw s)\<lparr>flushTimer := TimerStopped\<rparr>)"
      using ok(1) by (simp add: stream_ok_def)
    from flush_ok [OF this surjective_pairing] c show ?thesis
      by (auto simp: continue_unless_def stop_def stream_after_def stream_ok_def split: prod.splits if_splits)
  qed
  ultimately show "\<exists>c' pc'. cw_exec (cw s) (at s) = [(c', pc')] \<and> (pc' = Stopped \<or> bbuf (bw c') = [])"
    by blast
qed

theorem control_writer_flushes_witness:
  "cw_reachable (Some zero_stats) signalled_sys \<and> bbuf (bw (cw signalled_sys)) \<noteq> [] \<and>
   flushTimer (cw signalled_sys) \<noteq> TimerStopped"
proof -
  have "bbuf (bw (cw signalled_sys)) \<noteq> []"
    using one_req_length signalled_sys by auto
  moreover have "at signalled_sys \<noteq> Stopped"
    by (simp add: signalled_sys)
  ultimately show ?thesis
    using control_writer_flushes [OF signalled_reachable] signalled_reachable by blast
qed











text \<open>
  The counter \<^verbatim>\<open>sent\<close>, documented as requests actually written onto the wire, runs ahead of the
  wire: it is raised before \<^verbatim>\<open>WriteMsg\<close> and whether or not the bytes ever leave the buffer. There
  is a run that ends with the writer stopped, one request counted as sent, none in flight, and
  not a single byte written.
\<close>

theorem sent_overcounts:
  "\<exists>s st. cw_reachable (Some zero_stats) s \<and> at s = Stopped \<and> out (wr (bw (cw s))) = [] \<and>
     stats (cw s) = Some st \<and> sent st = 1 \<and> inflight st = 0"
proof -
  let ?sched = "[Break 0, Signal, Writer 0, Writer 0, Writer 0, Writer 0, Writer 0, Cancel, Writer 0]"
  have "frame one_req \<noteq> []"
    using one_req_length by auto
  then have "\<exists>s. cw_run (cw_init (Some zero_stats)) ?sched = Some s \<and> at s = Stopped \<and>
      out (wr (bw (cw s))) = [] \<and> stats (cw s) = Some \<lparr>requested = 0, enqueued = 1, dropped = 0, sent = 1, inflight = 0\<rparr>"
    by (simp add: cw_eval zero_stats_def bufio_Flush_def sink_write_def)
  then obtain s where "cw_run (cw_init (Some zero_stats)) ?sched = Some s" and s: "at s = Stopped"
      "out (wr (bw (cw s))) = []" "stats (cw s) = Some \<lparr>requested = 0, enqueued = 1, dropped = 0, sent = 1, inflight = 0\<rparr>"
    by blast
  then have "cw_reachable (Some zero_stats) s"
    by (intro cw_run_reachable)
  with s show ?thesis
    by (intro exI conjI) auto
qed

text \<open>
  Refill signals have priority over responses: with a signal queued and no cancellation, the loop
  takes the signal and not a response, whatever is waiting in \<^verbatim>\<open>sendCh\<close>, and the batch that follows
  takes up to the limit for the backlog of that moment, which is 16, 64 or 128.
\<close>

theorem refill_before_responses:
  assumes "\<not> cwdone c" "buf (reqCh c) = () # us"
  shows "cw_exec c LoopTop = [(c, FastSelect)]
    \<and> cw_exec c FastSelect = [(c\<lparr>reqCh := (reqCh c)\<lparr>buf := us\<rparr>\<rparr>, GotReq)]
    \<and> cw_exec c BatchStart = [(c, Batching (if Suc (length us) \<ge> 512 then 128 else if Suc (length us) \<ge> 128 then 64 else 16) 0)]"
  using assms by (simp add: take_req_def chan_recv_def batchLimit_def writer_consts chan_len_def Let_def)

theorem refill_before_responses_witness:
  "cw_exec ((cw (cw_init None))\<lparr>reqCh := \<lparr>buf = [()], chcap = 2048, chclosed = False\<rparr>,
      sendCh := \<lparr>buf = [example_ping], chcap = 1024, chclosed = False\<rparr>\<rparr>) LoopTop =
   [((cw (cw_init None))\<lparr>reqCh := \<lparr>buf = [()], chcap = 2048, chclosed = False\<rparr>,
      sendCh := \<lparr>buf = [example_ping], chcap = 1024, chclosed = False\<rparr>\<rparr>, FastSelect)]"
  by (rule refill_before_responses [where us = "[]", THEN conjunct1])
    (simp_all add: cw_init_def sendLoop_def)

end
