(* ===== verification/Router.thy ===== *)
theory Router
  imports Go_Strings
begin

text \<open>
  The vhost routing table, \<^verbatim>\<open>internal/router/router.go\<close>.

  A \<open>Router\<close> holds two Go maps from a domain key to a slice of route configurations,
  ordered by descending location length; each method runs under the router's mutex, so
  it is one atomic function of the state. The theory defines the three methods, states
  the abstract contract (a finite map from (domain, location) to a route, searched by
  longest matching location, exact domains before one-label wildcards) and shows that
  the slices implement it. \<^verbatim>\<open>slices.SortFunc\<close> is not stable: \<open>Add_with\<close> takes the
  sorting routine as an argument, the locale \<open>route_sorter\<close> states what the package
  promises of it, and every lemma about \<open>Add_with\<close> holds for each such routine.
\<close>

section \<open>Data\<close>

record RouteConfig =
  Domain :: string
  Location :: string
  ProxyName :: string
  RunID :: string
  UseEncryption :: bool
  UseCompression :: bool
  HTTPUser :: string
  HTTPPwd :: string
  HostHeaderRewrite :: string
  Headers :: "(string \<times> string) list"
  ResponseHeaders :: "(string \<times> string) list"

type_synonym route_store = "string \<rightharpoonup> RouteConfig list"

record Router =
  exact :: route_store
  wildcard :: route_store

definition New :: Router where
  "New = \<lparr>exact = Map.empty, wildcard = Map.empty\<rparr>"

section \<open>Operations\<close>

text \<open>Reading a missing key of a Go map of slices gives the nil slice.\<close>

definition store_get :: "route_store \<Rightarrow> string \<Rightarrow> RouteConfig list" where
  "store_get store key = (case store key of None \<Rightarrow> [] | Some routes \<Rightarrow> routes)"

text \<open>The comparison that \<^verbatim>\<open>Add\<close> passes to \<^verbatim>\<open>slices.SortFunc\<close>: negative when the
  first route has the longer location.\<close>

definition cmp_routes :: "RouteConfig \<Rightarrow> RouteConfig \<Rightarrow> int" where
  "cmp_routes a b = int (length (Location b)) - int (length (Location a))"

text \<open>The insertion sort that \<^verbatim>\<open>slices.SortFunc\<close> runs on slices of up to twelve elements:
  the next element moves left while it compares less than its neighbour.\<close>

fun insert_left :: "RouteConfig \<Rightarrow> RouteConfig list \<Rightarrow> RouteConfig list" where
  "insert_left x [] = [x]"
| "insert_left x (y # rev_prefix) =
     (if cmp_routes x y < 0 then y # insert_left x rev_prefix else x # y # rev_prefix)"

definition insertion_sort :: "RouteConfig list \<Rightarrow> RouteConfig list" where
  "insertion_sort xs = rev (foldl (\<lambda>acc x. insert_left x acc) [] xs)"

definition normalize_location :: "string \<Rightarrow> string" where
  "normalize_location loc = (if loc = '''' then ''/'' else loc)"

definition is_wildcard :: "string \<Rightarrow> bool" where
  "is_wildcard domain = strings_HasPrefix domain ''*.''"

definition store_key :: "string \<Rightarrow> string" where
  "store_key domain = (if is_wildcard domain then drop 2 domain else domain)"

definition store_of :: "Router \<Rightarrow> string \<Rightarrow> route_store" where
  "store_of r domain = (if is_wildcard domain then wildcard r else exact r)"

definition already_registered :: "string \<Rightarrow> string \<Rightarrow> RouteConfig \<Rightarrow> string" where
  "already_registered domain loc existing =
     ''domain '' @ domain @ '' location '' @ loc @ '' already registered by '' @ ProxyName existing"

definition Add_with ::
  "(RouteConfig list \<Rightarrow> RouteConfig list) \<Rightarrow> Router \<Rightarrow> RouteConfig \<Rightarrow> Router result" where
  "Add_with sortFunc r cfg =
     (let loc = normalize_location (Location cfg);
          domain = Domain cfg;
          store = store_of r domain;
          key = store_key domain
      in case find (\<lambda>existing. Location existing = loc) (store_get store key) of
           Some existing \<Rightarrow> Inl (already_registered domain loc existing)
         | None \<Rightarrow>
             let store' = store(key \<mapsto> sortFunc (store_get store key @ [cfg\<lparr>Location := loc\<rparr>]))
             in Inr (if is_wildcard domain then r\<lparr>wildcard := store'\<rparr> else r\<lparr>exact := store'\<rparr>))"

definition Add :: "Router \<Rightarrow> RouteConfig \<Rightarrow> Router result" where
  "Add = Add_with insertion_sort"

definition removeFrom :: "string \<Rightarrow> route_store \<Rightarrow> route_store" where
  "removeFrom proxyName store =
     (\<lambda>key. case store key of
              None \<Rightarrow> None
            | Some routes \<Rightarrow>
                let filtered = filter (\<lambda>rc. ProxyName rc \<noteq> proxyName) routes
                in if filtered = [] then None else Some filtered)"

definition Remove :: "Router \<Rightarrow> string \<Rightarrow> Router" where
  "Remove r proxyName =
     r\<lparr>exact := removeFrom proxyName (exact r), wildcard := removeFrom proxyName (wildcard r)\<rparr>"

fun matchRoutes :: "RouteConfig list \<Rightarrow> string \<Rightarrow> RouteConfig option" where
  "matchRoutes [] path = None"
| "matchRoutes (rc # routes) path =
     (if strings_HasPrefix path (Location rc) then Some rc else matchRoutes routes path)"

definition Lookup :: "Router \<Rightarrow> string \<Rightarrow> string \<Rightarrow> RouteConfig option" where
  "Lookup r domain path =
     (case matchRoutes (store_get (exact r) domain) path of
        Some cfg \<Rightarrow> Some cfg
      | None \<Rightarrow>
          (case strings_SplitN2 domain (CHR ''.'') of
             [_, parent] \<Rightarrow> matchRoutes (store_get (wildcard r) parent) path
           | _ \<Rightarrow> None))"

section \<open>The contract of the sorting routine\<close>

definition by_length_desc :: "RouteConfig \<Rightarrow> RouteConfig \<Rightarrow> bool" where
  "by_length_desc a b \<longleftrightarrow> length (Location b) \<le> length (Location a)"

locale route_sorter =
  fixes sortFunc :: "RouteConfig list \<Rightarrow> RouteConfig list"
  assumes sort_perm: "mset (sortFunc xs) = mset xs"
    and sort_ordered: "sorted_wrt by_length_desc (sortFunc xs)"
begin

lemma set_sortFunc [simp]: "set (sortFunc xs) = set xs"
  using sort_perm by (metis set_mset_mset)

lemma sortFunc_not_Nil [simp]: "sortFunc (xs @ [x]) \<noteq> []"
  using sort_perm [of "xs @ [x]"] by auto

lemma distinct_sortFunc: "distinct (map f (sortFunc xs)) = distinct (map f xs)"
  using sort_perm by (rule mset_eq_distinct_map)

end

lemma mset_insert_left: "mset (insert_left x ys) = add_mset x (mset ys)"
  by (induction ys) auto

lemma set_insert_left: "set (insert_left x ys) = insert x (set ys)"
  by (metis mset_insert_left set_mset_add_mset_insert set_mset_mset)

lemma sorted_insert_left:
  "sorted_wrt (\<lambda>a b. by_length_desc b a) ys \<Longrightarrow> sorted_wrt (\<lambda>a b. by_length_desc b a) (insert_left x ys)"
  by (induction ys) (auto simp: set_insert_left by_length_desc_def cmp_routes_def)

lemma insertion_sort_acc:
  "mset (foldl (\<lambda>acc x. insert_left x acc) acc xs) = mset acc + mset xs"
  "sorted_wrt (\<lambda>a b. by_length_desc b a) acc \<Longrightarrow>
   sorted_wrt (\<lambda>a b. by_length_desc b a) (foldl (\<lambda>acc x. insert_left x acc) acc xs)"
  by (induction xs arbitrary: acc) (auto simp: mset_insert_left sorted_insert_left)

interpretation go_sort: route_sorter insertion_sort
  by unfold_locales (auto simp: insertion_sort_def insertion_sort_acc sorted_wrt_rev)

section \<open>The abstract routing table\<close>

definition store_wf :: "(string \<Rightarrow> string) \<Rightarrow> route_store \<Rightarrow> bool" where
  "store_wf dom_of store \<longleftrightarrow>
     (\<forall>key routes. store key = Some routes \<longrightarrow>
        routes \<noteq> [] \<and> distinct (map Location routes) \<and> sorted_wrt by_length_desc routes \<and>
        (\<forall>rc \<in> set routes. Domain rc = dom_of key \<and> Location rc \<noteq> []))"

definition router_wf :: "Router \<Rightarrow> bool" where
  "router_wf r \<longleftrightarrow>
     store_wf (\<lambda>key. key) (exact r) \<and> store_wf (\<lambda>key. ''*.'' @ key) (wildcard r) \<and>
     (\<forall>key \<in> dom (exact r). \<not> is_wildcard key)"

text \<open>The table as a finite map from a registered domain and location to its route.\<close>

definition bucket :: "Router \<Rightarrow> string \<Rightarrow> RouteConfig list" where
  "bucket r domain = store_get (store_of r domain) (store_key domain)"

definition routes_of :: "Router \<Rightarrow> string \<times> string \<rightharpoonup> RouteConfig" where
  "routes_of r = (\<lambda>(domain, loc). find (\<lambda>rc. Location rc = loc) (bucket r domain))"

lemma is_wildcard_star [simp]: "is_wildcard (CHR ''*'' # CHR ''.'' # d)"
  by (simp add: is_wildcard_def strings_HasPrefix_def)

lemma store_key_star [simp]: "store_key (CHR ''*'' # CHR ''.'' # d) = d"
  by (simp add: store_key_def)

lemma wildcard_store_key: "is_wildcard d \<Longrightarrow> ''*.'' @ store_key d = d"
  by (auto simp: store_key_def is_wildcard_def HasPrefix_iff prefix_def)

lemma store_key_exact [simp]: "\<not> is_wildcard d \<Longrightarrow> store_key d = d"
  by (simp add: store_key_def)

lemma store_wf_get:
  assumes "store_wf f store"
  shows "distinct (map Location (store_get store key))"
    and "sorted_wrt by_length_desc (store_get store key)"
    and "rc \<in> set (store_get store key) \<Longrightarrow> Domain rc = f key \<and> Location rc \<noteq> []"
  using assms by (cases "store key"; simp add: store_wf_def store_get_def)+

lemma store_wf_update:
  assumes "store_wf f store" "routes \<noteq> []" "distinct (map Location routes)"
    "sorted_wrt by_length_desc routes" "\<forall>rc \<in> set routes. Domain rc = f key \<and> Location rc \<noteq> []"
  shows "store_wf f (store(key \<mapsto> routes))"
  using assms by (auto simp: store_wf_def)

lemma store_wf_empty [wf_intros]: "store_wf f Map.empty"
  by (simp add: store_wf_def)

lemma store_wf_removeFrom [wf_intros]: "store_wf f store \<Longrightarrow> store_wf f (removeFrom n store)"
  by (fastforce simp: store_wf_def removeFrom_def Let_def distinct_map_filter sorted_wrt_filter
      split: option.splits if_splits)

lemma store_get_removeFrom [simp]:
  "store_get (removeFrom n store) key = filter (\<lambda>rc. ProxyName rc \<noteq> n) (store_get store key)"
  by (auto simp: store_get_def removeFrom_def Let_def split: option.splits)

lemma router_wf_New [wf_intros]: "router_wf New"
  by (simp add: router_wf_def New_def store_wf_empty)

lemma dom_removeFrom: "dom (removeFrom n store) \<subseteq> dom store"
  by (auto simp: removeFrom_def split: option.splits)

lemma router_wf_Remove [wf_intros]: "router_wf r \<Longrightarrow> router_wf (Remove r n)"
  using dom_removeFrom by (fastforce simp: router_wf_def Remove_def intro: store_wf_removeFrom)

text \<open>Every operation keeps the invariant and acts on the abstract table as a map operation.\<close>

lemma bucket_wf:
  assumes "router_wf r"
  shows bucket_distinct: "distinct (map Location (bucket r d))"
    and bucket_sorted: "sorted_wrt by_length_desc (bucket r d)"
    and bucket_domain: "rc \<in> set (bucket r d) \<Longrightarrow> Domain rc = d \<and> Location rc \<noteq> []"
proof -
  have wf: "store_wf (\<lambda>_. d) (\<lambda>key. if key = store_key d then store_of r d key else None)"
    using assms wildcard_store_key [of d]
    by (cases "is_wildcard d") (auto simp: router_wf_def store_of_def store_wf_def)
  have "bucket r d = store_get (\<lambda>key. if key = store_key d then store_of r d key else None) (store_key d)"
    by (simp add: bucket_def store_get_def)
  with store_wf_get [OF wf, where key = "store_key d"]
  show "distinct (map Location (bucket r d))" "sorted_wrt by_length_desc (bucket r d)"
    "rc \<in> set (bucket r d) \<Longrightarrow> Domain rc = d \<and> Location rc \<noteq> []"
    by simp_all
qed

lemma bucket_Remove [simp]: "bucket (Remove r n) d = filter (\<lambda>rc. ProxyName rc \<noteq> n) (bucket r d)"
  by (simp add: bucket_def store_of_def Remove_def)

lemma routes_of_iff:
  "router_wf r \<Longrightarrow> routes_of r (d, l) = Some rc \<longleftrightarrow> rc \<in> set (bucket r d) \<and> Location rc = l"
  by (simp add: routes_of_def find_distinct_key bucket_distinct)

lemma routes_of_eq:
  "router_wf r \<Longrightarrow> routes_of r (d, l) = Some rc \<Longrightarrow> Domain rc = d \<and> Location rc = l"
  using bucket_domain by (auto simp: routes_of_iff)

lemma routes_of_Remove:
  assumes "router_wf r"
  shows "routes_of (Remove r n) =
     (\<lambda>k. case routes_of r k of Some rc \<Rightarrow> if ProxyName rc \<noteq> n then Some rc else None | None \<Rightarrow> None)"
  using find_key_filter [OF bucket_distinct [OF assms], where P = "\<lambda>rc. ProxyName rc \<noteq> n"]
  by (auto simp: routes_of_def)

context route_sorter
begin

lemma Add_with_error:
  "Add_with sortFunc r cfg = Inl e \<longleftrightarrow>
     (\<exists>rc. routes_of r (Domain cfg, normalize_location (Location cfg)) = Some rc \<and>
           e = already_registered (Domain cfg) (normalize_location (Location cfg)) rc)"
  by (auto simp: Add_with_def routes_of_def bucket_def Let_def split: option.splits)

lemma store_wf_insert:
  assumes "store_wf f store" "find (\<lambda>rc. Location rc = Location cfg) (store_get store key) = None"
    "Domain cfg = f key" "Location cfg \<noteq> []"
  shows "store_wf f (store(key \<mapsto> sortFunc (store_get store key @ [cfg])))"
  using assms store_wf_get [OF assms(1), where key = key]
  by (intro store_wf_update) (auto simp: distinct_sortFunc sort_ordered find_None_iff)

lemma router_wf_Add_with:
  assumes wf: "router_wf r" and ok: "Add_with sortFunc r cfg = Inr r'"
  shows "router_wf r'"
proof -
  let ?cfg = "cfg\<lparr>Location := normalize_location (Location cfg)\<rparr>"
  let ?key = "store_key (Domain cfg)"
  have new: "find (\<lambda>rc. Location rc = Location ?cfg) (store_get (store_of r (Domain cfg)) ?key) = None"
    using ok by (auto simp: Add_with_def Let_def split: option.splits)
  have loc: "Location ?cfg \<noteq> []"
    by (simp add: normalize_location_def)
  show ?thesis
  proof (cases "is_wildcard (Domain cfg)")
    case True
    then have "store_wf (\<lambda>k. ''*.'' @ k)
        ((wildcard r)(?key \<mapsto> sortFunc (store_get (wildcard r) ?key @ [?cfg])))"
      using wf new loc wildcard_store_key
      by (intro store_wf_insert) (auto simp: router_wf_def store_of_def)
    with True wf ok show ?thesis
      by (auto simp: Add_with_def Let_def router_wf_def store_of_def split: option.splits)
  next
    case False
    then have "store_wf (\<lambda>k. k) ((exact r)(?key \<mapsto> sortFunc (store_get (exact r) ?key @ [?cfg])))"
      using wf new loc by (intro store_wf_insert) (auto simp: router_wf_def store_of_def)
    with False wf ok show ?thesis
      by (auto simp: Add_with_def Let_def router_wf_def store_of_def split: option.splits if_splits)
  qed
qed

end

context route_sorter
begin

lemma bucket_Add_with:
  assumes "Add_with sortFunc r cfg = Inr r'"
  shows "bucket r' d =
    (if d = Domain cfg
     then sortFunc (bucket r d @ [cfg\<lparr>Location := normalize_location (Location cfg)\<rparr>])
     else bucket r d)"
proof (cases "is_wildcard d = is_wildcard (Domain cfg)")
  case True
  then have "store_key d = store_key (Domain cfg) \<longleftrightarrow> d = Domain cfg"
    using wildcard_store_key by (metis store_key_exact)
  with True assms show ?thesis
    by (cases "is_wildcard d")
      (auto simp: Add_with_def Let_def bucket_def store_of_def store_get_def split: option.splits)
next
  case False
  with assms show ?thesis
    by (cases "is_wildcard d")
      (auto simp: Add_with_def Let_def bucket_def store_of_def split: option.splits)
qed

lemma routes_of_Add_with:
  assumes wf: "router_wf r" and ok: "Add_with sortFunc r cfg = Inr r'"
  defines "loc \<equiv> normalize_location (Location cfg)"
  shows "routes_of r' = (routes_of r)((Domain cfg, loc) \<mapsto> cfg\<lparr>Location := loc\<rparr>)"
proof -
  let ?cfg = "cfg\<lparr>Location := loc\<rparr>"
  have new: "find (\<lambda>rc. Location rc = loc) (bucket r (Domain cfg)) = None"
    using ok by (auto simp: Add_with_def Let_def loc_def bucket_def split: option.splits)
  then have "distinct (map Location (bucket r (Domain cfg) @ [?cfg]))"
    using bucket_distinct [OF wf] by (auto simp: find_None_iff)
  then have "find (\<lambda>rc. Location rc = l) (sortFunc (bucket r (Domain cfg) @ [?cfg])) =
      find (\<lambda>rc. Location rc = l) (bucket r (Domain cfg) @ [?cfg])" for l
    using sort_perm by (metis find_key_perm)
  with new show ?thesis
    by (auto simp: fun_eq_iff routes_of_def bucket_Add_with [OF ok] find_append loc_def
        split: option.splits)
qed

end

section \<open>Lookup against its contract\<close>

definition table_matches :: "(string \<times> string \<rightharpoonup> RouteConfig) \<Rightarrow> string \<Rightarrow> string \<Rightarrow> bool" where
  "table_matches T domain path \<longleftrightarrow> (\<exists>l. (domain, l) \<in> dom T \<and> prefix l path)"

definition table_best ::
  "(string \<times> string \<rightharpoonup> RouteConfig) \<Rightarrow> string \<Rightarrow> string \<Rightarrow> RouteConfig \<Rightarrow> bool" where
  "table_best T domain path rc \<longleftrightarrow>
     (\<exists>l. T (domain, l) = Some rc \<and> prefix l path \<and>
          (\<forall>l'. (domain, l') \<in> dom T \<and> prefix l' path \<longrightarrow> length l' \<le> length l))"

text \<open>The wildcard domain that covers a host: its first label replaced by a star.\<close>

definition wildcard_of :: "string \<Rightarrow> string option" where
  "wildcard_of host =
     (case strings_SplitN2 host (CHR ''.'') of [_, parent] \<Rightarrow> Some (''*.'' @ parent) | _ \<Rightarrow> None)"

definition table_lookup ::
  "(string \<times> string \<rightharpoonup> RouteConfig) \<Rightarrow> string \<Rightarrow> string \<Rightarrow> RouteConfig option \<Rightarrow> bool" where
  "table_lookup T host path res =
     (case res of
        Some rc \<Rightarrow>
          table_best T host path rc \<or>
          \<not> table_matches T host path \<and> (\<exists>w. wildcard_of host = Some w \<and> table_best T w path rc)
      | None \<Rightarrow>
          \<not> table_matches T host path \<and> (\<forall>w. wildcard_of host = Some w \<longrightarrow> \<not> table_matches T w path))"

lemma wildcard_of_iff:
  "wildcard_of host = Some w \<longleftrightarrow>
     (\<exists>label parent. host = label @ CHR ''.'' # parent \<and> CHR ''.'' \<notin> set label \<and> w = ''*.'' @ parent)"
    (is "?l \<longleftrightarrow> ?r")
proof
  show "?l \<Longrightarrow> ?r"
    by (rule SplitN2_cases [of host "CHR ''.''"]) (auto simp: wildcard_of_def)
  assume ?r
  then obtain label parent where "strings_SplitN2 host (CHR ''.'') = [label, parent]" "w = ''*.'' @ parent"
    by (auto simp: SplitN2_two)
  then show ?l by (simp add: wildcard_of_def)
qed

lemma matchRoutes_best:
  assumes "sorted_wrt by_length_desc routes" "distinct (map Location routes)"
  shows "matchRoutes routes path = Some rc \<longleftrightarrow>
    rc \<in> set routes \<and> prefix (Location rc) path \<and>
    (\<forall>rc' \<in> set routes. prefix (Location rc') path \<longrightarrow> length (Location rc') \<le> length (Location rc))"
  using assms
proof (induction routes)
  case (Cons a routes)
  show ?case
  proof (cases "prefix (Location a) path")
    case True
    have "rc = a" if "rc \<in> set (a # routes)" "prefix (Location rc) path"
      "length (Location a) \<le> length (Location rc)" for rc
    proof (rule distinct_map_eq_in [OF Cons.prems(2) that(1)])
      show "a \<in> set (a # routes)" by simp
      have "length (Location rc) \<le> length (Location a)"
        using that(1) Cons.prems(1) by (auto simp: by_length_desc_def)
      with that True show "Location rc = Location a"
        by (intro prefix_same_length_eq) auto
    qed
    with True Cons.prems show ?thesis
      by (auto simp: HasPrefix_iff by_length_desc_def)
  next
    case False
    with Cons show ?thesis
      by (auto simp: HasPrefix_iff)
  qed
qed simp

lemma matchRoutes_None:
  "matchRoutes routes path = None \<longleftrightarrow> (\<forall>rc \<in> set routes. \<not> prefix (Location rc) path)"
  by (induction routes) (auto simp: HasPrefix_iff)

lemma match_bucket_best:
  "router_wf r \<Longrightarrow>
   matchRoutes (bucket r d) path = Some rc \<longleftrightarrow> table_best (routes_of r) d path rc"
  by (auto simp: matchRoutes_best bucket_sorted bucket_distinct table_best_def routes_of_iff dom_def)

lemma match_bucket_None:
  "router_wf r \<Longrightarrow> matchRoutes (bucket r d) path = None \<longleftrightarrow> \<not> table_matches (routes_of r) d path"
  by (auto simp: matchRoutes_None table_matches_def routes_of_iff dom_def)

lemma Lookup_bucket:
  assumes "router_wf r"
  shows "Lookup r host path =
    (case matchRoutes (bucket r host) path of
       Some cfg \<Rightarrow> Some cfg
     | None \<Rightarrow>
         (case wildcard_of host of Some w \<Rightarrow> matchRoutes (bucket r w) path | None \<Rightarrow> None))"
proof (cases "is_wildcard host")
  case True
  then obtain k where host: "host = CHR ''*'' # CHR ''.'' # k"
    using wildcard_store_key [of host] by (metis append_Cons append_Nil)
  have "exact r host = None"
    using assms True by (auto simp: router_wf_def)
  moreover have "strings_SplitN2 host (CHR ''.'') = [''*'', k]"
    by (simp add: SplitN2_two host)
  ultimately show ?thesis
    by (simp add: Lookup_def wildcard_of_def bucket_def store_of_def host store_get_def
        split: option.splits)
next
  case False
  then show ?thesis
    by (rule_tac SplitN2_cases [of host "CHR ''.''"])
      (auto simp: Lookup_def wildcard_of_def bucket_def store_of_def split: option.splits)
qed

lemma Lookup_table:
  assumes "router_wf r"
  shows "table_lookup (routes_of r) host path res \<longleftrightarrow> Lookup r host path = res"
proof -
  note best = match_bucket_best [OF assms, symmetric] match_bucket_None [OF assms, symmetric]
  show ?thesis
    by (cases "matchRoutes (bucket r host) path"; cases "wildcard_of host"; cases res)
      (auto simp: Lookup_bucket [OF assms] table_lookup_def best)
qed

section \<open>Histories of operations\<close>

datatype router_op = OpAdd RouteConfig | OpRemove string

text \<open>A failed \<^verbatim>\<open>Add\<close> leaves the table as it was.\<close>

fun router_step ::
  "(RouteConfig list \<Rightarrow> RouteConfig list) \<Rightarrow> Router \<Rightarrow> router_op \<Rightarrow> Router" where
  "router_step sortFunc r (OpAdd cfg) = (case Add_with sortFunc r cfg of Inl _ \<Rightarrow> r | Inr r' \<Rightarrow> r')"
| "router_step sortFunc r (OpRemove n) = Remove r n"

definition router_run ::
  "(RouteConfig list \<Rightarrow> RouteConfig list) \<Rightarrow> router_op list \<Rightarrow> Router" where
  "router_run sortFunc ops = foldl (router_step sortFunc) New ops"

context route_sorter
begin

lemma router_wf_step: "router_wf r \<Longrightarrow> router_wf (router_step sortFunc r op)"
  by (cases op) (auto intro: router_wf_Remove router_wf_Add_with split: sum.splits)

lemma router_wf_run: "router_wf (router_run sortFunc ops)"
  unfolding router_run_def
  by (induction ops rule: rev_induct) (auto intro: router_wf_New router_wf_step)

end

lemmas Add_error = go_sort.Add_with_error [folded Add_def]
  and Add_routes = go_sort.routes_of_Add_with [folded Add_def]
  and router_wf_Add [wf_intros] = go_sort.router_wf_Add_with [folded Add_def]

lemma routes_of_step:
  assumes "route_sorter f" "route_sorter g" "router_wf r" "router_wf r'" "routes_of r = routes_of r'"
  shows "routes_of (router_step f r op) = routes_of (router_step g r' op)"
proof (cases op)
  case (OpRemove n)
  with assms show ?thesis by (simp add: routes_of_Remove)
next
  case (OpAdd cfg)
  have "Add_with f r cfg = Inl e \<longleftrightarrow> Add_with g r' cfg = Inl e" for e
    using assms by (simp add: route_sorter.Add_with_error)
  with OpAdd assms show ?thesis
    by (auto simp: route_sorter.routes_of_Add_with split: sum.splits) blast
qed

lemma routes_of_run:
  assumes "route_sorter f" "route_sorter g"
  shows "routes_of (router_run f ops) = routes_of (router_run g ops)"
proof (induction ops rule: rev_induct)
  case (snoc op ops)
  with assms routes_of_step show ?case
    using route_sorter.router_wf_run by (simp add: router_run_def)
qed (simp add: router_run_def)

section \<open>Properties\<close>

text \<open>A route with no options, for concrete instances.\<close>

definition plain_route :: "string \<Rightarrow> string \<Rightarrow> string \<Rightarrow> string \<Rightarrow> RouteConfig" where
  "plain_route domain loc proxyName runID =
     \<lparr>Domain = domain, Location = loc, ProxyName = proxyName, RunID = runID,
      UseEncryption = False, UseCompression = False, HTTPUser = '''', HTTPPwd = '''',
      HostHeaderRewrite = '''', Headers = [], ResponseHeaders = []\<rparr>"

definition example_routes :: "router_op list" where
  "example_routes =
     [OpAdd (plain_route ''a.com'' '''' ''root'' ''r1''),
      OpAdd (plain_route ''a.com'' ''/api'' ''api'' ''r1''),
      OpAdd (plain_route ''*.a.com'' ''/'' ''wild'' ''r2'')]"

lemma routes_of_New: "routes_of New = Map.empty"
  by (simp add: routes_of_def bucket_def store_of_def New_def store_get_def fun_eq_iff)

lemma example_routes_wf: "router_wf (router_run insertion_sort example_routes)"
  by (rule go_sort.router_wf_run)

lemmas router_eval =
  router_run_def example_routes_def plain_route_def New_def Add_def Add_with_def Remove_def removeFrom_def
  insertion_sort_def Lookup_def store_get_def store_of_def store_key_def is_wildcard_def
  normalize_location_def strings_HasPrefix_def strings_SplitN2_def cmp_routes_def Let_def
  already_registered_def

text \<open>C1: \<^verbatim>\<open>Lookup\<close> answers exactly what the routing contract prescribes, on every
  well-formed table and for every host and path: the route with the longest location that is a
  prefix of the path among the routes of the exact domain; if none matches there, the longest
  among the routes of the wildcard domain that replaces the host's first label; nothing
  otherwise. The contract determines the answer and the code computes it.\<close>
theorem Lookup_refines_table:
  assumes "router_wf r"
  shows "table_lookup (routes_of r) host path res \<longleftrightarrow> Lookup r host path = res"
  using assms by (rule Lookup_table)

theorem Lookup_refines_table_witness:
  "table_lookup (routes_of (router_run insertion_sort example_routes)) ''x.a.com'' ''/api''
     (Some (plain_route ''*.a.com'' ''/'' ''wild'' ''r2''))"
  by (subst Lookup_refines_table [OF example_routes_wf]) (simp add: router_eval)

text \<open>C27: \<^verbatim>\<open>Add\<close> implements a conditional insert into the table, keyed by domain and
  normalised location: it fails, naming the owner, exactly when the key is taken, and otherwise
  the new table is the old one with the route (its location normalised) at that key; the
  ordering and uniqueness invariant of the slices is kept.\<close>
theorem Add_refines_insert:
  assumes "router_wf r"
  shows "let loc = normalize_location (Location cfg) in
    case Add r cfg of
      Inl e \<Rightarrow> \<exists>owner. routes_of r (Domain cfg, loc) = Some owner \<and>
                       e = already_registered (Domain cfg) loc owner
    | Inr r' \<Rightarrow> routes_of r (Domain cfg, loc) = None \<and> router_wf r' \<and>
                routes_of r' = (routes_of r)((Domain cfg, loc) \<mapsto> cfg\<lparr>Location := loc\<rparr>)"
proof (cases "Add r cfg")
  case (Inl e)
  with Add_error [of r cfg e] show ?thesis by (simp add: Let_def)
next
  case (Inr r')
  then have "routes_of r (Domain cfg, normalize_location (Location cfg)) = None"
    using Add_error [of r cfg] by (metis Inl_Inr_False not_None_eq)
  with Inr assms router_wf_Add Add_routes show ?thesis by (simp add: Let_def)
qed

theorem Add_refines_insert_witness:
  "case Add (router_run insertion_sort example_routes) (plain_route ''a.com'' ''/api'' ''evil'' ''r9'') of
      Inl e \<Rightarrow> e = ''domain a.com location /api already registered by api'' | Inr _ \<Rightarrow> False"
  using Add_refines_insert [OF example_routes_wf, of "plain_route ''a.com'' ''/api'' ''evil'' ''r9''"]
  by (simp add: router_eval)

text \<open>\<^verbatim>\<open>Remove\<close> deletes every route of the named proxy, in both stores and
  under every domain and location, and leaves every other route where it was; the invariant is
  kept.\<close>
theorem Remove_refines_restrict:
  assumes "router_wf r"
  shows "routes_of (Remove r n) =
      (\<lambda>k. case routes_of r k of Some rc \<Rightarrow> if ProxyName rc \<noteq> n then Some rc else None | None \<Rightarrow> None)
    \<and> router_wf (Remove r n)"
  using assms by (simp add: routes_of_Remove router_wf_Remove)

theorem Remove_refines_restrict_witness:
  "routes_of (Remove (router_run insertion_sort example_routes) ''api'') (''a.com'', ''/api'') = None"
  using Remove_refines_restrict [OF example_routes_wf, of "''api''"]
  by (simp add: routes_of_def bucket_def router_eval)

text \<open>The answers of the router do not depend on how \<^verbatim>\<open>slices.SortFunc\<close> orders routes
  of equal location length: after the same history of \<^verbatim>\<open>Add\<close> and \<^verbatim>\<open>Remove\<close> calls, two routers
  whose sorting routines both return a permutation in descending length order give the same
  result to every \<^verbatim>\<open>Lookup\<close>, and both are well-formed.\<close>
theorem Lookup_sort_independent:
  assumes "route_sorter f" "route_sorter g"
  shows "Lookup (router_run f ops) host path = Lookup (router_run g ops) host path
    \<and> router_wf (router_run f ops)"
  using assms routes_of_run [OF assms] route_sorter.router_wf_run
  by (metis Lookup_table)

text \<open>A second sorting routine, which puts later routes first among equal lengths.\<close>

lemma route_sorter_rev: "route_sorter (\<lambda>xs. insertion_sort (rev xs))"
  by unfold_locales (auto simp: go_sort.sort_perm go_sort.sort_ordered)

theorem Lookup_sort_independent_witness:
  "Lookup (router_run insertion_sort example_routes) ''a.com'' ''/api/v1'' =
   Lookup (router_run (\<lambda>xs. insertion_sort (rev xs)) example_routes) ''a.com'' ''/api/v1''
   \<and> router_wf (router_run insertion_sort example_routes)"
  using Lookup_sort_independent [OF go_sort.route_sorter_axioms route_sorter_rev] by blast

end
