(* ===== verification/Proxy_Register.thy ===== *)
theory Proxy_Register
  imports Router Messages
begin

text \<open>
  Registration of a proxy, \<^verbatim>\<open>internal/server/proxy_register.go\<close>.

  \<open>handleNewProxy\<close> is the whole handler as a function of the router and of the session's set
  of registered proxy names; the reply it puts on \<^verbatim>\<open>sendCh\<close> is part of the result. The nested
  loops over domains and locations are \<open>register_domains\<close> and \<open>add_locations\<close>. The lemma
  \<open>register_domains_table\<close> describes a run against the abstract routing table: a prefix of the
  wanted keys was inserted, and on failure the router is rolled back the way the code does it.
  From it follow when a registration succeeds, when it is all-or-nothing, and the two cases in
  which the rollback does too little or too much.
\<close>

section \<open>Definitions\<close>

definition route_cfg :: "NewProxy \<Rightarrow> string \<Rightarrow> string \<Rightarrow> string \<Rightarrow> RouteConfig" where
  "route_cfg m runID domain loc =
     \<lparr>Domain = domain, Location = loc, ProxyName = newproxy_ProxyName m, RunID = runID,
      UseEncryption = newproxy_UseEncryption m, UseCompression = newproxy_UseCompression m,
      HTTPUser = newproxy_HTTPUser m, HTTPPwd = newproxy_HTTPPwd m,
      HostHeaderRewrite = newproxy_HostHeaderRewrite m, Headers = newproxy_Headers m,
      ResponseHeaders = newproxy_ResponseHeaders m\<rparr>"

fun add_locations :: "Router \<Rightarrow> RouteConfig \<Rightarrow> string list \<Rightarrow> Router \<times> string option" where
  "add_locations r cfg [] = (r, None)"
| "add_locations r cfg (loc # locs) =
     (case Add r (cfg\<lparr>Location := loc\<rparr>) of
        Inl err \<Rightarrow> (r, Some err)
      | Inr r' \<Rightarrow> add_locations r' cfg locs)"

fun register_domains ::
  "NewProxy \<Rightarrow> string \<Rightarrow> Router \<Rightarrow> string list \<Rightarrow> string list \<Rightarrow> Router \<times> string option" where
  "register_domains m runID r registered [] = (r, None)"
| "register_domains m runID r registered (domain # domains) =
     (let cfg = route_cfg m runID domain ''/''
      in if newproxy_Locations m \<noteq> [] then
           (case add_locations r cfg (newproxy_Locations m) of
              (r', Some err) \<Rightarrow> (foldl Remove r' registered, Some err)
            | (r', None) \<Rightarrow>
                register_domains m runID r' (registered @ [newproxy_ProxyName m]) domains)
         else
           (case Add r cfg of
              Inl err \<Rightarrow> (Remove r (newproxy_ProxyName m), Some err)
            | Inr r' \<Rightarrow>
                register_domains m runID r' (registered @ [newproxy_ProxyName m]) domains))"

definition handleNewProxy ::
  "Router option \<Rightarrow> NewProxy \<Rightarrow> string \<Rightarrow> string set \<Rightarrow> Router option \<times> string set \<times> NewProxyResp" where
  "handleNewProxy router m runID registeredProxies =
     (let name = newproxy_ProxyName m;
          fail = (\<lambda>err. \<lparr>newproxyresp_ProxyName = name, newproxyresp_RemoteAddr = [],
                         newproxyresp_Error = err\<rparr>);
          ok = \<lparr>newproxyresp_ProxyName = name, newproxyresp_RemoteAddr = '':80'',
                newproxyresp_Error = []\<rparr>
      in if newproxy_ProxyType m \<noteq> ''http'' then
           (router, registeredProxies, fail ''only http proxy type is supported'')
         else
           (case router of
              None \<Rightarrow> (None, registeredProxies, ok)
            | Some r \<Rightarrow>
                (case register_domains m runID r [] (newproxy_CustomDomains m) of
                   (r', Some err) \<Rightarrow> (Some r', registeredProxies, fail err)
                 | (r', None) \<Rightarrow> (Some r', insert name registeredProxies, ok))))"

section \<open>The wanted keys of the abstract table\<close>

definition wanted_locations :: "NewProxy \<Rightarrow> string list" where
  "wanted_locations m = (if newproxy_Locations m = [] then [''/''] else newproxy_Locations m)"

definition domain_keys :: "NewProxy \<Rightarrow> string \<Rightarrow> (string \<times> string) list" where
  "domain_keys m d = map (\<lambda>l. (d, normalize_location l)) (wanted_locations m)"

definition wanted_keys :: "NewProxy \<Rightarrow> string list \<Rightarrow> (string \<times> string) list" where
  "wanted_keys m ds = concat (map (domain_keys m) ds)"

type_synonym route_table = "string \<times> string \<rightharpoonup> RouteConfig"

definition extend :: "NewProxy \<Rightarrow> string \<Rightarrow> route_table \<Rightarrow> (string \<times> string) list \<Rightarrow> route_table" where
  "extend m runID T ks = (\<lambda>k. if k \<in> set ks then Some (route_cfg m runID (fst k) (snd k)) else T k)"

text \<open>
  An attempt to insert \<open>ks\<close> into the table of \<open>r\<close> got as far as \<open>r1\<close>: the keys \<open>done\<close> were free and
  are now there, the next one, if any, is taken.
\<close>

definition inserted_upto ::
  "NewProxy \<Rightarrow> string \<Rightarrow> Router \<Rightarrow> (string \<times> string) list \<Rightarrow> (string \<times> string) list \<Rightarrow> Router \<Rightarrow> bool" where
  "inserted_upto m runID r ks done r1 \<longleftrightarrow>
     router_wf r1 \<and> prefix done ks \<and> distinct done \<and> set done \<inter> dom (routes_of r) = {} \<and>
     routes_of r1 = extend m runID (routes_of r) done"

definition stuck_at :: "Router \<Rightarrow> (string \<times> string) list \<Rightarrow> (string \<times> string) list \<Rightarrow> bool" where
  "stuck_at r1 ks done \<longleftrightarrow> length done < length ks \<and> ks ! length done \<in> dom (routes_of r1)"

lemma extend_Nil [simp]: "extend m runID T [] = T"
  by (simp add: extend_def)

lemma extend_append: "extend m runID (extend m runID T xs) ys = extend m runID T (xs @ ys)"
  by (auto simp: extend_def)

lemma dom_extend: "dom (extend m runID T ks) = set ks \<union> dom T"
  by (auto simp: extend_def split: if_splits)

lemma inserted_upto_Nil: "router_wf r \<Longrightarrow> inserted_upto m runID r ks [] r"
  by (simp add: inserted_upto_def)

lemma inserted_upto_append:
  assumes "inserted_upto m runID r ks ks r1" "inserted_upto m runID r1 ks' done r2"
  shows "inserted_upto m runID r (ks @ ks') (ks @ done) r2"
  using assms by (auto simp: inserted_upto_def extend_append dom_extend)

lemma inserted_upto_more: "inserted_upto m runID r ks done r1 \<Longrightarrow> inserted_upto m runID r (ks @ ks') done r1"
  by (auto simp: inserted_upto_def)

lemma stuck_at_append:
  "stuck_at r ks' done \<Longrightarrow> stuck_at r (ks @ ks') (ks @ done)"
  "stuck_at r ks done \<Longrightarrow> stuck_at r (ks @ ks') done"
  by (auto simp: stuck_at_def nth_append)

lemma Add_route_cfg:
  assumes "router_wf r"
  shows "case Add r (route_cfg m runID d l) of
      Inl e \<Rightarrow> (d, normalize_location l) \<in> dom (routes_of r)
    | Inr r' \<Rightarrow> inserted_upto m runID r [(d, normalize_location l)] [(d, normalize_location l)] r'"
proof (cases "Add r (route_cfg m runID d l)")
  case (Inl e)
  with Add_error [of r "route_cfg m runID d l" e] show ?thesis
    by (auto simp: route_cfg_def)
next
  case (Inr r')
  then have "(d, normalize_location l) \<notin> dom (routes_of r)"
    using Add_error [of r "route_cfg m runID d l"] by (force simp: route_cfg_def)
  moreover have "routes_of r' = extend m runID (routes_of r) [(d, normalize_location l)]"
    using Add_routes [OF assms Inr] by (auto simp: extend_def route_cfg_def)
  ultimately show ?thesis
    using Inr router_wf_Add [OF assms Inr] by (simp add: inserted_upto_def)
qed

lemma add_locations_table:
  assumes "router_wf r"
  shows "let ks = map (\<lambda>l. (d, normalize_location l)) locs in
    case add_locations r (route_cfg m runID d l0) locs of
      (r1, None) \<Rightarrow> inserted_upto m runID r ks ks r1
    | (r1, Some e) \<Rightarrow> (\<exists>done. inserted_upto m runID r ks done r1 \<and> stuck_at r1 ks done)"
  using assms
proof (induction locs arbitrary: r)
  case Nil
  then show ?case by (simp add: inserted_upto_def)
next
  case (Cons l locs)
  have cfg: "(route_cfg m runID d l0)\<lparr>Location := l\<rparr> = route_cfg m runID d l"
    by (simp add: route_cfg_def)
  show ?case
  proof (cases "Add r (route_cfg m runID d l)")
    case (Inl e)
    with Add_route_cfg [OF Cons.prems, where m = m and runID = runID and d = d and l = l] show ?thesis
      by (auto simp: cfg Let_def stuck_at_def Cons.prems intro!: exI [of _ "[]"] inserted_upto_Nil)
  next
    case (Inr r')
    then have step: "inserted_upto m runID r [(d, normalize_location l)] [(d, normalize_location l)] r'"
      using Add_route_cfg [OF Cons.prems, where m = m and runID = runID and d = d and l = l] by simp
    then have "router_wf r'"
      by (simp add: inserted_upto_def)
    from Cons.IH [OF this] Inr show ?thesis
      using inserted_upto_append [OF step] stuck_at_append(1) [where ks = "[(d, normalize_location l)]"]
      by (fastforce simp: cfg Let_def split: prod.splits option.splits)
  qed
qed
section \<open>A run of the handler against the table\<close>

lemma register_domains_Cons:
  "register_domains m runID r registered (d # ds) =
     (case add_locations r (route_cfg m runID d ''/'') (wanted_locations m) of
        (r', None) \<Rightarrow> register_domains m runID r' (registered @ [newproxy_ProxyName m]) ds
      | (r', Some err) \<Rightarrow>
          ((if newproxy_Locations m = [] then Remove r' (newproxy_ProxyName m)
            else foldl Remove r' registered), Some err))"
proof -
  have "(route_cfg m runID d ''/'')\<lparr>Location := ''/''\<rparr> = route_cfg m runID d ''/''"
    by (simp add: route_cfg_def)
  then show ?thesis
    by (auto simp: wanted_locations_def Let_def split: sum.splits)
qed

lemma Remove_idem: "Remove (Remove r n) n = Remove r n"
proof -
  have "removeFrom n (removeFrom n store) = removeFrom n store" for store
    by (auto simp: removeFrom_def Let_def fun_eq_iff split: option.splits if_splits)
  then show ?thesis
    by (simp add: Remove_def)
qed

lemma foldl_Remove_same: "set ns \<subseteq> {n} \<Longrightarrow> foldl Remove r ns = (if ns = [] then r else Remove r n)"
  by (induction ns arbitrary: r) (auto simp: Remove_idem)

text \<open>What the error branch leaves of the partly extended router.\<close>

definition rolled_back :: "NewProxy \<Rightarrow> string list \<Rightarrow> (string \<times> string) list \<Rightarrow> Router \<Rightarrow> Router" where
  "rolled_back m registered done r1 =
     (if newproxy_Locations m \<noteq> [] \<and> registered = [] \<and> length done < length (newproxy_Locations m)
      then r1 else Remove r1 (newproxy_ProxyName m))"

lemma length_domain_keys: "length (domain_keys m d) = length (wanted_locations m)"
  by (simp add: domain_keys_def)

lemma register_domains_table:
  assumes "router_wf r" "set registered \<subseteq> {newproxy_ProxyName m}"
  shows "let ks = wanted_keys m ds in
    case register_domains m runID r registered ds of
      (r', None) \<Rightarrow> inserted_upto m runID r ks ks r'
    | (r', Some e) \<Rightarrow> (\<exists>done r1. inserted_upto m runID r ks done r1 \<and> stuck_at r1 ks done \<and>
                                r' = rolled_back m registered done r1)"
  using assms
proof (induction ds arbitrary: r registered)
  case Nil
  then show ?case by (simp add: wanted_keys_def inserted_upto_def)
next
  case (Cons d ds)
  let ?k = "domain_keys m d" and ?ks = "wanted_keys m ds"
  have keys: "wanted_keys m (d # ds) = ?k @ ?ks"
    by (simp add: wanted_keys_def)
  obtain r1 e where al: "add_locations r (route_cfg m runID d ''/'') (wanted_locations m) = (r1, e)"
    by fastforce
  note first = add_locations_table [OF Cons.prems(1), where d = d and m = m and runID = runID
      and ?l0.0 = "''/''" and locs = "wanted_locations m", unfolded al domain_keys_def [symmetric] Let_def]
  show ?case
  proof (cases e)
    case None
    with first have step: "inserted_upto m runID r ?k ?k r1" by simp
    then have "router_wf r1" by (simp add: inserted_upto_def)
    from Cons.IH [OF this, of "registered @ [newproxy_ProxyName m]"] Cons.prems None
    show ?thesis
      using inserted_upto_append [OF step] stuck_at_append(1) [where ks = ?k]
        length_domain_keys [of m d]
      unfolding register_domains_Cons al keys Let_def
      by (fastforce simp: rolled_back_def wanted_locations_def split: prod.splits option.splits)
  next
    case (Some err)
    with first obtain dn where dn: "inserted_upto m runID r ?k dn r1" "stuck_at r1 ?k dn"
      by auto
    moreover have "length dn < length (wanted_locations m)"
      using dn by (simp add: stuck_at_def length_domain_keys)
    moreover have "(if newproxy_Locations m = [] then Remove r1 (newproxy_ProxyName m)
            else foldl Remove r1 registered) = rolled_back m registered dn r1"
      using calculation Cons.prems
      by (auto simp: rolled_back_def foldl_Remove_same wanted_locations_def)
    ultimately show ?thesis
      using inserted_upto_more stuck_at_append(2)
      unfolding register_domains_Cons al keys Let_def Some by fastforce
  qed
qed

lemma Add_error_not_Nil: "Add r cfg = Inl e \<Longrightarrow> e \<noteq> []"
  using Add_error [of r cfg e] by (auto simp: already_registered_def)

lemma add_locations_error: "add_locations r cfg locs = (r', Some e) \<Longrightarrow> e \<noteq> []"
  by (induction r cfg locs rule: add_locations.induct) (auto simp: Add_error_not_Nil split: sum.splits)

lemma register_domains_error: "register_domains m runID r registered ds = (r', Some e) \<Longrightarrow> e \<noteq> []"
proof (induction ds arbitrary: r registered)
  case (Cons d ds)
  then show ?case
    by (auto simp: register_domains_Cons simp del: register_domains.simps
        dest: add_locations_error split: prod.splits option.splits)
qed simp

definition accepts :: "Router \<Rightarrow> NewProxy \<Rightarrow> bool" where
  "accepts r m \<longleftrightarrow> distinct (wanted_keys m (newproxy_CustomDomains m)) \<and>
     set (wanted_keys m (newproxy_CustomDomains m)) \<inter> dom (routes_of r) = {}"

definition without :: "string \<Rightarrow> route_table \<Rightarrow> route_table" where
  "without n T = (\<lambda>k. case T k of Some rc \<Rightarrow> if ProxyName rc \<noteq> n then Some rc else None | None \<Rightarrow> None)"

lemma inserted_all_accepts:
  "inserted_upto m runID r ks ks r1 \<Longrightarrow> distinct ks \<and> set ks \<inter> dom (routes_of r) = {}"
  by (simp add: inserted_upto_def)

lemma stuck_not_accepts:
  assumes "inserted_upto m runID r ks done r1" "stuck_at r1 ks done"
  shows "\<not> (distinct ks \<and> set ks \<inter> dom (routes_of r) = {})"
proof -
  from assms obtain rest where ks: "ks = done @ rest" and "routes_of r1 = extend m runID (routes_of r) done"
    by (auto simp: inserted_upto_def prefix_def)
  moreover have "rest \<noteq> []" "hd rest \<in> dom (routes_of r1)"
    using assms ks by (auto simp: stuck_at_def nth_append hd_conv_nth)
  ultimately show ?thesis
    by (cases rest) (auto simp: dom_extend)
qed

lemma without_extend: "without (newproxy_ProxyName m) (extend m runID T ks) =
    (\<lambda>k. if k \<in> set ks then None else without (newproxy_ProxyName m) T k)"
  by (auto simp: without_def extend_def route_cfg_def)

lemma inserted_removed:
  assumes "inserted_upto m runID r ks done r1"
  shows "routes_of (Remove r1 (newproxy_ProxyName m)) = without (newproxy_ProxyName m) (routes_of r)"
proof -
  have "routes_of (Remove r1 (newproxy_ProxyName m)) = without (newproxy_ProxyName m) (routes_of r1)"
    using assms by (simp add: routes_of_Remove inserted_upto_def without_def)
  moreover have "k \<in> set done \<Longrightarrow> routes_of r k = None" for k
    using assms by (auto simp: inserted_upto_def)
  ultimately show ?thesis
    using assms unfolding inserted_upto_def
    by (intro ext) (auto simp: without_extend without_def [of _ "routes_of r"])
qed

lemma rolled_back_wf:
  "inserted_upto m runID r ks done r1 \<Longrightarrow> router_wf (rolled_back m registered done r1)"
  by (auto simp: rolled_back_def inserted_upto_def intro: router_wf_Remove)

text \<open>The outcome of the handler for an http proxy, in terms of the table.\<close>

lemma handleNewProxy_cases:
  assumes "router_wf r" "newproxy_ProxyType m = ''http''"
  obtains (ok) r' where "accepts r m" "router_wf r'"
      "routes_of r' = extend m runID (routes_of r) (wanted_keys m (newproxy_CustomDomains m))"
      "handleNewProxy (Some r) m runID reg = (Some r', insert (newproxy_ProxyName m) reg,
         \<lparr>newproxyresp_ProxyName = newproxy_ProxyName m, newproxyresp_RemoteAddr = '':80'',
          newproxyresp_Error = []\<rparr>)"
  | (failed) dn r1 err where "\<not> accepts r m" "err \<noteq> []"
      "inserted_upto m runID r (wanted_keys m (newproxy_CustomDomains m)) dn r1"
      "stuck_at r1 (wanted_keys m (newproxy_CustomDomains m)) dn"
      "handleNewProxy (Some r) m runID reg = (Some (rolled_back m [] dn r1), reg,
         \<lparr>newproxyresp_ProxyName = newproxy_ProxyName m, newproxyresp_RemoteAddr = [],
          newproxyresp_Error = err\<rparr>)"
proof -
  obtain r' e where rd: "register_domains m runID r [] (newproxy_CustomDomains m) = (r', e)"
    by fastforce
  note T = register_domains_table [OF assms(1), where registered = "[]" and m = m and runID = runID
      and ds = "newproxy_CustomDomains m", unfolded rd Let_def]
  show thesis
  proof (cases e)
    case None
    with T have i: "inserted_upto m runID r (wanted_keys m (newproxy_CustomDomains m))
        (wanted_keys m (newproxy_CustomDomains m)) r'" by simp
    with None rd assms show thesis
      using inserted_all_accepts [OF i]
      by (intro ok [of r']) (auto simp: handleNewProxy_def accepts_def inserted_upto_def Let_def)
  next
    case (Some err)
    with T obtain dn r1 where i: "inserted_upto m runID r (wanted_keys m (newproxy_CustomDomains m)) dn r1"
      "stuck_at r1 (wanted_keys m (newproxy_CustomDomains m)) dn" "r' = rolled_back m [] dn r1" by auto
    with Some rd assms show thesis
      using stuck_not_accepts [OF i(1,2)] register_domains_error [of m runID r "[]"]
      by (intro failed [of err dn r1]) (auto simp: handleNewProxy_def accepts_def Let_def)
  qed
qed

section \<open>Properties\<close>

definition http_proxy :: "string \<Rightarrow> string list \<Rightarrow> string list \<Rightarrow> NewProxy" where
  "http_proxy name domains locs =
     example_proxy\<lparr>newproxy_ProxyName := name, newproxy_CustomDomains := domains,
       newproxy_Locations := locs, newproxy_Headers := []\<rparr>"

definition reply_error :: "Router option \<times> string set \<times> NewProxyResp \<Rightarrow> string" where
  "reply_error res = newproxyresp_Error (snd (snd res))"

definition router_after :: "Router option \<times> string set \<times> NewProxyResp \<Rightarrow> Router" where
  "router_after res = the (fst res)"

lemma http_proxy_simps [simp]:
  "newproxy_ProxyType (http_proxy n ds ls) = ''http''"
  "newproxy_CustomDomains (http_proxy n ds ls) = ds"
  "newproxy_Locations (http_proxy n ds ls) = ls"
  "newproxy_ProxyName (http_proxy n ds ls) = n"
  by (simp_all add: http_proxy_def example_proxy_def)

lemmas register_eval = router_eval accepts_def wanted_keys_def domain_keys_def wanted_locations_def
  routes_of_def bucket_def

text \<open>
  C5: A registration is accepted exactly when the proxy is an http proxy and its wanted
  (domain, location) pairs are pairwise different and all free; then the routing table gains
  exactly those pairs, each with the options of the message and the session's run id, the name
  is recorded for the session's cleanup and the reply carries the address \<^verbatim>\<open>:80\<close> and no error. A
  refused one gets a non-empty error and leaves the session's set of names alone; the table's
  invariant is kept in every case.
\<close>

theorem handleNewProxy_outcome:
  assumes "router_wf r"
  shows "case handleNewProxy (Some r) m runID reg of (router', reg', resp) \<Rightarrow>
    (\<exists>r'. router' = Some r' \<and> router_wf r' \<and> newproxyresp_ProxyName resp = newproxy_ProxyName m \<and>
      (if newproxy_ProxyType m = ''http'' \<and> accepts r m
       then newproxyresp_Error resp = [] \<and> newproxyresp_RemoteAddr resp = '':80'' \<and>
            reg' = insert (newproxy_ProxyName m) reg \<and>
            routes_of r' = extend m runID (routes_of r) (wanted_keys m (newproxy_CustomDomains m))
       else newproxyresp_Error resp \<noteq> [] \<and> newproxyresp_RemoteAddr resp = [] \<and> reg' = reg))"
proof (cases "newproxy_ProxyType m = ''http''")
  case False
  with assms show ?thesis by (simp add: handleNewProxy_def Let_def)
next
  case True
  from assms True show ?thesis
    by (cases rule: handleNewProxy_cases [of r m runID reg]) (auto simp: True intro: rolled_back_wf)
qed

theorem handleNewProxy_outcome_witness:
  "reply_error (handleNewProxy (Some New) (http_proxy ''web'' [''a.io'', ''b.io''] []) ''r1'' {}) = []"
proof -
  have "accepts New (http_proxy ''web'' [''a.io'', ''b.io''] [])"
    by (simp add: routes_of_New accepts_def wanted_keys_def domain_keys_def wanted_locations_def)
  then show ?thesis
    using handleNewProxy_outcome [OF router_wf_New, where m = "http_proxy ''web'' [''a.io'', ''b.io''] []" and runID = "''r1''" and reg = "{}"]
    by (auto simp: reply_error_def split: prod.splits)
qed

text \<open>
  C31: Registration is all-or-nothing, as the handler's comment promises, under the conditions
  that make its rollback work: no route of that proxy name exists beforehand, and either at most one
  location is listed or the pairs of the first domain are free. Then a refused registration leaves
  the routing table as it was.
\<close>

theorem handleNewProxy_all_or_nothing:
  assumes "router_wf r" "newproxy_ProxyType m = ''http''"
    and fresh: "\<forall>k rc. routes_of r k = Some rc \<longrightarrow> ProxyName rc \<noteq> newproxy_ProxyName m"
    and first: "length (newproxy_Locations m) \<le> 1 \<or>
      (\<forall>d. newproxy_CustomDomains m \<noteq> [] \<and> d = hd (newproxy_CustomDomains m) \<longrightarrow>
           distinct (domain_keys m d) \<and> set (domain_keys m d) \<inter> dom (routes_of r) = {})"
    and "\<not> accepts r m"
  shows "routes_of (router_after (handleNewProxy (Some r) m runID reg)) = routes_of r"
  using assms(1,2)
proof (cases rule: handleNewProxy_cases [of r m runID reg])
  case ok
  with assms show ?thesis by simp
next
  case (failed dn r1 err)
  let ?ks = "wanted_keys m (newproxy_CustomDomains m)"
  have without: "without (newproxy_ProxyName m) (routes_of r) = routes_of r"
    using fresh by (auto simp: without_def fun_eq_iff split: option.splits)
  have "routes_of (rolled_back m [] dn r1) = routes_of r"
  proof (cases "newproxy_Locations m \<noteq> [] \<and> length dn < length (newproxy_Locations m)")
    case False
    then show ?thesis
      using inserted_removed [OF failed(3)] without by (auto simp: rolled_back_def)
  next
    case True
    have "dn = []"
    proof (rule ccontr)
      assume "dn \<noteq> []"
      with True have "\<not> length (newproxy_Locations m) \<le> 1"
        by (cases dn) auto
      obtain d ds where ds: "newproxy_CustomDomains m = d # ds"
        using failed(4) by (cases "newproxy_CustomDomains m") (auto simp: stuck_at_def wanted_keys_def)
      have keys: "?ks = domain_keys m d @ wanted_keys m ds"
        by (simp add: ds wanted_keys_def)
      have "length dn < length (domain_keys m d)"
        using True by (simp add: length_domain_keys wanted_locations_def)
      then have "stuck_at r1 (domain_keys m d) dn" "inserted_upto m runID r (domain_keys m d) dn r1"
        using failed(3,4) prefix_length_prefix [of dn ?ks "domain_keys m d"]
        by (auto simp: stuck_at_def inserted_upto_def keys nth_append)
      with stuck_not_accepts first \<open>\<not> length (newproxy_Locations m) \<le> 1\<close> ds show False by force
    qed
    with True failed show ?thesis by (simp add: rolled_back_def inserted_upto_def)
  qed
  with failed show ?thesis by (simp add: router_after_def)
qed

definition one_route :: Router where
  "one_route = router_run insertion_sort [OpAdd (plain_route ''b.io'' ''/'' ''web'' ''r1'')]"

lemma one_route_wf: "router_wf one_route"
  unfolding one_route_def by (rule go_sort.router_wf_run)

lemma one_route_routes: "routes_of one_route = [(''b.io'', ''/'') \<mapsto> plain_route ''b.io'' ''/'' ''web'' ''r1'']"
proof -
  have "Add New (plain_route ''b.io'' ''/'' ''web'' ''r1'') = Inr one_route"
    by (simp add: one_route_def router_eval)
  from Add_routes [OF router_wf_New this] show ?thesis
    by (simp add: routes_of_New plain_route_def normalize_location_def)
qed

theorem handleNewProxy_all_or_nothing_witness:
  "routes_of (router_after (handleNewProxy (Some one_route) (http_proxy ''app'' [''a.io'', ''b.io''] []) ''r2'' {}))
   = routes_of one_route"
  by (rule handleNewProxy_all_or_nothing [OF one_route_wf])
    (simp_all add: one_route_routes plain_route_def accepts_def wanted_keys_def domain_keys_def
      wanted_locations_def normalize_location_def)

text \<open>
  C32: Outside those conditions the rollback does too little. When the first domain's first location
  is free and its second one is taken, the refused registration leaves the first location in the
  routing table, routed to the refused proxy, and the name is not recorded for the session, so
  that no cleanup will ever remove it.
\<close>

theorem handleNewProxy_leaks_route:
  assumes "router_wf r" "newproxy_ProxyType m = ''http''"
    and "newproxy_CustomDomains m = d # ds" "newproxy_Locations m = l1 # l2 # ls"
    and "routes_of r (d, normalize_location l1) = None"
    and "routes_of r (d, normalize_location l2) = Some owner"
  shows "case handleNewProxy (Some r) m runID reg of (router', reg', resp) \<Rightarrow>
    (\<exists>r'. router' = Some r' \<and> newproxyresp_Error resp \<noteq> [] \<and> reg' = reg \<and>
      routes_of r' (d, normalize_location l1) = Some (route_cfg m runID d (normalize_location l1)))"
  using assms(1,2)
proof (cases rule: handleNewProxy_cases [of r m runID reg])
  case ok
  with assms show ?thesis
    by (auto simp: accepts_def wanted_keys_def domain_keys_def wanted_locations_def)
next
  case (failed dn r1 err)
  let ?k1 = "(d, normalize_location l1)" and ?k2 = "(d, normalize_location l2)"
  obtain ks where ks: "wanted_keys m (newproxy_CustomDomains m) = ?k1 # ?k2 # ks"
    using assms by (simp add: wanted_keys_def domain_keys_def wanted_locations_def)
  have "?k2 \<notin> set dn" "routes_of r1 = extend m runID (routes_of r) dn" "prefix dn (?k1 # ?k2 # ks)"
    using failed(3) assms ks by (auto simp: inserted_upto_def)
  moreover from this assms failed(4) have "dn \<noteq> []"
    unfolding ks by (auto simp: stuck_at_def)
  ultimately have "dn = [?k1]"
    by (auto simp: prefix_Cons)
  with failed assms show ?thesis
    by (simp add: rolled_back_def inserted_upto_def extend_def)
qed

theorem handleNewProxy_leaks_route_witness:
  "case handleNewProxy (Some one_route) (http_proxy ''app'' [''b.io''] [''/api'', ''/'']) ''r2'' {} of
     (router', reg', resp) \<Rightarrow> (\<exists>r'. router' = Some r' \<and> newproxyresp_Error resp \<noteq> [] \<and> reg' = {} \<and>
       routes_of r' (''b.io'', ''/api'') \<noteq> None)"
proof -
  have "case handleNewProxy (Some one_route) (http_proxy ''app'' [''b.io''] [''/api'', ''/'']) ''r2'' {} of
     (router', reg', resp) \<Rightarrow> (\<exists>r'. router' = Some r' \<and> newproxyresp_Error resp \<noteq> [] \<and> reg' = {} \<and>
       routes_of r' (''b.io'', normalize_location ''/api'') =
         Some (route_cfg (http_proxy ''app'' [''b.io''] [''/api'', ''/'']) ''r2'' ''b.io'' (normalize_location ''/api'')))"
    by (rule handleNewProxy_leaks_route [OF one_route_wf, where ?l2.0 = "''/''" and ls = "[]" and ds = "[]"
          and owner = "plain_route ''b.io'' ''/'' ''web'' ''r1''"])
      (simp_all add: one_route_routes normalize_location_def)
  then show ?thesis
    by (auto simp: normalize_location_def split: prod.splits)
qed

text \<open>
  And the rollback can do too much. Without locations, a refused registration deletes every
  route of its proxy name from the routing table, also the routes that an earlier registration,
  of this or of another session, had put there under the same name.
\<close>

theorem handleNewProxy_deletes_namesake:
  assumes "router_wf r" "newproxy_ProxyType m = ''http''" "newproxy_Locations m = []" "\<not> accepts r m"
  shows "routes_of (router_after (handleNewProxy (Some r) m runID reg)) =
         (\<lambda>k. case routes_of r k of
                Some rc \<Rightarrow> if ProxyName rc = newproxy_ProxyName m then None else Some rc
              | None \<Rightarrow> None)"
  using assms(1,2)
proof (cases rule: handleNewProxy_cases [of r m runID reg])
  case ok
  with assms show ?thesis by simp
next
  case (failed dn r1 err)
  with assms inserted_removed [OF failed(3)] show ?thesis
    by (auto simp: rolled_back_def router_after_def without_def fun_eq_iff split: option.splits)
qed

theorem handleNewProxy_deletes_namesake_witness:
  "routes_of one_route (''b.io'', ''/'') \<noteq> None \<and>
   routes_of (router_after (handleNewProxy (Some one_route) (http_proxy ''web'' [''b.io''] []) ''r2'' {}))
     (''b.io'', ''/'') = None"
proof -
  have "\<not> accepts one_route (http_proxy ''web'' [''b.io''] [])"
    by (simp add: one_route_routes accepts_def wanted_keys_def domain_keys_def wanted_locations_def
        normalize_location_def)
  then show ?thesis
    using handleNewProxy_deletes_namesake [OF one_route_wf, of "http_proxy ''web'' [''b.io''] []" "''r2''" "{}"]
    by (simp add: one_route_routes plain_route_def)
qed

end
