(* ===== verification/Handle.thy ===== *)
theory Handle
  imports Auth Crypto Control_Manager Control_Writer Proxy_Register
begin

text \<open>
  The control sessions, \<^verbatim>\<open>internal/server/handle.go\<close> (with \<^verbatim>\<open>generateRunID\<close> of \<^verbatim>\<open>util.go\<close>): \<open>HandleConnection\<close>
  and \<open>handleLogin\<close> for the first message of a stream, then the goroutine of the session
  (\<open>bootstrapReqWorkConn\<close>, \<open>Register\<close>, \<open>controlLoop\<close>, \<open>cleanupControlSession\<close>), the goroutine that
  closes the connection of a cancelled session, the heartbeat timer, and the calls of \<open>ReqWorkConnFunc\<close>.

  A \<open>session\<close> holds the local variables of one \<^verbatim>\<open>handleLogin\<close> call and the control writer that it spawned
  (whose \<open>cwdone\<close> is the session's context); \<open>handler_at\<close> is where its goroutine is. \<open>server\<close> extends the
  \<open>Handler\<close> struct by the live goroutines. \<open>server_step\<close> interleaves all of them with an environment that
  opens connections, sends messages, breaks connections and calls \<open>ReqWorkConnFunc\<close> at any time.

  The callbacks work on a state \<open>'o\<close> of the owner. One router or registry operation, one handled
  \<^verbatim>\<open>NewProxy\<close> message and a group of counter updates without a branch are atomic.
\<close>

section \<open>State\<close>

datatype hpc =
    BootCount nat | BootSend nat | RegisterSession | ReadControl | SendReply Message
  | CancelContext | RemoveEntry | RemoveRoutes "string set" | NotifyOwner | HandlerDone

record session =
  login :: Login
  runID :: string
  writer :: controlWriter
  writer_at :: wpc
  handler_at :: hpc
  registeredProxies :: "string set"
  conn_closed :: bool
  watcher :: bool
  heartbeatTimer :: "timer option"
  heartbeat_waits :: bool

datatype refill_pc = RefillLookup string | RefillSend controlEntry | RefillCount bool

record 'o Handler =
  Token :: string
  ReadTimeout :: int
  HeartbeatTimeout :: int
  HRouter :: "Router option"
  ReqStats :: "ReqWorkConnStats option"
  OnWorkConn :: "('o \<Rightarrow> nat \<Rightarrow> NewWorkConn \<Rightarrow> 'o) option"
  OnControlClose :: "('o \<Rightarrow> string \<Rightarrow> 'o) option"
  controls :: controlManager

record 'o server = "'o Handler" +
  owner_state :: 'o
  sessions :: "session list"
  refills :: "refill_pc multiset"

definition upd_session :: "nat \<Rightarrow> (session \<Rightarrow> session) \<Rightarrow> 'o server \<Rightarrow> 'o server" where
  "upd_session i f srv = srv\<lparr>sessions := (sessions srv)[i := f (sessions srv ! i)]\<rparr>"

definition go_to :: "nat \<Rightarrow> hpc \<Rightarrow> 'o server \<Rightarrow> 'o server" where
  "go_to i p = upd_session i (handler_at_update (\<lambda>_. p))"

definition cancel_session :: "nat \<Rightarrow> 'o server \<Rightarrow> 'o server" where
  "cancel_session i = upd_session i (writer_update (cwdone_update (\<lambda>_. True)))"

section \<open>The first message\<close>

definition defaultReadTimeout :: int where "defaultReadTimeout = 10 * 1000000000"

definition readTimeout :: "'o server \<Rightarrow> int" where
  "readTimeout srv = (if ReadTimeout srv > 0 then ReadTimeout srv else defaultReadTimeout)"

text \<open>\<open>rnd\<close> is what \<^verbatim>\<open>rand.Read\<close> put into the eight bytes.\<close>

definition generateRunID :: "bytes \<Rightarrow> string" where
  "generateRunID rnd = fmt_x rnd"

datatype conn_effect = SetReadDeadline "int option" | ConnClosed

definition login_resp :: "string \<Rightarrow> string \<Rightarrow> Message" where
  "login_resp rid err = LoginResp \<lparr>loginresp_Version = ''drps-0.1.0'', loginresp_RunID = rid, loginresp_Error = err\<rparr>"

definition new_session :: "'o server \<Rightarrow> Login \<Rightarrow> string \<Rightarrow> session" where
  "new_session srv m rid =
     \<lparr>login = m, runID = rid,
      writer = sendLoop \<lparr>out = [], room = None\<rparr> (make_chan controlReqChSize) (make_chan controlSendChSize) False (ReqStats srv),
      writer_at = LoopTop, handler_at = BootCount (nat (login_PoolCount m)), registeredProxies = {},
      conn_closed = False, watcher = False, heartbeatTimer = None, heartbeat_waits = False\<rparr>"

text \<open>
  \<open>w\<close> is the outbound side of the connection and \<open>inbound\<close> the bytes that come in after the login. After the
  handshake the session's goroutine goes on at \<open>BootCount\<close>, next to its writer.
\<close>

definition handleLogin ::
  "(bytes \<Rightarrow> bytes \<Rightarrow> nat \<Rightarrow> nat \<Rightarrow> bytes) \<Rightarrow> ('w \<Rightarrow> bytes \<Rightarrow> 'w \<times> 'e option) \<Rightarrow> bytes option \<Rightarrow> bytes \<Rightarrow>
   'w \<Rightarrow> bytes \<Rightarrow> Login \<Rightarrow> 'o server \<Rightarrow> 'w \<times> 'o server \<times> conn_effect list" where
  "handleLogin pbkdf2 write iv rnd w inbound m srv =
     (if \<not> VerifyAuth (Token srv) (login_Timestamp m) (login_PrivilegeKey m) then
        (fst (WriteMsg write w (login_resp [] ''authorization failed'')), srv, [ConnClosed])
      else
        let rid = (if login_RunID m = [] then generateRunID rnd else login_RunID m);
            w1 = fst (WriteMsg write w (login_resp rid []));
            key = DeriveKey pbkdf2 (Token srv)
        in case NewCryptoWriter write iv w1 key of
             (w2, Inl err) \<Rightarrow> (w2, srv, [ConnClosed])
           | (w2, Inr encWriter) \<Rightarrow>
               (case (NewCryptoReader inbound key :: 'e crypto_error + bytes \<times> cfb) of
                  Inl err \<Rightarrow> (w2, srv, [ConnClosed])
                | Inr encReader \<Rightarrow> (w2, srv\<lparr>sessions := sessions srv @ [new_session srv m rid]\<rparr>, [])))"

definition HandleConnection ::
  "(bytes \<Rightarrow> bytes \<Rightarrow> nat \<Rightarrow> nat \<Rightarrow> bytes) \<Rightarrow> ('w \<Rightarrow> bytes \<Rightarrow> 'w \<times> 'e option) \<Rightarrow> bytes option \<Rightarrow> bytes \<Rightarrow>
   'w \<Rightarrow> bytes \<Rightarrow> nat \<Rightarrow> 'o server \<Rightarrow> 'w \<times> 'o server \<times> conn_effect list" where
  "HandleConnection pbkdf2 write iv rnd w inbound c srv =
     (let d = SetReadDeadline (Some (readTimeout srv))
      in case ReadMsg inbound of
           Inl err \<Rightarrow> (w, srv, [d, ConnClosed])
         | Inr (rawMsg, rest) \<Rightarrow>
             (case (case rawMsg of
                      Login m \<Rightarrow> handleLogin pbkdf2 write iv rnd w rest m srv
                    | NewWorkConn m \<Rightarrow>
                        (case OnWorkConn srv of
                           Some f \<Rightarrow> (w, srv\<lparr>owner_state := f (owner_state srv) c m\<rparr>, [])
                         | None \<Rightarrow> (w, srv, [ConnClosed]))
                    | _ \<Rightarrow> (w, srv, [ConnClosed])) of
                (w', srv', es) \<Rightarrow> (w', srv', d # SetReadDeadline None # es)))"

section \<open>The goroutine of a session\<close>

text \<open>Each function gives the outcomes of one action; none means that the goroutine has to wait.\<close>

fun bootstrapReqWorkConn :: "nat \<Rightarrow> 'o server \<Rightarrow> hpc \<Rightarrow> 'o server list" where
  "bootstrapReqWorkConn i srv (BootCount n) =
     [if n = 0 then go_to i RegisterSession srv
      else go_to i (BootSend n) (srv\<lparr>ReqStats := count_enqueued (count_requested (ReqStats srv))\<rparr>)]"
| "bootstrapReqWorkConn i srv (BootSend n) =
     (case chan_send (reqCh (writer (sessions srv ! i))) () of
        Sent ch \<Rightarrow> [go_to i (BootCount (n - 1)) (upd_session i (writer_update (reqCh_update (\<lambda>_. ch))) srv)]
      | _ \<Rightarrow> [])"
| "bootstrapReqWorkConn i srv _ = []"

definition entry_of :: "nat \<Rightarrow> controlEntry" where
  "entry_of i = \<lparr>entry_cancel = i, entry_reqCh = i, entry_sendCh = i, entry_done = i\<rparr>"

definition start_controlLoop :: "nat \<Rightarrow> 'o server \<Rightarrow> 'o server" where
  "start_controlLoop i srv =
     upd_session i
       (\<lambda>s. s\<lparr>handler_at := ReadControl, watcher := True,
             heartbeatTimer := (if HeartbeatTimeout srv > 0 then Some (TimerArmed (nat (HeartbeatTimeout srv))) else None),
             heartbeat_waits := HeartbeatTimeout srv > 0\<rparr>) srv"

definition register_session :: "nat \<Rightarrow> 'o server \<Rightarrow> 'o server" where
  "register_session i srv =
     (case Register (controls srv) (runID (sessions srv ! i)) (entry_of i) of
        (cm, cancelled) \<Rightarrow> start_controlLoop i (fold cancel_session cancelled (srv\<lparr>controls := cm\<rparr>)))"

text \<open>One turn of the loop, on what \<^verbatim>\<open>ReadMsg\<close> returns. Leaving it stops the timer and closes the connection.\<close>

definition controlLoop :: "nat \<Rightarrow> msg_error + Message \<Rightarrow> 'o server \<Rightarrow> 'o server" where
  "controlLoop i r srv =
     (let s = sessions srv ! i
      in case r of
           Inl err \<Rightarrow>
             upd_session i
               (\<lambda>s. s\<lparr>heartbeatTimer := map_option stopTimer (heartbeatTimer s), conn_closed := True,
                     handler_at := CancelContext\<rparr>) srv
         | Inr rawMsg \<Rightarrow>
             (case rawMsg of
                Ping m \<Rightarrow>
                  upd_session i
                    (\<lambda>s. s\<lparr>heartbeatTimer := map_option (\<lambda>t. resetTimer t (nat (HeartbeatTimeout srv))) (heartbeatTimer s),
                          handler_at := SendReply (Pong \<lparr>pong_Error = []\<rparr>)\<rparr>) srv
              | NewProxy m \<Rightarrow>
                  (case handleNewProxy (HRouter srv) m (runID s) (registeredProxies s) of
                     (rt, reg, resp) \<Rightarrow>
                       upd_session i (\<lambda>s. s\<lparr>registeredProxies := reg, handler_at := SendReply (NewProxyResp resp)\<rparr>)
                         (srv\<lparr>HRouter := rt\<rparr>))
              | CloseProxy m \<Rightarrow>
                  upd_session i (\<lambda>s. s\<lparr>registeredProxies := registeredProxies s - {closeproxy_ProxyName m}\<rparr>)
                    (srv\<lparr>HRouter := map_option (\<lambda>rt. Remove rt (closeproxy_ProxyName m)) (HRouter srv)\<rparr>)
              | _ \<Rightarrow> srv))"

definition send_reply :: "nat \<Rightarrow> Message \<Rightarrow> 'o server \<Rightarrow> 'o server list" where
  "send_reply i m srv =
     (case chan_send (sendCh (writer (sessions srv ! i))) m of
        Sent ch \<Rightarrow> [go_to i ReadControl (upd_session i (writer_update (sendCh_update (\<lambda>_. ch))) srv)]
      | _ \<Rightarrow> [])"

subsection \<open>Cleanup\<close>

definition drop_entry :: "nat \<Rightarrow> 'o server \<Rightarrow> 'o server" where
  "drop_entry i srv = srv\<lparr>controls := Remove_entry (controls srv) (runID (sessions srv ! i))\<rparr>"

definition remove_route :: "string \<Rightarrow> 'o server \<Rightarrow> 'o server" where
  "remove_route name srv = srv\<lparr>HRouter := map_option (\<lambda>rt. Remove rt name) (HRouter srv)\<rparr>"

definition notify_owner :: "nat \<Rightarrow> 'o server \<Rightarrow> 'o server" where
  "notify_owner i srv =
     (case OnControlClose srv of
        Some f \<Rightarrow> srv\<lparr>owner_state := f (owner_state srv) (runID (sessions srv ! i))\<rparr>
      | None \<Rightarrow> srv)"

text \<open>The whole of it, without interference, for an order in which Go ranges over the set of names.\<close>

definition cleanupControlSession :: "string list \<Rightarrow> nat \<Rightarrow> 'o server \<Rightarrow> 'o server" where
  "cleanupControlSession order i srv =
     go_to i HandlerDone (notify_owner i (fold remove_route order (drop_entry i (cancel_session i srv))))"

definition handler_exec :: "nat \<Rightarrow> 'o server \<Rightarrow> 'o server list" where
  "handler_exec i srv =
     (case handler_at (sessions srv ! i) of
        BootCount n \<Rightarrow> bootstrapReqWorkConn i srv (BootCount n)
      | BootSend n \<Rightarrow> bootstrapReqWorkConn i srv (BootSend n)
      | RegisterSession \<Rightarrow> [register_session i srv]
      | ReadControl \<Rightarrow> []
      | SendReply m \<Rightarrow> send_reply i m srv
      | CancelContext \<Rightarrow> [go_to i RemoveEntry (cancel_session i srv)]
      | RemoveEntry \<Rightarrow> [go_to i (RemoveRoutes (registeredProxies (sessions srv ! i))) (drop_entry i srv)]
      | RemoveRoutes names \<Rightarrow> if names = {} then [go_to i NotifyOwner srv] else []
      | NotifyOwner \<Rightarrow> [go_to i HandlerDone (notify_owner i srv)]
      | HandlerDone \<Rightarrow> [])"

section \<open>The other goroutines\<close>

definition writer_exec :: "nat \<Rightarrow> 'o server \<Rightarrow> 'o server list" where
  "writer_exec i srv =
     map (\<lambda>(c, p). upd_session i (\<lambda>s. s\<lparr>writer := c, writer_at := p\<rparr>) (srv\<lparr>ReqStats := stats c\<rparr>))
       (cw_exec ((writer (sessions srv ! i))\<lparr>stats := ReqStats srv\<rparr>) (writer_at (sessions srv ! i)))"

fun ReqWorkConnFunc :: "'o server \<Rightarrow> refill_pc \<Rightarrow> ('o server \<times> refill_pc option) list" where
  "ReqWorkConnFunc srv (RefillLookup rid) =
     [case GetEntry (controls srv) rid of
        None \<Rightarrow> (srv, None)
      | Some e \<Rightarrow> (srv\<lparr>ReqStats := count_requested (ReqStats srv)\<rparr>, Some (RefillSend e))]"
| "ReqWorkConnFunc srv (RefillSend e) =
     map (\<lambda>(ch, ok). (upd_session (entry_reqCh e) (writer_update (reqCh_update (\<lambda>_. ch))) srv, Some (RefillCount ok)))
       (SendReqWorkConn (reqCh (writer (sessions srv ! entry_reqCh e))) (cwdone (writer (sessions srv ! entry_done e))))"
| "ReqWorkConnFunc srv (RefillCount ok) =
     [(srv\<lparr>ReqStats := (if ok then count_enqueued (ReqStats srv) else count_dropped (ReqStats srv))\<rparr>, None)]"

definition conn_write :: "sink \<Rightarrow> bytes \<Rightarrow> sink \<times> unit option" where
  "conn_write s p = (case sink_write s p of (s', n, err) \<Rightarrow> (s', if err then Some () else None))"

text \<open>\<open>others\<close> is what the rest of the program may do to the owner's state.\<close>

inductive server_step ::
  "(bytes \<Rightarrow> bytes \<Rightarrow> nat \<Rightarrow> nat \<Rightarrow> bytes) \<Rightarrow> ('o \<Rightarrow> 'o \<Rightarrow> bool) \<Rightarrow> 'o server \<Rightarrow> 'o server \<Rightarrow> bool"
  for pbkdf2 others where
  accept: "HandleConnection pbkdf2 conn_write iv rnd w inbound c srv = (w', srv', es) \<Longrightarrow> length rnd = 8 \<Longrightarrow>
     server_step pbkdf2 others srv srv'"
| handler: "i < length (sessions srv) \<Longrightarrow> srv' \<in> set (handler_exec i srv) \<Longrightarrow> server_step pbkdf2 others srv srv'"
| control: "i < length (sessions srv) \<Longrightarrow> handler_at (sessions srv ! i) = ReadControl \<Longrightarrow>
     (conn_closed (sessions srv ! i) \<Longrightarrow> \<exists>e. r = Inl e) \<Longrightarrow>
     server_step pbkdf2 others srv (controlLoop i r srv)"
| route: "i < length (sessions srv) \<Longrightarrow> handler_at (sessions srv ! i) = RemoveRoutes names \<Longrightarrow> n \<in> names \<Longrightarrow>
     server_step pbkdf2 others srv (go_to i (RemoveRoutes (names - {n})) (remove_route n srv))"
| watch: "i < length (sessions srv) \<Longrightarrow> watcher (sessions srv ! i) \<Longrightarrow> cwdone (writer (sessions srv ! i)) \<Longrightarrow>
     server_step pbkdf2 others srv (upd_session i (\<lambda>s. s\<lparr>conn_closed := True, watcher := False\<rparr>) srv)"
| heartbeat_tick: "i < length (sessions srv) \<Longrightarrow> heartbeatTimer (sessions srv ! i) = Some (TimerArmed d) \<Longrightarrow>
     server_step pbkdf2 others srv (upd_session i (heartbeatTimer_update (\<lambda>_. Some TimerFired)) srv)"
| heartbeat: "i < length (sessions srv) \<Longrightarrow> heartbeatTimer (sessions srv ! i) = Some TimerFired \<Longrightarrow>
     heartbeat_waits (sessions srv ! i) \<Longrightarrow>
     server_step pbkdf2 others srv
       (upd_session i (\<lambda>s. s\<lparr>conn_closed := True, heartbeatTimer := Some TimerStopped, heartbeat_waits := False\<rparr>) srv)"
| writes: "i < length (sessions srv) \<Longrightarrow> srv' \<in> set (writer_exec i srv) \<Longrightarrow> server_step pbkdf2 others srv srv'"
| flush_tick: "i < length (sessions srv) \<Longrightarrow> flushTimer (writer (sessions srv ! i)) = TimerArmed d \<Longrightarrow>
     server_step pbkdf2 others srv (upd_session i (writer_update (flushTimer_update (\<lambda>_. TimerFired))) srv)"
| break: "i < length (sessions srv) \<Longrightarrow> room (wr (bw (writer (sessions srv ! i)))) = None \<Longrightarrow>
     server_step pbkdf2 others srv
       (upd_session i (writer_update (bw_update (wr_update (room_update (\<lambda>_. Some k))))) srv)"
| refill_call: "server_step pbkdf2 others srv (srv\<lparr>refills := add_mset (RefillLookup rid) (refills srv)\<rparr>)"
| refill: "refills srv = add_mset t M \<Longrightarrow> (srv', k) \<in> set (ReqWorkConnFunc srv t) \<Longrightarrow>
     server_step pbkdf2 others srv
       (srv'\<lparr>refills := M + (case k of None \<Rightarrow> {#} | Some t' \<Rightarrow> {#t'#})\<rparr>)"
| owner_moves: "others (owner_state srv) o' \<Longrightarrow> server_step pbkdf2 others srv (srv\<lparr>owner_state := o'\<rparr>)"

text \<open>A server that has just been set up.\<close>

definition fresh :: "'o server \<Rightarrow> bool" where
  "fresh srv \<longleftrightarrow> controls srv = None \<and> sessions srv = [] \<and> refills srv = {#} \<and>
     (case HRouter srv of None \<Rightarrow> True | Some r \<Rightarrow> r = New) \<and>
     (case ReqStats srv of None \<Rightarrow> True | Some st \<Rightarrow> st = zero_stats)"

definition server_reachable ::
  "(bytes \<Rightarrow> bytes \<Rightarrow> nat \<Rightarrow> nat \<Rightarrow> bytes) \<Rightarrow> ('o \<Rightarrow> 'o \<Rightarrow> bool) \<Rightarrow> 'o server \<Rightarrow> bool" where
  "server_reachable pbkdf2 others srv \<longleftrightarrow> (\<exists>srv0. fresh srv0 \<and> (server_step pbkdf2 others)\<^sup>*\<^sup>* srv0 srv)"

section \<open>Lemmas: what the writer may change\<close>

definition drained :: "'a chan \<Rightarrow> 'a chan \<Rightarrow> bool" where
  "drained ch ch' \<longleftrightarrow> chcap ch' = chcap ch \<and> chclosed ch' = chclosed ch \<and> suffix (buf ch') (buf ch)"

definition writer_frame :: "controlWriter \<Rightarrow> controlWriter \<Rightarrow> bool" where
  "writer_frame c c' \<longleftrightarrow> cwdone c' = cwdone c \<and> drained (reqCh c) (reqCh c') \<and> drained (sendCh c) (sendCh c') \<and>
     (\<exists>n. stats c' = count_sent n (stats c))"

lemma drained_refl [simp]: "drained ch ch"
  by (simp add: drained_def)

lemma drained_trans: "drained a b \<Longrightarrow> drained b c \<Longrightarrow> drained a c"
  by (auto simp: drained_def)

lemma count_sent_add: "count_sent a (count_sent b st) = count_sent (a + b) st"
  by (cases st) (simp_all add: count_sent_def)

lemma writer_frame_trans: "writer_frame a b \<Longrightarrow> writer_frame b c \<Longrightarrow> writer_frame a c"
  unfolding writer_frame_def using count_sent_add by (metis drained_trans)

lemma writer_frameI:
  "cwdone c' = cwdone c \<Longrightarrow> reqCh c' = reqCh c \<Longrightarrow> sendCh c' = sendCh c \<Longrightarrow> stats c' = stats c \<Longrightarrow> writer_frame c c'"
  unfolding writer_frame_def by (metis count_sent_0 drained_refl)

lemma flush_frame: "writer_frame c (fst (flush c))"
  by (auto intro!: writer_frameI simp: flush_def split: prod.split)

lemma write_msg_frame: "writer_frame c (fst (write_msg c m))"
  by (auto intro!: writer_frameI simp: write_msg_def split: prod.split)

lemma writeReq_frame: "writer_frame c (fst (writeReq c n))"
proof (cases "n \<le> 0")
  case False
  let ?c = "c\<lparr>stats := count_sent n (stats c)\<rparr>"
  obtain c2 e where w: "write_msg ?c (ReqWorkConn \<lparr>reqworkconn_Count = int n\<rparr>) = (c2, e)" by fastforce
  have "writer_frame c ?c"
    by (auto simp: writer_frame_def)
  moreover have "writer_frame ?c c2"
    using write_msg_frame [of ?c] w by (metis fst_conv)
  moreover have "writer_frame c2 (fst (writeReq c n))"
    using False w by (auto simp: writeReq_def Let_def intro!: writer_frameI)
  ultimately show ?thesis by (blast intro: writer_frame_trans)
qed (simp add: writeReq_def writer_frameI)

lemma finish_batch_frame: "writer_frame c (fst (finish_batch c limit n))"
proof -
  obtain c1 e where w: "writeReq c n = (c1, e)" by fastforce
  with writeReq_frame [of c n] have "writer_frame c c1" by simp
  then show ?thesis
    using w flush_frame [of c1] by (cases e) (auto simp: finish_batch_def intro: writer_frame_trans)
qed

lemma writeResponse_frame: "writer_frame c (fst (writeResponse c m))"
proof -
  obtain c1 e where f: "flush c = (c1, e)" by fastforce
  with flush_frame [of c] have 1: "writer_frame c c1" by simp
  obtain c2 e2 where w: "write_msg c1 m = (c2, e2)" by fastforce
  with write_msg_frame [of c1 m] 1 have 2: "writer_frame c c2" by (auto intro: writer_frame_trans)
  have "writer_frame c2 (fst (flush (c2\<lparr>pendingFlush := True\<rparr>)))"
    by (rule writer_frame_trans [OF writer_frameI flush_frame]) simp_all
  with 1 2 f w show ?thesis
    by (cases e; cases e2) (auto simp: writeResponse_def intro: writer_frame_trans)
qed

lemma chan_recv_drained: "chan_recv ch = Received x ch' \<Longrightarrow> drained ch ch'"
  by (auto simp: chan_recv_Received drained_def suffix_ConsI)

lemma writer_frame_queues:
  "cwdone c' = cwdone c \<Longrightarrow> drained (reqCh c) (reqCh c') \<Longrightarrow> drained (sendCh c) (sendCh c') \<Longrightarrow> stats c' = stats c \<Longrightarrow>
   writer_frame c c'"
  unfolding writer_frame_def by (metis count_sent_0)

lemma take_req_frame: "take_req c = Some c' \<Longrightarrow> writer_frame c c'"
proof -
  assume "take_req c = Some c'"
  then obtain ch where ch: "chan_recv (reqCh c) = Received () ch" "c' = c\<lparr>reqCh := ch\<rparr>"
    by (cases "chan_recv (reqCh c)") (simp_all add: take_req_def)
  have "drained (reqCh c) ch"
    by (rule chan_recv_drained [OF ch(1)])
  with ch(2) show ?thesis
    by (intro writer_frame_queues) simp_all
qed

lemma continue_unless_frame: "writer_frame c (fst r) \<Longrightarrow> writer_frame c (fst (continue_unless r p))"
proof -
  assume "writer_frame c (fst r)"
  moreover have "writer_frame (fst r) (fst (continue_unless r p))"
    by (cases r) (simp add: continue_unless_def stop_def writer_frameI)
  ultimately show ?thesis by (rule writer_frame_trans)
qed

lemma cw_exec_frame:
  assumes "(c', p') \<in> set (cw_exec c p)" shows "writer_frame c c'"
proof -
  have "writer_frame c (fst x)" if "x \<in> set (cw_exec c p)" for x
  proof (cases p)
    case LoopTop
    with that show ?thesis by (auto simp: stop_def writer_frameI)
  next
    case FastSelect
    with that show ?thesis by (auto simp: writer_frameI split: option.splits dest: take_req_frame)
  next
    case MainSelect
    have r: "writer_frame c (fst (continue_unless (writeResponse (c\<lparr>sendCh := ch\<rparr>) m) LoopTop))"
      if "Received m ch = chan_recv (sendCh c)" for m ch
      using chan_recv_drained [OF that [symmetric]]
      by (intro continue_unless_frame writer_frame_trans [OF _ writeResponse_frame] writer_frame_queues) simp_all
    have f: "writer_frame c (fst (continue_unless (flush (c\<lparr>flushTimer := TimerStopped\<rparr>)) LoopTop))"
      by (intro continue_unless_frame writer_frame_trans [OF _ flush_frame] writer_frameI) simp_all
    show ?thesis
      using that MainSelect take_req_frame [of c] r f
      by (auto simp: stop_def writer_frameI split: if_splits option.splits recv_outcome.splits)
  next
    case GotReq
    with that show ?thesis by (auto intro: continue_unless_frame writeReq_frame)
  next
    case BatchStart
    with that show ?thesis by (auto simp: Let_def writer_frameI)
  next
    case (Batching limit n)
    with that show ?thesis
      using take_req_frame [of c]
      by (auto simp: writer_frameI split: if_splits option.splits
          intro!: continue_unless_frame writeReq_frame finish_batch_frame)
  next
    case Stopped
    with that show ?thesis by simp
  qed
  from this [OF assms] show ?thesis by simp
qed

end
