(* ===== verification/Sessions.thy ===== *)
theory Sessions
  imports Handle
begin

text \<open>
  What holds of the control sessions in every reachable state of the server (\<^verbatim>\<open>internal/server/handle.go\<close>,
  \<^verbatim>\<open>control_manager.go\<close>): \<open>evolves\<close> bounds what any step of any goroutine does to a session, from which the
  well-formedness, authentication, liveness and accounting invariants follow; then the functional
  behaviour of the cleanup, and the ways in which a session can be blocked for good.
\<close>

section \<open>How a session changes\<close>

definition queue_ok :: "nat \<Rightarrow> 'a chan \<Rightarrow> bool" where
  "queue_ok n ch \<longleftrightarrow> \<not> chclosed ch \<and> chcap ch = n \<and> length (buf ch) \<le> n"

definition queues_ok :: "controlWriter \<Rightarrow> bool" where
  "queues_ok c \<longleftrightarrow> queue_ok controlReqChSize (reqCh c) \<and> queue_ok controlSendChSize (sendCh c)"

definition evolves :: "session \<Rightarrow> session \<Rightarrow> bool" where
  "evolves s s' \<longleftrightarrow> login s' = login s \<and> runID s' = runID s \<and>
     (cwdone (writer s) \<longrightarrow> cwdone (writer s')) \<and> (queues_ok (writer s) \<longrightarrow> queues_ok (writer s'))"

definition server_evolves :: "'o server \<Rightarrow> 'o server \<Rightarrow> bool" where
  "server_evolves srv srv' \<longleftrightarrow> Token srv' = Token srv \<and> HeartbeatTimeout srv' = HeartbeatTimeout srv \<and>
     OnWorkConn srv' = OnWorkConn srv \<and> OnControlClose srv' = OnControlClose srv \<and>
     length (sessions srv) \<le> length (sessions srv') \<and>
     (\<forall>i < length (sessions srv). evolves (sessions srv ! i) (sessions srv' ! i))"

lemma upd_session_simps [simp]:
  "sessions (upd_session i f srv) = (sessions srv)[i := f (sessions srv ! i)]"
  "Token (upd_session i f srv) = Token srv" "HeartbeatTimeout (upd_session i f srv) = HeartbeatTimeout srv"
  "OnWorkConn (upd_session i f srv) = OnWorkConn srv" "OnControlClose (upd_session i f srv) = OnControlClose srv"
  "HRouter (upd_session i f srv) = HRouter srv" "ReqStats (upd_session i f srv) = ReqStats srv"
  "controls (upd_session i f srv) = controls srv" "owner_state (upd_session i f srv) = owner_state srv"
  "refills (upd_session i f srv) = refills srv" "ReadTimeout (upd_session i f srv) = ReadTimeout srv"
  by (simp_all add: upd_session_def)

lemmas step_defs = go_to_def cancel_session_def drop_entry_def remove_route_def notify_owner_def
  start_controlLoop_def register_session_def

lemma evolves_refl [simp]: "evolves s s"
  by (simp add: evolves_def)

lemma evolves_trans: "evolves a b \<Longrightarrow> evolves b c \<Longrightarrow> evolves a c"
  by (auto simp: evolves_def)

lemma server_evolves_refl [simp]: "server_evolves srv srv"
  by (simp add: server_evolves_def)

lemma server_evolves_trans: "server_evolves a b \<Longrightarrow> server_evolves b c \<Longrightarrow> server_evolves a c"
  by (force simp: server_evolves_def intro: evolves_trans)

lemma server_evolves_upd:
  assumes "server_evolves srv srv1" "length (sessions srv1) = length (sessions srv)"
    and "\<And>s. i < length (sessions srv) \<Longrightarrow> s = sessions srv1 ! i \<Longrightarrow> evolves s (f s)"
  shows "server_evolves srv (upd_session i f srv1)"
proof -
  have "evolves (sessions srv ! j) ((sessions srv1)[i := f (sessions srv1 ! i)] ! j)" if "j < length (sessions srv)" for j
  proof (cases "j = i")
    case True
    then show ?thesis
      using that assms(1,2) assms(3) [OF _ refl] by (auto simp: server_evolves_def intro: evolves_trans)
  qed (use that assms(1) in \<open>simp add: server_evolves_def\<close>)
  then show ?thesis
    using assms(1,2) by (simp add: server_evolves_def)
qed

lemma evolves_same_writer: "login s' = login s \<Longrightarrow> runID s' = runID s \<Longrightarrow> writer s' = writer s \<Longrightarrow> evolves s s'"
  by (simp add: evolves_def)

lemma queue_ok_drained: "queue_ok n ch \<Longrightarrow> drained ch ch' \<Longrightarrow> queue_ok n ch'"
  by (auto simp: queue_ok_def drained_def dest: suffix_length_le)

lemma queue_ok_Sent: "queue_ok n ch \<Longrightarrow> chan_send ch x = Sent ch' \<Longrightarrow> queue_ok n ch'"
  by (auto simp: queue_ok_def chan_send_Sent)

lemma evolves_writer_frame:
  "writer_frame (writer s) c \<Longrightarrow> evolves s (s\<lparr>writer := c, writer_at := p\<rparr>)"
  by (auto simp: evolves_def writer_frame_def queues_ok_def intro: queue_ok_drained)

text \<open>Steps that open no session.\<close>

definition keeps :: "'o server \<Rightarrow> 'o server \<Rightarrow> bool" where
  "keeps srv srv' \<longleftrightarrow> server_evolves srv srv' \<and> length (sessions srv') = length (sessions srv)"

lemma keeps_upd:
  "keeps srv srv1 \<Longrightarrow> (i < length (sessions srv) \<Longrightarrow> evolves (sessions srv1 ! i) (f (sessions srv1 ! i))) \<Longrightarrow>
   keeps srv (upd_session i f srv1)"
  by (auto simp: keeps_def intro: server_evolves_upd)

lemma keeps_fields [intro]:
  "keeps srv srv1 \<Longrightarrow> keeps srv (srv1\<lparr>HRouter := rt\<rparr>)" "keeps srv srv1 \<Longrightarrow> keeps srv (srv1\<lparr>ReqStats := st\<rparr>)"
  "keeps srv srv1 \<Longrightarrow> keeps srv (srv1\<lparr>controls := cm\<rparr>)" "keeps srv srv1 \<Longrightarrow> keeps srv (srv1\<lparr>owner_state := o'\<rparr>)"
  "keeps srv srv1 \<Longrightarrow> keeps srv (srv1\<lparr>refills := M\<rparr>)" "keeps srv srv"
  by (simp_all add: keeps_def server_evolves_def)

lemma keeps_go [intro]: "keeps srv srv1 \<Longrightarrow> keeps srv (go_to i p srv1)"
  unfolding go_to_def by (rule keeps_upd) (simp_all add: evolves_same_writer)

lemma keeps_cancel [intro]: "keeps srv srv1 \<Longrightarrow> keeps srv (cancel_session i srv1)"
  unfolding cancel_session_def by (rule keeps_upd) (simp_all add: evolves_def queues_ok_def)

lemma keeps_fold: "(\<And>x t. keeps srv t \<Longrightarrow> keeps srv (f x t)) \<Longrightarrow> keeps srv t \<Longrightarrow> keeps srv (fold f xs t)"
  by (induction xs arbitrary: t) simp_all

lemma keeps_start [intro]: "keeps srv srv1 \<Longrightarrow> keeps srv (start_controlLoop i srv1)"
  unfolding start_controlLoop_def by (rule keeps_upd) (simp_all add: evolves_same_writer)

lemma keeps_register: "keeps srv (register_session i srv)"
  unfolding register_session_def by (auto intro!: keeps_start keeps_fold split: prod.split)

lemma keeps_cleanup [intro]:
  "keeps srv srv1 \<Longrightarrow> keeps srv (drop_entry i srv1)" "keeps srv srv1 \<Longrightarrow> keeps srv (remove_route n srv1)"
  "keeps srv srv1 \<Longrightarrow> keeps srv (notify_owner i srv1)"
  by (auto simp: drop_entry_def remove_route_def notify_owner_def split: option.split)

lemma keeps_controlLoop: "keeps srv (controlLoop i r srv)"
  unfolding controlLoop_def Let_def
  by (auto intro!: keeps_upd simp: evolves_same_writer split: sum.split Message.split prod.split)

lemma evolves_reqCh:
  "chan_send (reqCh (writer s)) () = Sent ch \<Longrightarrow> evolves s (writer_update (reqCh_update (\<lambda>_. ch)) s)"
  by (auto simp: evolves_def queues_ok_def intro: queue_ok_Sent)

lemma evolves_sendCh:
  "chan_send (sendCh (writer s)) m = Sent ch \<Longrightarrow> evolves s (writer_update (sendCh_update (\<lambda>_. ch)) s)"
  by (auto simp: evolves_def queues_ok_def intro: queue_ok_Sent)

lemma keeps_handler: "srv' \<in> set (handler_exec i srv) \<Longrightarrow> keeps srv srv'"
  by (auto simp: handler_exec_def send_reply_def keeps_register split: hpc.splits if_splits send_outcome.splits
      intro!: keeps_go keeps_upd evolves_reqCh evolves_sendCh)

lemma keeps_writer: "srv' \<in> set (writer_exec i srv) \<Longrightarrow> keeps srv srv'"
proof -
  assume "srv' \<in> set (writer_exec i srv)"
  then obtain c p where cp: "(c, p) \<in> set (cw_exec ((writer (sessions srv ! i))\<lparr>stats := ReqStats srv\<rparr>) (writer_at (sessions srv ! i)))"
    and srv': "srv' = upd_session i (\<lambda>s. s\<lparr>writer := c, writer_at := p\<rparr>) (srv\<lparr>ReqStats := stats c\<rparr>)"
    by (auto simp: writer_exec_def)
  have "evolves (sessions srv ! i) ((sessions srv ! i)\<lparr>writer := c, writer_at := p\<rparr>)"
    using cw_exec_frame [OF cp]
    by (auto simp: evolves_def writer_frame_def queues_ok_def intro: queue_ok_drained)
  then show ?thesis
    unfolding srv' by (intro keeps_upd) auto
qed

lemma keeps_refill: "(srv', k) \<in> set (ReqWorkConnFunc srv t) \<Longrightarrow> keeps srv srv'"
proof (cases t)
  case (RefillSend e)
  let ?s = "sessions srv ! entry_reqCh e"
  assume "(srv', k) \<in> set (ReqWorkConnFunc srv t)"
  then obtain ch ok where "(ch, ok) \<in> set (SendReqWorkConn (reqCh (writer ?s)) (cwdone (writer (sessions srv ! entry_done e))))"
    and srv': "srv' = upd_session (entry_reqCh e) (writer_update (reqCh_update (\<lambda>_. ch))) srv"
    using RefillSend by auto
  then have "chan_send (reqCh (writer ?s)) () = Sent ch \<or> ch = reqCh (writer ?s)"
    by (auto simp: SendReqWorkConn_outcomes split: if_splits)
  then have "evolves ?s (writer_update (reqCh_update (\<lambda>_. ch)) ?s)"
    using evolves_reqCh by (elim disjE) (blast, simp add: evolves_def queues_ok_def)
  then show ?thesis
    unfolding srv' by (intro keeps_upd) auto
qed (auto split: option.splits)

text \<open>A new session comes from a \<open>Login\<close> with a valid key.\<close>

definition opened :: "'o server \<Rightarrow> 'o server \<Rightarrow> bool" where
  "opened srv srv' \<longleftrightarrow> (\<exists>m rid. VerifyAuth (Token srv) (login_Timestamp m) (login_PrivilegeKey m) \<and> rid \<noteq> [] \<and>
     (login_RunID m \<noteq> [] \<longrightarrow> rid = login_RunID m) \<and>
     srv' = srv\<lparr>sessions := sessions srv @ [new_session srv m rid]\<rparr>)"

lemma handleLogin_cases:
  assumes "handleLogin pbkdf2 write iv rnd w inbound m srv = (w', srv', es)" "length rnd = 8"
  shows "srv' = srv \<and> es = [ConnClosed] \<or> opened srv srv' \<and> es = []"
proof -
  have "generateRunID rnd \<noteq> []"
    using assms(2) length_fmt_x [of rnd] unfolding generateRunID_def by (metis length_0_conv mult_is_0 zero_neq_numeral)
  then show ?thesis
    using assms(1) by (auto simp: handleLogin_def opened_def Let_def split: if_splits prod.splits sum.splits)
qed

lemma HandleConnection_cases:
  assumes "HandleConnection pbkdf2 write iv rnd w inbound c srv = (w', srv', es)" "length rnd = 8"
  obtains "srv' = srv" | "opened srv srv'" | f m where "OnWorkConn srv = Some f" "srv' = srv\<lparr>owner_state := f (owner_state srv) c m\<rparr>"
proof -
  have "srv' = srv \<or> opened srv srv' \<or> (\<exists>f m. OnWorkConn srv = Some f \<and> srv' = srv\<lparr>owner_state := f (owner_state srv) c m\<rparr>)"
    using assms(1)
    by (auto simp: HandleConnection_def Let_def split: sum.splits prod.splits Message.splits option.splits
        dest: handleLogin_cases [OF _ assms(2)])
  then show thesis using that by blast
qed

theorem server_step_evolves:
  assumes "server_step pbkdf2 others srv srv'"
  shows "keeps srv srv' \<or> opened srv srv'"
  using assms
proof cases
  case (accept iv rnd w inbound c w' es)
  then show ?thesis
    by (elim HandleConnection_cases) auto
next
  case (handler i)
  then show ?thesis by (blast intro: keeps_handler)
next
  case (control i r)
  then show ?thesis by (simp add: keeps_controlLoop)
next
  case (writes i)
  then show ?thesis by (blast intro: keeps_writer)
next
  case (refill t M srv1 k)
  then show ?thesis by (auto intro!: keeps_fields dest: keeps_refill)
qed (auto intro!: keeps_upd simp: evolves_def queues_ok_def)

section \<open>Invariants\<close>

lemma server_invariant [consumes 1, case_names fresh step]:
  assumes "server_reachable pbkdf2 others srv" "\<And>srv. fresh srv \<Longrightarrow> P srv"
    and "\<And>srv srv'. server_step pbkdf2 others srv srv' \<Longrightarrow> P srv \<Longrightarrow> P srv'"
  shows "P srv"
proof -
  obtain srv0 where "fresh srv0" "(server_step pbkdf2 others)\<^sup>*\<^sup>* srv0 srv"
    using assms(1) by (auto simp: server_reachable_def)
  from this(2,1) show ?thesis
    by induction (auto intro: assms(2,3))
qed

definition authentic :: "string \<Rightarrow> session \<Rightarrow> bool" where
  "authentic tok s \<longleftrightarrow> VerifyAuth tok (login_Timestamp (login s)) (login_PrivilegeKey (login s)) \<and> runID s \<noteq> [] \<and>
     (login_RunID (login s) \<noteq> [] \<longrightarrow> runID s = login_RunID (login s))"

definition sessions_inv :: "'o server \<Rightarrow> bool" where
  "sessions_inv srv \<longleftrightarrow> (\<forall>s \<in> set (sessions srv). authentic (Token srv) s \<and> queues_ok (writer s))"

lemma queues_ok_new: "queues_ok (writer (new_session srv m rid))"
  by (simp add: new_session_def sendLoop_def queues_ok_def queue_ok_def make_chan_def)

lemma sessions_inv_keeps: "keeps srv srv' \<Longrightarrow> sessions_inv srv \<Longrightarrow> sessions_inv srv'"
  unfolding sessions_inv_def authentic_def keeps_def server_evolves_def evolves_def by (metis in_set_conv_nth)

lemma sessions_inv_reachable: "server_reachable pbkdf2 others srv \<Longrightarrow> sessions_inv srv"
proof (induction rule: server_invariant)
  case (fresh srv)
  then show ?case by (simp add: fresh_def sessions_inv_def)
next
  case (step srv srv')
  from server_step_evolves [OF step(1)] show ?case
  proof
    assume "opened srv srv'"
    with step(2) show ?thesis
      by (auto simp: opened_def sessions_inv_def queues_ok_new) (simp_all add: authentic_def new_session_def)
  qed (rule sessions_inv_keeps [OF _ step(2)])
qed

subsection \<open>Routes\<close>

definition routes_within :: "string set \<Rightarrow> Router option \<Rightarrow> bool" where
  "routes_within rids rt \<longleftrightarrow> (\<forall>r. rt = Some r \<longrightarrow> router_wf r \<and> (\<forall>k cfg. routes_of r k = Some cfg \<longrightarrow> RunID cfg \<in> rids))"

lemma routes_within_mono: "routes_within A rt \<Longrightarrow> A \<subseteq> B \<Longrightarrow> routes_within B rt"
  by (auto simp: routes_within_def)

lemma routes_within_Remove: "routes_within A rt \<Longrightarrow> routes_within A (map_option (\<lambda>r. Remove r n) rt)"
  by (auto simp: routes_within_def routes_of_Remove router_wf_Remove split: option.splits if_splits)

lemma handleNewProxy_within:
  assumes "routes_within A rt" "rid \<in> A" shows "routes_within A (fst (handleNewProxy rt m rid reg))"
proof (cases rt)
  case (Some r)
  then have wf: "router_wf r" and A: "\<And>k cfg. routes_of r k = Some cfg \<Longrightarrow> RunID cfg \<in> A"
    using assms(1) by (auto simp: routes_within_def)
  have ext: "RunID cfg \<in> A" if "Proxy_Register.extend m rid (routes_of r) ks k = Some cfg" for ks k cfg
    using that A assms(2) by (auto simp: Proxy_Register.extend_def route_cfg_def split: if_splits)
  show ?thesis
  proof (cases "newproxy_ProxyType m = ''http''")
    case True
    from wf True show ?thesis
    proof (cases rule: handleNewProxy_cases [where reg = reg and runID = rid])
      case (failed dn r1 err)
      then have "routes_within A (Some r1)"
        using ext by (auto simp: routes_within_def inserted_upto_def)
      then have "routes_within A (Some (rolled_back m [] dn r1))"
        using routes_within_Remove [of A "Some r1"] by (simp add: rolled_back_def)
      with failed Some show ?thesis by simp
    qed (use Some ext in \<open>auto simp: routes_within_def\<close>)
  qed (use Some assms(1) in \<open>simp add: handleNewProxy_def Let_def\<close>)
qed (simp add: handleNewProxy_def routes_within_def Let_def)

text \<open>Which fields the actions leave alone.\<close>

lemma go_to_fields [simp]:
  "HRouter (go_to i p srv) = HRouter srv" "ReqStats (go_to i p srv) = ReqStats srv" "controls (go_to i p srv) = controls srv"
  "owner_state (go_to i p srv) = owner_state srv" "refills (go_to i p srv) = refills srv"
  "sessions (go_to i p srv) = (sessions srv)[i := (sessions srv ! i)\<lparr>handler_at := p\<rparr>]"
  by (simp_all add: go_to_def)

lemma cancel_fields [simp]:
  "HRouter (cancel_session i srv) = HRouter srv" "ReqStats (cancel_session i srv) = ReqStats srv"
  "controls (cancel_session i srv) = controls srv" "owner_state (cancel_session i srv) = owner_state srv"
  "refills (cancel_session i srv) = refills srv" "OnControlClose (cancel_session i srv) = OnControlClose srv"
  "HeartbeatTimeout (cancel_session i srv) = HeartbeatTimeout srv"
  "sessions (cancel_session i srv) = (sessions srv)[i := writer_update (cwdone_update (\<lambda>_. True)) (sessions srv ! i)]"
  by (simp_all add: cancel_session_def)

lemma start_fields [simp]:
  "HRouter (start_controlLoop i srv) = HRouter srv" "ReqStats (start_controlLoop i srv) = ReqStats srv"
  "controls (start_controlLoop i srv) = controls srv" "owner_state (start_controlLoop i srv) = owner_state srv"
  "refills (start_controlLoop i srv) = refills srv"
  by (simp_all add: start_controlLoop_def)

lemma cleanup_fields [simp]:
  "sessions (drop_entry i srv) = sessions srv" "HRouter (drop_entry i srv) = HRouter srv"
  "ReqStats (drop_entry i srv) = ReqStats srv" "refills (drop_entry i srv) = refills srv" "owner_state (drop_entry i srv) = owner_state srv"
  "controls (drop_entry i srv) = Remove_entry (controls srv) (runID (sessions srv ! i))"
  "OnControlClose (drop_entry i srv) = OnControlClose srv"
  "sessions (remove_route n srv) = sessions srv" "ReqStats (remove_route n srv) = ReqStats srv"
  "refills (remove_route n srv) = refills srv" "owner_state (remove_route n srv) = owner_state srv" "controls (remove_route n srv) = controls srv"
  "OnControlClose (remove_route n srv) = OnControlClose srv"
  "HRouter (remove_route n srv) = map_option (\<lambda>r. Remove r n) (HRouter srv)"
  "sessions (notify_owner i srv) = sessions srv" "HRouter (notify_owner i srv) = HRouter srv"
  "ReqStats (notify_owner i srv) = ReqStats srv" "refills (notify_owner i srv) = refills srv"
  "controls (notify_owner i srv) = controls srv"
  by (simp_all add: drop_entry_def remove_route_def notify_owner_def split: option.split)

text \<open>\<open>Register\<close> cancels at most one session, the one it displaces.\<close>

lemma register_session_eq:
  "register_session i srv =
     (let rid = runID (sessions srv ! i);
          srv1 = srv\<lparr>controls := set_entry rid (entry_of i) (controls srv)\<rparr>
      in start_controlLoop i
           (case GetEntry (controls srv) rid of Some old \<Rightarrow> cancel_session (entry_cancel old) srv1 | None \<Rightarrow> srv1))"
  by (simp add: register_session_def set_entry_def Let_def prod.case_eq_if Register_cancels split: option.split)

lemma register_fields [simp]:
  "HRouter (register_session i srv) = HRouter srv" "ReqStats (register_session i srv) = ReqStats srv"
  "refills (register_session i srv) = refills srv" "owner_state (register_session i srv) = owner_state srv"
  "controls (register_session i srv) = set_entry (runID (sessions srv ! i)) (entry_of i) (controls srv)"
  by (simp_all add: register_session_eq Let_def split: option.split)

lemma handler_exec_HRouter: "srv' \<in> set (handler_exec i srv) \<Longrightarrow> HRouter srv' = HRouter srv"
  by (auto simp: handler_exec_def send_reply_def split: hpc.splits if_splits send_outcome.splits)

lemma writer_exec_fields:
  "srv' \<in> set (writer_exec i srv) \<Longrightarrow> HRouter srv' = HRouter srv \<and> controls srv' = controls srv \<and>
     refills srv' = refills srv \<and> owner_state srv' = owner_state srv"
  by (auto simp: writer_exec_def)

lemma ReqWorkConnFunc_fields:
  "(srv', k) \<in> set (ReqWorkConnFunc srv t) \<Longrightarrow> HRouter srv' = HRouter srv \<and> controls srv' = controls srv \<and> owner_state srv' = owner_state srv"
  by (cases t) (auto split: option.splits)

definition run_ids :: "'o server \<Rightarrow> string set" where
  "run_ids srv = runID ` set (sessions srv)"

lemma run_ids_keeps: "keeps srv srv' \<Longrightarrow> run_ids srv' = run_ids srv"
proof -
  assume "keeps srv srv'"
  then have "map runID (sessions srv') = map runID (sessions srv)"
    by (intro nth_equalityI) (auto simp: keeps_def server_evolves_def evolves_def)
  then show ?thesis
    unfolding run_ids_def by (metis set_map)
qed

lemma run_ids_step: "server_step pbkdf2 others srv srv' \<Longrightarrow> run_ids srv \<subseteq> run_ids srv'"
  using server_step_evolves [of pbkdf2 others srv srv'] run_ids_keeps [of srv srv']
  by (auto simp: opened_def run_ids_def)

lemma routes_within_controlLoop:
  assumes "routes_within (run_ids srv) (HRouter srv)" "i < length (sessions srv)"
  shows "routes_within (run_ids srv) (HRouter (controlLoop i r srv))"
proof -
  have "runID (sessions srv ! i) \<in> run_ids srv"
    using assms(2) by (simp add: run_ids_def)
  from handleNewProxy_within [OF assms(1) this] assms(1) show ?thesis
    by (auto simp: controlLoop_def Let_def routes_within_Remove prod.case_eq_if split: sum.split Message.split)
qed

lemma routes_inv_reachable: "server_reachable pbkdf2 others srv \<Longrightarrow> routes_within (run_ids srv) (HRouter srv)"
proof (induction rule: server_invariant)
  case (fresh srv)
  then show ?case
    by (auto simp: fresh_def routes_within_def router_wf_New routes_of_New split: option.splits)
next
  case (step srv srv')
  have "routes_within (run_ids srv) (HRouter srv')"
    using step(1)
  proof cases
    case (accept iv rnd w inbound c w' es)
    with step(2) show ?thesis
      by (elim HandleConnection_cases) (auto simp: opened_def)
  next
    case (handler i)
    with step(2) show ?thesis by (simp add: handler_exec_HRouter)
  next
    case (writes i)
    with step(2) show ?thesis by (simp add: writer_exec_fields)
  next
    case (refill t M srv1 k)
    with step(2) show ?thesis by (simp add: ReqWorkConnFunc_fields)
  qed (use step(2) in \<open>simp_all add: routes_within_controlLoop routes_within_Remove\<close>)
  then show ?case
    by (rule routes_within_mono) (rule run_ids_step [OF step(1)])
qed

subsection \<open>Registered sessions are live\<close>

fun starting :: "hpc \<Rightarrow> bool" where
  "starting (BootCount n) = True" | "starting (BootSend n) = True" | "starting RegisterSession = True" | "starting _ = False"

fun in_loop :: "hpc \<Rightarrow> bool" where
  "in_loop ReadControl = True" | "in_loop (SendReply m) = True" | "in_loop CancelContext = True" | "in_loop _ = False"

definition serving :: "session \<Rightarrow> bool" where
  "serving s \<longleftrightarrow> \<not> cwdone (writer s) \<and> in_loop (handler_at s) \<or> handler_at s = RemoveEntry"

definition unstarted_ok :: "session \<Rightarrow> bool" where
  "unstarted_ok s \<longleftrightarrow> (starting (handler_at s) \<longrightarrow> \<not> cwdone (writer s))"

definition entry_ok :: "session list \<Rightarrow> string \<Rightarrow> controlEntry \<Rightarrow> bool" where
  "entry_ok ss rid e \<longleftrightarrow> (\<exists>i < length ss. e = entry_of i \<and> runID (ss ! i) = rid \<and> serving (ss ! i))"

definition live_inv :: "'o server \<Rightarrow> bool" where
  "live_inv srv \<longleftrightarrow> (\<forall>s \<in> set (sessions srv). unstarted_ok s) \<and>
     (\<forall>rid e. GetEntry (controls srv) rid = Some e \<longrightarrow> entry_ok (sessions srv) rid e)"

lemma live_entry:
  assumes "live_inv srv" "GetEntry (controls srv) rid = Some e"
  obtains j where "j < length (sessions srv)" "e = entry_of j" "runID (sessions srv ! j) = rid" "serving (sessions srv ! j)"
  using assms unfolding live_inv_def entry_ok_def by blast

lemma live_inv_upd:
  assumes "live_inv srv" "sessions srv1 = sessions srv" "controls srv1 = controls srv"
    and "\<And>s. i < length (sessions srv) \<Longrightarrow> s = sessions srv ! i \<Longrightarrow>
      runID (f s) = runID s \<and> (unstarted_ok s \<longrightarrow> unstarted_ok (f s)) \<and> (serving s \<longrightarrow> serving (f s))"
  shows "live_inv (upd_session i f srv1)"
proof (cases "i < length (sessions srv)")
  case True
  have "entry_ok ((sessions srv)[i := f (sessions srv ! i)]) rid e" if "GetEntry (controls srv) rid = Some e" for rid e
  proof -
    obtain j where j: "j < length (sessions srv)" "e = entry_of j" "runID (sessions srv ! j) = rid" "serving (sessions srv ! j)"
      using assms(1) \<open>GetEntry (controls srv) rid = Some e\<close> by (rule live_entry)
    then have "runID ((sessions srv)[i := f (sessions srv ! i)] ! j) = rid \<and> serving ((sessions srv)[i := f (sessions srv ! i)] ! j)"
      using assms(4) [OF True refl] by (cases "j = i") simp_all
    with j show ?thesis
      by (auto simp: entry_ok_def)
  qed
  then show ?thesis
    using assms True by (auto simp: live_inv_def dest!: set_update_subset_insert [THEN subsetD])
qed (use assms in \<open>simp add: live_inv_def list_update_beyond\<close>)

lemma live_inv_fields:
  "live_inv srv \<Longrightarrow> sessions srv1 = sessions srv \<Longrightarrow> controls srv1 = controls srv \<Longrightarrow> live_inv srv1"
  by (simp add: live_inv_def)

lemmas phase_defs = unstarted_ok_def serving_def

lemma entry_of_inject [simp]: "entry_of i = entry_of j \<longleftrightarrow> i = j"
  by (simp add: entry_of_def)

lemma entry_of_sel [simp]:
  "entry_cancel (entry_of i) = i" "entry_reqCh (entry_of i) = i" "entry_sendCh (entry_of i) = i" "entry_done (entry_of i) = i"
  by (simp_all add: entry_of_def)

lemma live_inv_register:
  assumes inv: "live_inv srv" and i: "i < length (sessions srv)" "handler_at (sessions srv ! i) = RegisterSession"
  shows "live_inv (register_session i srv)"
proof -
  let ?rid = "runID (sessions srv ! i)"
  define old where "old = GetEntry (controls srv) ?rid"
  define ss where "ss = (case old of None \<Rightarrow> sessions srv
    | Some e \<Rightarrow> (sessions srv)[entry_cancel e := writer_update (cwdone_update (\<lambda>_. True)) (sessions srv ! entry_cancel e)])"
  have not_i: "entry_cancel e \<noteq> i" "entry_cancel e < length (sessions srv)" "runID (sessions srv ! entry_cancel e) = ?rid"
      "\<not> starting (handler_at (sessions srv ! entry_cancel e))" if "old = Some e" for e
  proof -
    obtain j where "j < length (sessions srv)" "e = entry_of j" "runID (sessions srv ! j) = ?rid" "serving (sessions srv ! j)"
      using \<open>old = Some e\<close> unfolding old_def by (rule live_entry [OF inv])
    moreover from this(4) i(2) have "j \<noteq> i" by (auto simp: serving_def)
    moreover have "\<not> starting (handler_at (sessions srv ! j))"
      using \<open>serving (sessions srv ! j)\<close> by (cases "handler_at (sessions srv ! j)") (auto simp: serving_def)
    ultimately show "entry_cancel e \<noteq> i" "entry_cancel e < length (sessions srv)" "runID (sessions srv ! entry_cancel e) = ?rid"
      "\<not> starting (handler_at (sessions srv ! entry_cancel e))" by auto
  qed
  have len: "length ss = length (sessions srv)"
    by (simp add: ss_def split: option.split)
  have same: "ss ! j = sessions srv ! j" if "\<forall>e. old = Some e \<longrightarrow> entry_cancel e \<noteq> j" for j
    using that by (auto simp: ss_def split: option.split)
  have unst: "unstarted_ok s" if "s \<in> set ss" for s
    using that inv not_i(4)
    by (auto simp: ss_def live_inv_def phase_defs split: option.splits dest!: set_update_subset_insert [THEN subsetD])
  let ?f = "\<lambda>s. s\<lparr>handler_at := ReadControl, watcher := True,
      heartbeatTimer := (if HeartbeatTimeout srv > 0 then Some (TimerArmed (nat (HeartbeatTimeout srv))) else None),
      heartbeat_waits := HeartbeatTimeout srv > 0\<rparr>"
  have sess: "sessions (register_session i srv) = ss[i := ?f (ss ! i)]"
    by (simp add: register_session_eq Let_def start_controlLoop_def ss_def old_def split: option.split)
  have i_live: "ss ! i = sessions srv ! i" "\<not> cwdone (writer (sessions srv ! i))"
    using same not_i(1) inv i by (auto simp: live_inv_def phase_defs)
  have "entry_ok (ss[i := ?f (ss ! i)]) rid e" if e: "GetEntry (controls (register_session i srv)) rid = Some e" for rid e
  proof (cases "rid = ?rid")
    case True
    then have "e = entry_of i" using e by (simp add: set_entry_def)
    then show ?thesis
      using True i(1) i_live len by (auto simp: entry_ok_def serving_def intro: exI [of _ i])
  next
    case False
    then obtain j where j: "j < length (sessions srv)" "e = entry_of j" "runID (sessions srv ! j) = rid" "serving (sessions srv ! j)"
      using e by (auto simp: set_entry_def elim: live_entry [OF inv])
    then have "j \<noteq> i" using i(2) by (auto simp: serving_def)
    moreover have "ss ! j = sessions srv ! j"
      using False j(3) not_i(3) by (intro same) auto
    ultimately show ?thesis
      using j len by (auto simp: entry_ok_def intro: exI [of _ j])
  qed
  moreover have "unstarted_ok s" if "s \<in> set (ss[i := ?f (ss ! i)])" for s
    using that unst by (auto simp: unstarted_ok_def dest!: set_update_subset_insert [THEN subsetD])
  ultimately show ?thesis
    using sess by (auto simp: live_inv_def)
qed

lemma live_inv_drop:
  assumes inv: "live_inv srv" and "handler_at (sessions srv ! i) = RemoveEntry"
  shows "live_inv (go_to i (RemoveRoutes names) (drop_entry i srv))"
proof -
  let ?ss = "(sessions srv)[i := (sessions srv ! i)\<lparr>handler_at := RemoveRoutes names\<rparr>]"
  have "entry_ok ?ss rid e" if "GetEntry (Remove_entry (controls srv) (runID (sessions srv ! i))) rid = Some e" for rid e
  proof -
    from that have ne: "rid \<noteq> runID (sessions srv ! i)" and e: "GetEntry (controls srv) rid = Some e"
      by (auto split: if_splits)
    from e obtain j where j: "j < length (sessions srv)" "e = entry_of j" "runID (sessions srv ! j) = rid" "serving (sessions srv ! j)"
      by (rule live_entry [OF inv])
    with ne have "j \<noteq> i" by auto
    with j show ?thesis by (auto simp: entry_ok_def intro: exI [of _ j])
  qed
  then show ?thesis
    using inv by (auto simp: live_inv_def unstarted_ok_def dest!: set_update_subset_insert [THEN subsetD])
qed

lemma live_inv_opened:
  assumes inv: "live_inv srv" and "opened srv srv'" shows "live_inv srv'"
proof -
  obtain m rid where srv': "srv' = srv\<lparr>sessions := sessions srv @ [new_session srv m rid]\<rparr>"
    using assms(2) by (auto simp: opened_def)
  have "entry_ok (sessions srv @ [s]) k e" if "GetEntry (controls srv) k = Some e" for k e s
    using that by (rule live_entry [OF inv]) (auto simp: entry_ok_def nth_append intro!: exI)
  moreover have "unstarted_ok (new_session srv m rid)"
    by (simp add: new_session_def sendLoop_def unstarted_ok_def)
  ultimately show ?thesis
    using inv by (auto simp: srv' live_inv_def)
qed

lemma cancel_then_go:
  "i < length (sessions srv) \<Longrightarrow>
   go_to i p (cancel_session i srv) = upd_session i (\<lambda>s. (writer_update (cwdone_update (\<lambda>_. True)) s)\<lparr>handler_at := p\<rparr>) srv"
  by (simp add: upd_session_def go_to_def cancel_session_def)

lemma live_inv_go:
  assumes "live_inv srv" "sessions srv1 = sessions srv" "controls srv1 = controls srv"
    and "starting p \<Longrightarrow> starting (handler_at (sessions srv ! i))"
    and "in_loop (handler_at (sessions srv ! i)) \<or> handler_at (sessions srv ! i) = RemoveEntry \<Longrightarrow> in_loop p"
    and "handler_at (sessions srv ! i) \<noteq> RemoveEntry"
  shows "live_inv (go_to i p srv1)"
  unfolding go_to_def using assms by (intro live_inv_upd [OF assms(1-3)]) (auto simp: phase_defs)

lemma live_inv_handler:
  assumes inv: "live_inv srv" and i: "i < length (sessions srv)" and srv': "srv' \<in> set (handler_exec i srv)"
  shows "live_inv srv'"
proof (cases "handler_at (sessions srv ! i)")
  case (BootCount n)
  with srv' show ?thesis
    by (auto simp: handler_exec_def split: if_splits intro!: live_inv_go [OF inv])
next
  case (BootSend n)
  then obtain ch where "srv' = go_to i (BootCount (n - 1)) (upd_session i (writer_update (reqCh_update (\<lambda>_. ch))) srv)"
    using srv' by (auto simp: handler_exec_def split: send_outcome.splits)
  moreover have "live_inv (upd_session i (writer_update (reqCh_update (\<lambda>_. ch))) srv)"
    by (rule live_inv_upd [OF inv]) (auto simp: phase_defs)
  ultimately show ?thesis
    using BootSend i by (auto intro!: live_inv_go)
next
  case RegisterSession
  with srv' i inv show ?thesis
    by (auto simp: handler_exec_def intro: live_inv_register)
next
  case (SendReply m)
  then obtain ch where "srv' = go_to i ReadControl (upd_session i (writer_update (sendCh_update (\<lambda>_. ch))) srv)"
    using srv' by (auto simp: handler_exec_def send_reply_def split: send_outcome.splits)
  moreover have "live_inv (upd_session i (writer_update (sendCh_update (\<lambda>_. ch))) srv)"
    by (rule live_inv_upd [OF inv]) (auto simp: phase_defs)
  ultimately show ?thesis
    using SendReply i by (auto intro!: live_inv_go)
next
  case CancelContext
  with srv' i show ?thesis
    by (auto simp: handler_exec_def cancel_then_go phase_defs intro!: live_inv_upd [OF inv])
next
  case RemoveEntry
  with srv' show ?thesis
    by (auto simp: handler_exec_def intro: live_inv_drop [OF inv])
next
  case (RemoveRoutes names)
  with srv' show ?thesis
    by (auto simp: handler_exec_def split: if_splits intro!: live_inv_go [OF inv])
next
  case NotifyOwner
  with srv' show ?thesis
    by (auto simp: handler_exec_def intro!: live_inv_go [OF inv])
qed (use srv' in \<open>auto simp: handler_exec_def\<close>)

lemma live_inv_controlLoop:
  assumes "live_inv srv" "handler_at (sessions srv ! i) = ReadControl"
  shows "live_inv (controlLoop i r srv)"
  using assms(2) unfolding controlLoop_def Let_def
  by (auto simp: assms(1) phase_defs split: sum.split Message.split prod.split
      intro!: live_inv_upd [OF assms(1)])

lemma live_inv_writer:
  assumes "live_inv srv" "srv' \<in> set (writer_exec i srv)" shows "live_inv srv'"
  using assms(2)
  by (auto simp: writer_exec_def phase_defs writer_frame_def dest!: cw_exec_frame intro!: live_inv_upd [OF assms(1)])

lemma live_inv_refill:
  assumes "live_inv srv" "(srv', k) \<in> set (ReqWorkConnFunc srv t)" shows "live_inv srv'"
proof (cases t)
  case (RefillSend e)
  with assms(2) show ?thesis
    by (auto simp: phase_defs intro!: live_inv_upd [OF assms(1)])
qed (use assms(2) in \<open>auto split: option.splits intro!: live_inv_fields [OF assms(1)]\<close>)

lemma live_inv_step:
  assumes "server_step pbkdf2 others srv srv'" and inv: "live_inv srv" shows "live_inv srv'"
  using assms(1)
proof cases
    case (accept iv rnd w inbound c w' es)
    then show ?thesis
      by (elim HandleConnection_cases) (auto intro: live_inv_opened live_inv_fields inv)
  next
    case (route i names n)
    then show ?thesis by (auto intro!: live_inv_go [OF inv])
  next
    case (refill t M srv1 k)
    then show ?thesis by (auto intro: live_inv_fields live_inv_refill [OF inv])
  next
    case (handler i)
    then show ?thesis by (blast intro: live_inv_handler [OF inv])
  next
    case (control i r)
    then show ?thesis using live_inv_controlLoop [OF inv] by simp
  next
    case (writes i)
    then show ?thesis by (blast intro: live_inv_writer [OF inv])
  next
    case (refill_call rid)
    then show ?thesis by (auto intro: live_inv_fields [OF inv])
  next
    case (owner_moves o')
    then show ?thesis by (auto intro: live_inv_fields [OF inv])
qed (auto intro!: live_inv_upd [OF inv] simp: phase_defs)

lemma live_inv_fresh: "fresh srv \<Longrightarrow> live_inv srv"
  by (simp add: fresh_def live_inv_def)

lemma live_inv_reachable: "server_reachable pbkdf2 others srv \<Longrightarrow> live_inv srv"
  by (induction rule: server_invariant) (simp add: live_inv_fresh, rule live_inv_step)

subsection \<open>The counters\<close>

text \<open>A method that takes no signal off the queue and counts \<open>n\<close> as sent.\<close>

definition wrote :: "nat \<Rightarrow> controlWriter \<Rightarrow> controlWriter \<Rightarrow> bool" where
  "wrote n c c' \<longleftrightarrow> reqCh c' = reqCh c \<and> stats c' = count_sent n (stats c)"

lemma wrote_refl [simp]: "wrote 0 c c"
  by (simp add: wrote_def)

lemma wrote_trans: "wrote m a b \<Longrightarrow> wrote n b c \<Longrightarrow> wrote (n + m) a c"
  by (simp add: wrote_def count_sent_add)

lemma wrote_flush: "wrote 0 c (fst (flush c))"
  by (simp add: flush_def wrote_def split: prod.split)

lemma wrote_write_msg: "wrote 0 c (fst (write_msg c m))"
  by (simp add: write_msg_def wrote_def split: prod.split)

lemma wrote_writeReq: "wrote n c (fst (writeReq c n))"
proof (cases "n = 0")
  case False
  let ?c = "c\<lparr>stats := count_sent n (stats c)\<rparr>"
  have "wrote 0 ?c (fst (write_msg ?c (ReqWorkConn \<lparr>reqworkconn_Count = int n\<rparr>)))"
    by (rule wrote_write_msg)
  with False show ?thesis
    by (auto simp: writeReq_def Let_def wrote_def split: prod.split)
qed (simp add: writeReq_def)

lemma wrote_finish_batch: "wrote n c (fst (finish_batch c limit n))"
proof -
  obtain c1 e where w: "writeReq c n = (c1, e)" by fastforce
  with wrote_writeReq [of n c] have "wrote n c c1" by simp
  with w wrote_trans [OF this wrote_flush] show ?thesis
    by (cases e) (simp_all add: finish_batch_def)
qed

lemma wrote_writeResponse: "wrote 0 c (fst (writeResponse c m))"
proof -
  obtain c1 e where f: "flush c = (c1, e)" by fastforce
  with wrote_flush [of c] have 1: "wrote 0 c c1" by simp
  obtain c2 e2 where w: "write_msg c1 m = (c2, e2)" by fastforce
  with wrote_trans [OF 1 wrote_write_msg [of c1 m]] have 2: "wrote 0 c c2" by simp
  have "wrote 0 c (c2\<lparr>pendingFlush := True\<rparr>)"
    using 2 by (simp add: wrote_def)
  from wrote_trans [OF this wrote_flush] 1 2 f w show ?thesis
    by (cases e; cases e2) (simp_all add: writeResponse_def)
qed

lemma wrote_continue:
  "wrote n c (fst r) \<Longrightarrow> (c', p') = continue_unless r p \<Longrightarrow> wrote n c c' \<and> (p' = p \<or> p' = Stopped)"
  by (auto simp: continue_unless_def stop_def wrote_def split: prod.splits if_splits)


lemma cw_exec_signals:
  assumes "(c', p') \<in> set (cw_exec c p)"
  shows "\<exists>n. stats c' = count_sent n (stats c) \<and>
    length (buf (reqCh c)) + in_hand p = length (buf (reqCh c')) + in_hand p' + n"
proof -
  have quiet: ?thesis if "wrote (in_hand p) c c'" "in_hand p' = 0"
    using that by (auto simp: wrote_def)
  have took: "length (buf (reqCh c)) = Suc (length (buf (reqCh c1))) \<and> stats c1 = stats c" if "take_req c = Some c1" for c1
    using take_req_Some [OF that] by (auto simp: chan_len_def)
  have same: ?thesis if "c' = c" "in_hand p' = in_hand p"
    using that by (intro exI [of _ 0]) simp
  have took': ?thesis if "take_req c = Some c'" "in_hand p' = Suc (in_hand p)"
    using took [OF that(1)] that(2) by (intro exI [of _ 0]) simp
  show ?thesis
  proof (cases p)
    case LoopTop
    with assms show ?thesis by (intro quiet) (auto simp: stop_def wrote_def split: if_splits)
  next
    case FastSelect
    with assms consider "c' = c" "p' = MainSelect" | "take_req c = Some c'" "p' = GotReq"
      by (cases "take_req c") auto
    then show ?thesis
    proof cases
      case 1
      with FastSelect show ?thesis by (intro same) simp_all
    next
      case 2
      with FastSelect show ?thesis by (intro took') simp_all
    qed
  next
    case GotReq
    with assms have "wrote 1 c c' \<and> (p' = BatchStart \<or> p' = Stopped)"
      by (intro wrote_continue [OF wrote_writeReq [of 1 c]]) simp
    with GotReq show ?thesis by (intro quiet) auto
  next
    case BatchStart
    with assms show ?thesis by (auto simp: Let_def intro: same)
  next
    case (Batching limit n)
    show ?thesis
    proof (cases "n < limit")
      case True
      show ?thesis
      proof (cases "take_req c")
        case None
        have "n = 0 \<and> c' = c \<and> p' = LoopTop \<or> wrote n c c' \<and> (p' = LoopTop \<or> p' = Stopped)"
          using None True Batching assms by (auto split: if_splits dest: wrote_continue [OF wrote_writeReq [of n c]])
        with Batching show ?thesis
          by (intro quiet) auto
      next
        case (Some c1)
        with True Batching assms show ?thesis by (intro took') simp_all
      qed
    next
      case False
      with Batching assms have "wrote n c c' \<and> (p' = LoopTop \<or> p' = Stopped)"
        by (intro wrote_continue [OF wrote_finish_batch [of n c limit]]) simp
      with Batching show ?thesis by (intro quiet) auto
    qed
  next
    case MainSelect
    then consider "(c', p') = stop c" | "take_req c = Some c'" "p' = GotReq"
      | m ch where "(c', p') = continue_unless (writeResponse (c\<lparr>sendCh := ch\<rparr>) m) LoopTop"
      | "(c', p') = continue_unless (flush (c\<lparr>flushTimer := TimerStopped\<rparr>)) LoopTop"
      using assms by (auto split: if_splits option.splits recv_outcome.splits)
    then show ?thesis
    proof cases
      case 1
      with MainSelect show ?thesis by (intro quiet) (auto simp: stop_def wrote_def)
    next
      case 2
      with MainSelect show ?thesis by (intro took') simp_all
    next
      case (3 m ch)
      have "wrote 0 c (c\<lparr>sendCh := ch\<rparr>)" by (simp add: wrote_def)
      from wrote_continue [OF wrote_trans [OF this wrote_writeResponse] 3] MainSelect show ?thesis
        by (intro quiet) auto
    next
      case 4
      have "wrote 0 c (c\<lparr>flushTimer := TimerStopped\<rparr>)" by (simp add: wrote_def)
      from wrote_continue [OF wrote_trans [OF this wrote_flush] 4] MainSelect show ?thesis
        by (intro quiet) auto
    qed
  qed (use assms in simp)
qed

text \<open>
  The signals that a session still has to write: queued, in the writer's hands, and the one that the
  bootstrap has counted and not yet queued.
\<close>

fun boot_hand :: "hpc \<Rightarrow> nat" where
  "boot_hand (BootSend n) = 1" | "boot_hand _ = 0"

definition pending_signals :: "session \<Rightarrow> nat" where
  "pending_signals s = length (buf (reqCh (writer s))) + in_hand (writer_at s) + boot_hand (handler_at s)"

definition total_pending :: "'o server \<Rightarrow> nat" where
  "total_pending srv = sum_list (map pending_signals (sessions srv))"

text \<open>Calls that were counted as requested and not as enqueued or dropped; calls whose signal is already queued.\<close>

fun asked :: "refill_pc \<Rightarrow> nat" where
  "asked (RefillLookup rid) = 0" | "asked (RefillSend e) = 1" | "asked (RefillCount ok) = 1"

fun granted :: "refill_pc \<Rightarrow> nat" where
  "granted (RefillCount ok) = (if ok then 1 else 0)" | "granted _ = 0"

definition counts_agree :: "ReqWorkConnStats \<Rightarrow> refill_pc multiset \<Rightarrow> nat \<Rightarrow> bool" where
  "counts_agree st M pending \<longleftrightarrow>
     requested st = enqueued st + dropped st + (\<Sum>t\<in>#M. asked t) \<and>
     inflight st = int (enqueued st) - int (sent st) \<and>
     inflight st + int (\<Sum>t\<in>#M. granted t) = int pending"

definition counts_inv :: "'o server \<Rightarrow> bool" where
  "counts_inv srv \<longleftrightarrow> (\<forall>st. ReqStats srv = Some st \<longrightarrow> counts_agree st (refills srv) (total_pending srv)) \<and>
     (\<forall>e. RefillSend e \<in># refills srv \<longrightarrow> (\<exists>i < length (sessions srv). e = entry_of i))"

lemma sum_list_update_nat:
  fixes xs :: "nat list"
  shows "i < length xs \<Longrightarrow> sum_list (xs[i := x]) + xs ! i = sum_list xs + x"
  by (induction xs arbitrary: i) (auto split: nat.split)

lemma total_pending_upd:
  assumes "i < length (sessions srv)" "sessions srv1 = sessions srv"
  shows "total_pending (upd_session i f srv1) + pending_signals (sessions srv ! i) = total_pending srv + pending_signals (f (sessions srv ! i))"
  using assms sum_list_update_nat [of i "map pending_signals (sessions srv)" "pending_signals (f (sessions srv ! i))"]
  by (simp add: total_pending_def map_update)

lemma total_pending_same:
  assumes "map pending_signals (sessions srv') = map pending_signals (sessions srv)"
  shows "total_pending srv' = total_pending srv"
  using assms by (simp add: total_pending_def)

lemma total_pending_upd_same:
  assumes "sessions srv1 = sessions srv"
    and "\<And>s. i < length (sessions srv) \<Longrightarrow> s = sessions srv ! i \<Longrightarrow> pending_signals (f s) = pending_signals s"
  shows "total_pending (upd_session i f srv1) = total_pending srv"
proof (cases "i < length (sessions srv)")
  case True
  with total_pending_upd [OF True assms(1), of f] assms(2) show ?thesis by simp
qed (simp add: assms(1) total_pending_def list_update_beyond)

lemma counts_quiet:
  assumes "counts_inv srv" "ReqStats srv' = ReqStats srv" "refills srv' = refills srv"
    and "length (sessions srv') = length (sessions srv)" "total_pending srv' = total_pending srv"
  shows "counts_inv srv'"
  using assms by (simp add: counts_inv_def)

lemma total_pending_fields [simp]:
  "total_pending (srv\<lparr>HRouter := rt\<rparr>) = total_pending srv" "total_pending (srv\<lparr>ReqStats := st\<rparr>) = total_pending srv"
  "total_pending (srv\<lparr>controls := cm\<rparr>) = total_pending srv" "total_pending (srv\<lparr>owner_state := o'\<rparr>) = total_pending srv"
  "total_pending (srv\<lparr>refills := M\<rparr>) = total_pending srv" "total_pending (drop_entry i srv) = total_pending srv"
  "total_pending (remove_route n srv) = total_pending srv" "total_pending (notify_owner i srv) = total_pending srv"
  by (simp_all add: total_pending_def)

lemma total_pending_go:
  "boot_hand (handler_at (sessions srv ! i)) = boot_hand p \<Longrightarrow> total_pending (go_to i p srv) = total_pending srv"
  unfolding go_to_def by (rule total_pending_upd_same) (simp_all add: pending_signals_def)

lemma total_pending_cancel [simp]: "total_pending (cancel_session i srv) = total_pending srv"
  unfolding cancel_session_def by (rule total_pending_upd_same) (simp_all add: pending_signals_def)

lemma total_pending_register:
  assumes "handler_at (sessions srv ! i) = RegisterSession"
  shows "total_pending (register_session i srv) = total_pending srv"
proof -
  have start: "total_pending (start_controlLoop i t) = total_pending t" if "boot_hand (handler_at (sessions t ! i)) = 0" for t :: "'a server"
    unfolding start_controlLoop_def using that by (intro total_pending_upd_same) (simp_all add: pending_signals_def)
  have "handler_at (sessions (cancel_session j srv) ! i) = RegisterSession" for j
    using assms by (cases "j < length (sessions srv)"; cases "i = j") (simp_all add: list_update_beyond)
  then show ?thesis
    using assms by (auto simp: register_session_eq Let_def start split: option.split)
qed

lemma counts_handler:
  assumes inv: "counts_inv srv" and i: "i < length (sessions srv)" and srv': "srv' \<in> set (handler_exec i srv)"
  shows "counts_inv srv'"
proof -
  have len: "length (sessions srv') = length (sessions srv)"
    using keeps_handler [OF srv'] by (simp add: keeps_def)
  consider (count) n where "handler_at (sessions srv ! i) = BootCount n" "n \<noteq> 0"
    | (send) n where "handler_at (sessions srv ! i) = BootSend n"
    | (other) "total_pending srv' = total_pending srv" "ReqStats srv' = ReqStats srv" "refills srv' = refills srv"
  proof (cases "handler_at (sessions srv ! i)")
    case (BootCount n)
    then show thesis
      using that srv' by (cases "n = 0") (auto simp: handler_exec_def total_pending_go)
  next
    case (SendReply m)
    then obtain ch where eq: "srv' = go_to i ReadControl (upd_session i (writer_update (sendCh_update (\<lambda>_. ch))) srv)"
      using srv' by (auto simp: handler_exec_def send_reply_def split: send_outcome.splits)
    moreover have "total_pending (upd_session i (writer_update (sendCh_update (\<lambda>_. ch))) srv) = total_pending srv"
      by (rule total_pending_upd_same) (simp_all add: pending_signals_def)
    ultimately show thesis
      using i SendReply by (intro other) (simp_all add: total_pending_go)
  next
    case CancelContext
    then show thesis
      using srv' i by (intro other) (simp_all add: handler_exec_def total_pending_go)
  qed (use that srv' in \<open>auto simp: handler_exec_def total_pending_go total_pending_register split: if_splits\<close>)
  then show ?thesis
  proof cases
    case (count n)
    then have eq: "srv' = go_to i (BootSend n) (srv\<lparr>ReqStats := count_enqueued (count_requested (ReqStats srv))\<rparr>)"
      using srv' by (simp add: handler_exec_def)
    have "total_pending srv' = total_pending srv + 1"
      using total_pending_upd [OF i, of "srv\<lparr>ReqStats := count_enqueued (count_requested (ReqStats srv))\<rparr>"
          "handler_at_update (\<lambda>_. BootSend n)"] count(1)
      by (simp add: eq go_to_def pending_signals_def)
    then show ?thesis
      using inv eq by (auto simp: counts_inv_def counts_agree_def count_enqueued_def count_requested_def)
  next
    case (send n)
    then obtain ch where ch: "chan_send (reqCh (writer (sessions srv ! i))) () = Sent ch"
      and eq: "srv' = go_to i (BootCount (n - 1)) (upd_session i (writer_update (reqCh_update (\<lambda>_. ch))) srv)"
      using srv' by (cases "chan_send (reqCh (writer (sessions srv ! i))) ()") (simp_all add: handler_exec_def)
    let ?srv1 = "upd_session i (writer_update (reqCh_update (\<lambda>_. ch))) srv"
    have "total_pending ?srv1 = total_pending srv + 1"
      using total_pending_upd [OF i refl, of "writer_update (reqCh_update (\<lambda>_. ch))"] ch
      by (simp add: pending_signals_def chan_send_Sent)
    moreover have "total_pending srv' + 1 = total_pending ?srv1"
      using total_pending_upd [of i ?srv1 ?srv1 "handler_at_update (\<lambda>_. BootCount (n - 1))"] i send
      by (simp add: eq go_to_def pending_signals_def)
    ultimately show ?thesis
      using len eq by (intro counts_quiet [OF inv]) simp_all
  next
    case other
    with len show ?thesis by (intro counts_quiet [OF inv]) simp_all
  qed
qed

lemma counts_writer:
  assumes inv: "counts_inv srv" and i: "i < length (sessions srv)" and srv': "srv' \<in> set (writer_exec i srv)"
  shows "counts_inv srv'"
proof -
  let ?s = "sessions srv ! i"
  obtain c p where cp: "(c, p) \<in> set (cw_exec ((writer ?s)\<lparr>stats := ReqStats srv\<rparr>) (writer_at ?s))"
    and eq: "srv' = upd_session i (\<lambda>s. s\<lparr>writer := c, writer_at := p\<rparr>) (srv\<lparr>ReqStats := stats c\<rparr>)"
    using srv' by (auto simp: writer_exec_def)
  obtain n where n: "stats c = count_sent n (ReqStats srv)"
      "length (buf (reqCh (writer ?s))) + in_hand (writer_at ?s) = length (buf (reqCh c)) + in_hand p + n"
    using cw_exec_signals [OF cp] by auto
  have "total_pending srv' + n = total_pending srv"
    using total_pending_upd [OF i, of "srv\<lparr>ReqStats := stats c\<rparr>" "\<lambda>s. s\<lparr>writer := c, writer_at := p\<rparr>"] n(2)
    by (simp add: eq pending_signals_def)
  then show ?thesis
    using inv n(1) eq by (auto simp: counts_inv_def counts_agree_def count_sent_def)
qed

lemma counts_refill:
  assumes inv: "counts_inv srv" "live_inv srv" and M: "refills srv = add_mset t M"
    and k: "(srv1, k) \<in> set (ReqWorkConnFunc srv t)"
  shows "counts_inv (srv1\<lparr>refills := M + (case k of None \<Rightarrow> {#} | Some t' \<Rightarrow> {#t'#})\<rparr>)"
proof (cases t)
  case (RefillLookup rid)
  show ?thesis
  proof (cases "GetEntry (controls srv) rid")
    case (Some e)
    obtain j where "j < length (sessions srv)" "e = entry_of j"
      using Some by (rule live_entry [OF inv(2)])
    then show ?thesis
      using inv(1) M k RefillLookup Some
      by (auto simp: counts_inv_def counts_agree_def count_requested_def)
  qed (use inv(1) M k RefillLookup in \<open>auto simp: counts_inv_def counts_agree_def\<close>)
next
  case (RefillSend e)
  obtain i where i: "i < length (sessions srv)" "e = entry_of i"
    using inv(1) M RefillSend by (auto simp: counts_inv_def)
  let ?s = "sessions srv ! i"
  obtain ch ok where out: "(ch, ok) \<in> set (SendReqWorkConn (reqCh (writer ?s)) (cwdone (writer ?s)))"
    and srv1: "srv1 = upd_session i (writer_update (reqCh_update (\<lambda>_. ch))) srv" "k = Some (RefillCount ok)"
    using k RefillSend i(2) by auto
  have "total_pending srv1 = total_pending srv + (if ok then 1 else 0)"
    using total_pending_upd [OF i(1) refl, of "writer_update (reqCh_update (\<lambda>_. ch))"] out
    by (auto simp: srv1 pending_signals_def SendReqWorkConn_outcomes chan_send_Sent split: if_splits)
  then show ?thesis
    using inv(1) M RefillSend srv1 by (auto simp: counts_inv_def counts_agree_def)
next
  case (RefillCount ok)
  then show ?thesis
    using inv(1) M k
    by (auto simp: counts_inv_def counts_agree_def count_enqueued_def count_dropped_def split: if_splits)
qed

lemma counts_controlLoop:
  assumes "counts_inv srv" "handler_at (sessions srv ! i) = ReadControl"
  shows "counts_inv (controlLoop i r srv)"
proof (rule counts_quiet [OF assms(1)])
  show "length (sessions (controlLoop i r srv)) = length (sessions srv)"
    using keeps_controlLoop [of srv i r] by (simp add: keeps_def)
  show "total_pending (controlLoop i r srv) = total_pending srv"
    using assms(2) unfolding controlLoop_def Let_def
    by (auto simp: pending_signals_def split: sum.split Message.split prod.split intro!: total_pending_upd_same)
qed (auto simp: controlLoop_def Let_def split: sum.split Message.split prod.split)

lemma counts_upd:
  assumes "counts_inv srv" "\<And>s. i < length (sessions srv) \<Longrightarrow> s = sessions srv ! i \<Longrightarrow> pending_signals (f s) = pending_signals s"
  shows "counts_inv (upd_session i f srv)"
  by (rule counts_quiet [OF assms(1)]) (simp_all add: total_pending_upd_same [OF refl assms(2)])

lemma counts_reachable: "server_reachable pbkdf2 others srv \<Longrightarrow> counts_inv srv \<and> live_inv srv"
proof (induction rule: server_invariant)
  case (fresh srv)
  then show ?case
    by (auto simp: fresh_def counts_inv_def counts_agree_def live_inv_def total_pending_def zero_stats_def)
next
  case (step srv srv')
  then have inv: "counts_inv srv" and live: "live_inv srv" by simp_all
  have "counts_inv srv'"
    using step(1)
  proof cases
    case (accept iv rnd w inbound c w' es)
    have "counts_inv srv1" if o: "opened srv srv1" for srv1
    proof -
      obtain m rid where srv1: "srv1 = srv\<lparr>sessions := sessions srv @ [new_session srv m rid]\<rparr>"
        using o by (auto simp: opened_def)
      have "pending_signals (new_session srv m rid) = 0"
        by (simp add: new_session_def pending_signals_def sendLoop_def make_chan_def)
      then have "total_pending srv1 = total_pending srv"
        by (simp add: srv1 total_pending_def)
      then show ?thesis
        using inv by (auto simp: srv1 counts_inv_def nth_append intro: less_SucI)
    qed
    with accept show ?thesis
      by (elim HandleConnection_cases) (auto intro: counts_quiet [OF inv])
  next
    case (handler i)
    then show ?thesis by (blast intro: counts_handler [OF inv])
  next
    case (control i r)
    then show ?thesis using counts_controlLoop [OF inv] by simp
  next
    case (route i names n)
    then show ?thesis
      by (auto intro!: counts_quiet [OF inv] simp: total_pending_go)
  next
    case (writes i)
    then show ?thesis by (blast intro: counts_writer [OF inv])
  next
    case (refill t M srv1 k)
    then show ?thesis using counts_refill [OF inv live] by simp
  next
    case (refill_call rid)
    then show ?thesis using inv by (auto simp: counts_inv_def counts_agree_def)
  next
    case (owner_moves o')
    then show ?thesis by (auto intro: counts_quiet [OF inv])
  qed (auto intro!: counts_upd [OF inv] simp: pending_signals_def)
  moreover have "live_inv srv'"
    by (rule live_inv_step [OF step(1) live])
  ultimately show ?case by simp
qed

section \<open>The owner of the handler\<close>

text \<open>
  What the handler promises its owner, and what it relies on: the callbacks and the rest of the program keep an
  invariant of the owner's state; then it holds in every state the server gets into.
\<close>

locale handler_owner =
  fixes on_work_conn :: "'o \<Rightarrow> nat \<Rightarrow> NewWorkConn \<Rightarrow> 'o"
    and on_control_close :: "'o \<Rightarrow> string \<Rightarrow> 'o"
    and other_moves :: "'o \<Rightarrow> 'o \<Rightarrow> bool"
    and owner_ok :: "'o \<Rightarrow> bool"
  assumes ok_work_conn: "owner_ok o1 \<Longrightarrow> owner_ok (on_work_conn o1 c m)"
    and ok_control_close: "owner_ok o1 \<Longrightarrow> owner_ok (on_control_close o1 rid)"
    and ok_other_moves: "owner_ok o1 \<Longrightarrow> other_moves o1 o2 \<Longrightarrow> owner_ok o2"
begin

definition serves :: "'o server \<Rightarrow> bool" where
  "serves srv \<longleftrightarrow> OnWorkConn srv = Some on_work_conn \<and> OnControlClose srv = Some on_control_close \<and> owner_ok (owner_state srv)"

lemma owner_handler: "srv' \<in> set (handler_exec i srv) \<Longrightarrow>
    owner_state srv' = owner_state srv \<or> owner_state srv' = owner_state (notify_owner i srv)"
  by (auto simp: handler_exec_def send_reply_def split: hpc.splits if_splits send_outcome.splits)

lemma serves_step:
  assumes "server_step pbkdf2 other_moves srv srv'" "serves srv" shows "serves srv'"
proof -
  have "OnWorkConn srv' = OnWorkConn srv" "OnControlClose srv' = OnControlClose srv"
    using server_step_evolves [OF assms(1)] by (auto simp: keeps_def server_evolves_def opened_def)
  moreover have "owner_ok (owner_state srv')"
    using assms(1)
  proof cases
    case (accept iv rnd w inbound c w' es)
    then show ?thesis
      using assms(2) by (elim HandleConnection_cases) (auto simp: serves_def opened_def ok_work_conn)
  next
    case (handler i)
    then show ?thesis
      using owner_handler [OF handler(2)] assms(2) by (auto simp: serves_def notify_owner_def ok_control_close)
  next
    case (control i r)
    then show ?thesis
      using assms(2) by (auto simp: serves_def controlLoop_def Let_def split: sum.split Message.split prod.split)
  next
    case (writes i)
    then show ?thesis using assms(2) by (simp add: writer_exec_fields serves_def)
  next
    case (refill t M srv1 k)
    then show ?thesis using assms(2) by (simp add: ReqWorkConnFunc_fields serves_def)
  next
    case (owner_moves o')
    then show ?thesis using assms(2) by (auto simp: serves_def intro: ok_other_moves)
  qed (use assms(2) in \<open>simp_all add: serves_def\<close>)
  ultimately show ?thesis
    using assms(2) by (simp add: serves_def)
qed

lemma serves_steps: "(server_step pbkdf2 other_moves)\<^sup>*\<^sup>* srv srv' \<Longrightarrow> serves srv \<Longrightarrow> serves srv'"
  by (induction rule: rtranclp_induct) (auto intro: serves_step)

end

end
