(* ===== verification/Session_Props.thy ===== *)
theory Session_Props
  imports Sessions
begin

text \<open>
  The properties of the control sessions (\<^verbatim>\<open>internal/server/handle.go\<close>, \<^verbatim>\<open>control_manager.go\<close>, \<^verbatim>\<open>stats.go\<close>) that rest on the
  invariants of \<open>Sessions\<close>. The first section builds runs of the server step by step, from the bytes of a
  \<open>Login\<close> frame on; the witnesses are states that these runs reach.
\<close>

section \<open>Runs\<close>

lemma hex_string:
  assumes "list_all lower_hex s"
  shows "utf8_valid s" "esc s = s"
proof -
  have c: "ord c < 128 \<and> html_safe c" if "lower_hex c" for c
    using that by (auto simp: lower_hex_def html_safe_def Let_def)
  show "utf8_valid s" using assms
    by (induction s) (use c in auto)
  show "esc s = s" using assms
    by (induction s) (use c in \<open>auto simp: esc_ascii_def\<close>)
qed

definition sample_login :: "string \<Rightarrow> string \<Rightarrow> Login" where
  "sample_login tok rid =
     \<lparr>login_Version = [], login_Hostname = [], login_Os = [], login_Arch = [], login_User = [],
      login_PrivilegeKey = BuildAuthKey tok 0, login_Timestamp = 0, login_RunID = rid, login_ClientID = [],
      login_Metas = [], login_PoolCount = 0\<rparr>"

lemma BuildAuthKey_hex: "list_all lower_hex (BuildAuthKey tok ts)"
  by (simp add: BuildAuthKey_def Let_def fmt_x_hex)

lemma sample_login_wf:
  assumes "rid \<in> {''r1'', ''r2''}"
  shows "msg_wf (Login (sample_login tok rid))" "length (json_Marshal (Login (sample_login tok rid))) \<le> MaxBodySize"
  using assms length_BuildAuthKey [of tok 0] hex_string [OF BuildAuthKey_hex, of tok 0]
  by (auto simp: msg_wf_def sample_login_def marshal_eval MaxBodySize_def)

lemma login_as_step:
  fixes srv :: "'o server"
  assumes "\<And>pw s i n. length (pbkdf2 pw s i n) = n" and rid: "rid \<in> {''r1'', ''r2''}"
  shows "server_step pbkdf2 others srv
    (srv\<lparr>sessions := sessions srv @ [new_session srv (sample_login (Token srv) rid) rid]\<rparr>)"
proof -
  let ?m = "sample_login (Token srv) rid" and ?iv = "replicate 16 0 :: bytes"
  have "ReadMsg (frame (Login ?m) @ ?iv) = Inr (Login ?m, ?iv)"
    by (rule ReadMsg_frame [OF sample_login_wf [OF rid]])
  moreover have "VerifyAuth (Token srv) (login_Timestamp ?m) (login_PrivilegeKey ?m)"
    by (simp add: sample_login_def VerifyAuth_iff)
  moreover have "conn_write \<lparr>out = [], room = None\<rparr> b = (\<lparr>out = b, room = None\<rparr>, None)"
      "conn_write \<lparr>out = o1, room = None\<rparr> b = (\<lparr>out = o1 @ b, room = None\<rparr>, None)" for o1 b
    by (simp_all add: conn_write_def sink_write_def)
  moreover have "login_RunID ?m = rid" "rid \<noteq> []"
    using rid by (auto simp: sample_login_def)
  ultimately have "snd (HandleConnection pbkdf2 conn_write (Some ?iv) (replicate 8 0) \<lparr>out = [], room = None\<rparr>
      (frame (Login ?m) @ ?iv) 0 srv)
    = (srv\<lparr>sessions := sessions srv @ [new_session srv ?m rid]\<rparr>, [SetReadDeadline (Some (readTimeout srv)), SetReadDeadline None])"
    by (simp add: HandleConnection_def handleLogin_def Let_def WriteMsg_def NewCryptoWriter_def NewCryptoReader_def
        aes_NewCipher_def DeriveKey_def aes_BlockSize_def io_ReadFull_def assms(1))
  then show ?thesis
    by (cases "HandleConnection pbkdf2 conn_write (Some ?iv) (replicate 8 0) \<lparr>out = [], room = None\<rparr>
      (frame (Login ?m) @ ?iv) 0 srv") (auto intro!: server_step.accept)
qed

lemma login_step:
  "(\<And>pw s i n. length (pbkdf2 pw s i n) = n) \<Longrightarrow>
   server_step pbkdf2 others srv (srv\<lparr>sessions := sessions srv @ [new_session srv (sample_login (Token srv) ''r1'') ''r1'']\<rparr>)"
  for srv :: "'o server"
  by (rule login_as_step) simp_all

text \<open>A login with pool count 0, up to the control loop.\<close>

definition log_on_as :: "string \<Rightarrow> 'o server \<Rightarrow> 'o server" where
  "log_on_as rid srv =
     (let i = length (sessions srv);
          srv1 = srv\<lparr>sessions := sessions srv @ [new_session srv (sample_login (Token srv) rid) rid]\<rparr>
      in register_session i (go_to i RegisterSession srv1))"

definition log_on :: "'o server \<Rightarrow> 'o server" where
  "log_on srv =
     (let i = length (sessions srv);
          srv1 = srv\<lparr>sessions := sessions srv @ [new_session srv (sample_login (Token srv) ''r1'') ''r1'']\<rparr>
      in register_session i (go_to i RegisterSession srv1))"

lemma log_on_as_steps:
  assumes "\<And>pw s i n. length (pbkdf2 pw s i n) = n" "rid \<in> {''r1'', ''r2''}"
  shows "(server_step pbkdf2 others)\<^sup>*\<^sup>* srv (log_on_as rid srv)"
proof -
  let ?i = "length (sessions srv)"
  let ?srv1 = "srv\<lparr>sessions := sessions srv @ [new_session srv (sample_login (Token srv) rid) rid]\<rparr>"
  have "server_step pbkdf2 others srv ?srv1"
    by (rule login_as_step [OF assms])
  moreover have "server_step pbkdf2 others ?srv1 (go_to ?i RegisterSession ?srv1)"
    by (rule server_step.handler [of ?i]) (simp_all add: handler_exec_def new_session_def sample_login_def)
  moreover have "server_step pbkdf2 others (go_to ?i RegisterSession ?srv1) (log_on_as rid srv)"
    by (rule server_step.handler [of ?i]) (simp_all add: handler_exec_def log_on_as_def Let_def)
  ultimately show ?thesis
    by (meson converse_rtranclp_into_rtranclp rtranclp.rtrancl_refl)
qed

lemma log_on_steps: "(\<And>pw s i n. length (pbkdf2 pw s i n) = n) \<Longrightarrow> (server_step pbkdf2 others)\<^sup>*\<^sup>* srv (log_on srv)"
  using log_on_as_steps [of pbkdf2 "''r1''"] by (simp add: log_on_def log_on_as_def)

definition sample_server :: "unit server" where
  "sample_server =
     \<lparr>Token = ''t'', ReadTimeout = 0, HeartbeatTimeout = 0, HRouter = Some New, ReqStats = Some zero_stats,
      OnWorkConn = None, OnControlClose = None, controls = None, owner_state = (), sessions = [], refills = {#}\<rparr>"

abbreviation idle :: "unit \<Rightarrow> unit \<Rightarrow> bool" where
  "idle \<equiv> \<lambda>o1 o2. False"

lemma toy_pbkdf2_length: "length (toy_pbkdf2 pw s i n) = n"
  by (simp add: toy_pbkdf2_def)

lemma sample_reachable:
  assumes "(server_step toy_pbkdf2 idle)\<^sup>*\<^sup>* sample_server srv" shows "server_reachable toy_pbkdf2 idle srv"
  using assms unfolding server_reachable_def
  by (intro exI [of _ sample_server]) (simp add: fresh_def sample_server_def)

definition one_session :: "unit server" where
  "one_session = log_on sample_server"

lemma one_session_reachable: "server_reachable toy_pbkdf2 idle one_session"
  unfolding one_session_def by (intro sample_reachable log_on_steps toy_pbkdf2_length)

lemmas log_on_eval = log_on_def register_session_eq start_controlLoop_def upd_session_def go_to_def cancel_session_def
  new_session_def sendLoop_def set_entry_def Register_def GetEntry_def entries_def entry_of_def make_chan_def Let_def

lemma one_session:
  "one_session = sample_server\<lparr>controls := Some [(''r1'', entry_of 0)],
     sessions := [(new_session sample_server (sample_login ''t'' ''r1'') ''r1'')\<lparr>handler_at := ReadControl, watcher := True\<rparr>]\<rparr>"
  by (simp add: one_session_def log_on_eval sample_server_def)

section \<open>Well-formedness and authentication\<close>

definition server_wf :: "'o server \<Rightarrow> bool" where
  "server_wf srv \<longleftrightarrow>
     (\<forall>s \<in> set (sessions srv). queues_ok (writer s)) \<and>
     (\<forall>r. HRouter srv = Some r \<longrightarrow> router_wf r) \<and>
     (\<forall>rid e. GetEntry (controls srv) rid = Some e \<longrightarrow>
        (\<exists>i < length (sessions srv). e = entry_of i \<and> runID (sessions srv ! i) = rid)) \<and>
     (\<forall>e. RefillSend e \<in># refills srv \<longrightarrow> (\<exists>i < length (sessions srv). e = entry_of i))"

text \<open>
  The server's state is well-typed in every reachable state, whatever the clients send and however the
  goroutines interleave: both queues of every session are open and within their capacities (so that no send
  on them panics), the router is well-formed, every entry of the control manager refers to existing objects
  that belong to one session and that session has the run id under which the entry is found, and
  every call of \<^verbatim>\<open>ReqWorkConnFunc\<close> in progress holds such an entry.
\<close>

lemma server_wf_reachable:
  assumes "server_reachable pbkdf2 others srv"
  shows "server_wf srv"
proof -
  have "queues_ok (writer s)" if "s \<in> set (sessions srv)" for s
    using sessions_inv_reachable [OF assms] that by (simp add: sessions_inv_def)
  moreover have "router_wf r" if "HRouter srv = Some r" for r
    using routes_inv_reachable [OF assms] that by (simp add: routes_within_def)
  moreover have "\<exists>i < length (sessions srv). e = entry_of i \<and> runID (sessions srv ! i) = rid"
    if "GetEntry (controls srv) rid = Some e" for rid e
    using that by (rule live_entry [OF live_inv_reachable [OF assms]]) blast
  ultimately show ?thesis
    using counts_reachable [OF assms] by (simp add: server_wf_def counts_inv_def)
qed

text \<open>
  C2: Nothing happens without the token: in every reachable state each session was opened by a \<^verbatim>\<open>Login\<close> whose
  privilege key is the hex MD5 of the server's token and the login's timestamp, and each route in
  the router carries the run id of such a session. A session's run id is the one that its login asked for,
  unless that was empty.
\<close>

theorem sessions_authenticated:
  assumes "server_reachable pbkdf2 others srv"
  shows "(\<forall>s \<in> set (sessions srv).
            login_PrivilegeKey (login s) = BuildAuthKey (Token srv) (login_Timestamp (login s)) \<and>
            runID s \<noteq> [] \<and> runID s \<in> {rid. login_RunID (login s) = [] \<or> rid = login_RunID (login s)}) \<and>
         (\<forall>k cfg. Option.bind (HRouter srv) (\<lambda>r. routes_of r k) = Some cfg \<longrightarrow>
            (\<exists>s \<in> set (sessions srv). runID s = RunID cfg))"
proof -
  have "\<exists>s \<in> set (sessions srv). runID s = RunID cfg"
    if "Option.bind (HRouter srv) (\<lambda>r. routes_of r k) = Some cfg" for k cfg
  proof -
    obtain r where r: "HRouter srv = Some r" "routes_of r k = Some cfg"
      using \<open>Option.bind (HRouter srv) (\<lambda>r. routes_of r k) = Some cfg\<close> by (auto simp: bind_eq_Some_conv)
    then have "RunID cfg \<in> run_ids srv"
      using routes_inv_reachable [OF assms] unfolding routes_within_def by blast
    then show ?thesis by (auto simp: run_ids_def)
  qed
  then show ?thesis
    using sessions_inv_reachable [OF assms] by (auto simp: sessions_inv_def authentic_def VerifyAuth_iff)
qed

theorem sessions_authenticated_witness:
  "login_PrivilegeKey (login (sessions one_session ! 0)) = BuildAuthKey ''t'' 0"
proof -
  have "login_PrivilegeKey (login s) = BuildAuthKey (Token one_session) (login_Timestamp (login s))"
    if "s \<in> set (sessions one_session)" for s
    using sessions_authenticated [OF one_session_reachable] that by blast
  then show ?thesis
    by (simp add: one_session sample_server_def new_session_def sample_login_def)
qed

section \<open>Registration and counters\<close>

lemma registered_other:
  assumes "live_inv srv" "handler_at (sessions srv ! i) = RegisterSession" "GetEntry (controls srv) rid = Some e"
  obtains j where "j < length (sessions srv)" "e = entry_of j" "j \<noteq> i"
proof -
  obtain j where j: "j < length (sessions srv)" "e = entry_of j" "serving (sessions srv ! j)"
    using assms(1,3) by (rule live_entry)
  then have "j \<noteq> i"
    using assms(2) by (auto simp: serving_def)
  with j(1,2) show thesis by (rule that)
qed

lemma register_sessions:
  assumes live: "live_inv srv" and i: "i < length (sessions srv)" "handler_at (sessions srv ! i) = RegisterSession"
  defines "old \<equiv> GetEntry (controls srv) (runID (sessions srv ! i))"
  shows "j \<noteq> i \<Longrightarrow> old \<noteq> Some (entry_of j) \<Longrightarrow> sessions (register_session i srv) ! j = sessions srv ! j"
    and "old = Some (entry_of j) \<Longrightarrow> j \<noteq> i \<and> cwdone (writer (sessions (register_session i srv) ! j))"
    and "\<not> cwdone (writer (sessions (register_session i srv) ! i))"
proof -
  note eval = old_def register_session_eq start_controlLoop_def Let_def
  show "sessions (register_session i srv) ! j = sessions srv ! j" if "j \<noteq> i" "old \<noteq> Some (entry_of j)"
  proof (cases old)
    case (Some e)
    then obtain k where "e = entry_of k"
      unfolding old_def by (rule registered_other [OF live i(2)])
    with Some that show ?thesis by (auto simp: eval)
  qed (use that in \<open>simp add: eval\<close>)
  show "j \<noteq> i \<and> cwdone (writer (sessions (register_session i srv) ! j))" if "old = Some (entry_of j)"
    using that unfolding old_def
    by (rule registered_other [OF live i(2)]) (use that in \<open>auto simp: eval\<close>)
  have "entry_cancel e \<noteq> i" if "old = Some e" for e
    using that unfolding old_def by (rule registered_other [OF live i(2)]) auto
  then show "\<not> cwdone (writer (sessions (register_session i srv) ! i))"
    using live i by (auto simp: eval live_inv_def unstarted_ok_def split: option.split)
qed

text \<open>
  C13: \<^verbatim>\<open>Register\<close> displaces: in every reachable state in which a session is about to register, afterwards its run
  id leads to it and it is not cancelled, the session that was registered under the run id, if any, is a different one
  and is cancelled, all other run ids lead where they led, and no third session changes. Entries that can
  be looked up always belong to a session that is not cancelled or that is itself about to remove the entry.
\<close>

theorem register_displaces:
  assumes "server_reachable pbkdf2 others srv"
    and "i < length (sessions srv)" "handler_at (sessions srv ! i) = RegisterSession"
  defines "srv' \<equiv> register_session i srv" and "rid \<equiv> runID (sessions srv ! i)"
  shows "GetEntry (controls srv') rid = Some (entry_of i) \<and> \<not> cwdone (writer (sessions srv' ! i)) \<and>
    (\<forall>j. GetEntry (controls srv) rid = Some (entry_of j) \<longrightarrow> j \<noteq> i \<and> cwdone (writer (sessions srv' ! j))) \<and>
    (\<forall>rid'. rid' \<noteq> rid \<longrightarrow> GetEntry (controls srv') rid' = GetEntry (controls srv) rid') \<and>
    (\<forall>j. j \<noteq> i \<and> GetEntry (controls srv) rid \<noteq> Some (entry_of j) \<longrightarrow> sessions srv' ! j = sessions srv ! j) \<and>
    (\<forall>rid' e. GetEntry (controls srv') rid' = Some e \<longrightarrow>
       (\<exists>j < length (sessions srv'). e = entry_of j \<and>
          (cwdone (writer (sessions srv' ! j)) \<longrightarrow> handler_at (sessions srv' ! j) = RemoveEntry)))"
proof -
  note live = live_inv_reachable [OF assms(1)]
  note sess = register_sessions [OF live assms(2,3), folded srv'_def rid_def]
  have "live_inv srv'"
    unfolding srv'_def by (rule live_inv_register [OF live assms(2,3)])
  then have entries: "\<exists>j < length (sessions srv'). e = entry_of j \<and>
          (cwdone (writer (sessions srv' ! j)) \<longrightarrow> handler_at (sessions srv' ! j) = RemoveEntry)"
    if "GetEntry (controls srv') rid' = Some e" for rid' e
    using that by (rule live_entry) (auto simp: serving_def)
  have "GetEntry (controls srv') rid = Some (entry_of i)"
    and "\<And>rid'. rid' \<noteq> rid \<Longrightarrow> GetEntry (controls srv') rid' = GetEntry (controls srv) rid'"
    by (simp_all add: srv'_def rid_def set_entry_def)
  with sess entries show ?thesis by blast
qed

text \<open>The same run id logs on again.\<close>

definition logging_on :: "unit server" where
  "logging_on = go_to 1 RegisterSession
     (one_session\<lparr>sessions := sessions one_session @ [new_session one_session (sample_login ''t'' ''r1'') ''r1'']\<rparr>)"

lemma logging_on_reachable: "server_reachable toy_pbkdf2 idle logging_on"
proof -
  let ?srv1 = "one_session\<lparr>sessions := sessions one_session @ [new_session one_session (sample_login ''t'' ''r1'') ''r1'']\<rparr>"
  have "server_step toy_pbkdf2 idle one_session ?srv1"
    using login_step [of toy_pbkdf2 idle one_session, OF toy_pbkdf2_length]
    by (simp add: one_session sample_server_def)
  moreover have "server_step toy_pbkdf2 idle ?srv1 logging_on"
    by (rule server_step.handler [of 1])
      (simp_all add: one_session handler_exec_def logging_on_def new_session_def sample_login_def)
  moreover have "(server_step toy_pbkdf2 idle)\<^sup>*\<^sup>* sample_server one_session"
    unfolding one_session_def by (intro log_on_steps toy_pbkdf2_length)
  ultimately show ?thesis
    by (intro sample_reachable) (meson rtranclp.rtrancl_into_rtrancl)
qed

theorem register_displaces_witness: "cwdone (writer (sessions (register_session 1 logging_on) ! 0))"
proof -
  have "length (sessions logging_on) = 2" "handler_at (sessions logging_on ! 1) = RegisterSession"
      "GetEntry (controls logging_on) (runID (sessions logging_on ! 1)) = Some (entry_of 0)"
    by (simp_all add: logging_on_def one_session new_session_def GetEntry_def entries_def)
  then show ?thesis
    using register_displaces [OF logging_on_reachable, of 1] by simp
qed


text \<open>Two refill calls for the session, one of them already counted.\<close>

definition refilling_server :: "unit server" where
  "refilling_server = one_session\<lparr>ReqStats := count_requested (Some zero_stats), refills := {#RefillSend (entry_of 0)#}\<rparr>"

lemma refilling_server_reachable: "server_reachable toy_pbkdf2 idle refilling_server"
proof -
  let ?srv1 = "one_session\<lparr>refills := {#RefillLookup ''r1''#}\<rparr>"
  have "server_step toy_pbkdf2 idle one_session ?srv1"
    using server_step.refill_call [of toy_pbkdf2 idle one_session "''r1''"] by (simp add: one_session sample_server_def)
  moreover have "server_step toy_pbkdf2 idle ?srv1 refilling_server"
    using server_step.refill [of ?srv1 "RefillLookup ''r1''" "{#}"
        "?srv1\<lparr>ReqStats := count_requested (Some zero_stats)\<rparr>" "Some (RefillSend (entry_of 0))" toy_pbkdf2 idle]
    by (simp add: refilling_server_def one_session GetEntry_def entries_def sample_server_def)
  moreover have "(server_step toy_pbkdf2 idle)\<^sup>*\<^sup>* sample_server one_session"
    unfolding one_session_def by (intro log_on_steps toy_pbkdf2_length)
  ultimately show ?thesis
    by (intro sample_reachable) (meson rtranclp.rtrancl_into_rtrancl)
qed


section \<open>Cleanup\<close>

lemma go_to_commute:
  "drop_entry i (go_to i p srv) = go_to i p (drop_entry i srv)"
  "remove_route n (go_to i p srv) = go_to i p (remove_route n srv)"
  "notify_owner i (go_to i p srv) = go_to i p (notify_owner i srv)"
  "go_to i p (go_to i q srv) = go_to i p srv"
proof -
  have "runID ((sessions srv)[i := (sessions srv ! i)\<lparr>handler_at := p\<rparr>] ! i) = runID (sessions srv ! i)" for p
    by (cases "i < length (sessions srv)") (simp_all add: list_update_beyond)
  then show "drop_entry i (go_to i p srv) = go_to i p (drop_entry i srv)"
    "notify_owner i (go_to i p srv) = go_to i p (notify_owner i srv)"
    by (simp_all add: drop_entry_def notify_owner_def go_to_def upd_session_def split: option.split)
  show "remove_route n (go_to i p srv) = go_to i p (remove_route n srv)"
    by (simp add: remove_route_def go_to_def upd_session_def)
  show "go_to i p (go_to i q srv) = go_to i p srv"
    by (cases "i < length (sessions srv)") (simp_all add: go_to_def upd_session_def list_update_beyond)
qed

lemma remove_routes_run:
  "i < length (sessions srv) \<Longrightarrow> distinct order \<Longrightarrow>
   (server_step pbkdf2 others)\<^sup>*\<^sup>* (go_to i (RemoveRoutes (set order)) srv) (go_to i (RemoveRoutes {}) (fold remove_route order srv))"
proof (induction order arbitrary: srv)
  case (Cons n order)
  have "server_step pbkdf2 others (go_to i (RemoveRoutes (set (n # order))) srv)
      (go_to i (RemoveRoutes (set (n # order) - {n})) (remove_route n (go_to i (RemoveRoutes (set (n # order))) srv)))"
    using Cons.prems(1) by (intro server_step.route) simp_all
  moreover have "set (n # order) - {n} = set order"
    using Cons.prems(2) by auto
  ultimately have "(server_step pbkdf2 others)\<^sup>*\<^sup>* (go_to i (RemoveRoutes (set (n # order))) srv)
      (go_to i (RemoveRoutes (set order)) (remove_route n srv))"
    by (simp add: go_to_commute r_into_rtranclp)
  also have "(server_step pbkdf2 others)\<^sup>*\<^sup>* \<dots> (go_to i (RemoveRoutes {}) (fold remove_route order (remove_route n srv)))"
    using Cons.prems by (intro Cons.IH) simp_all
  finally show ?case by simp
qed simp

lemma fold_remove_route:
  "sessions (fold remove_route order srv) = sessions srv" "controls (fold remove_route order srv) = controls srv"
  "owner_state (fold remove_route order srv) = owner_state srv" "OnControlClose (fold remove_route order srv) = OnControlClose srv"
  "HRouter (fold remove_route order srv) = map_option (fold (\<lambda>n r. Remove r n) order) (HRouter srv)"
  by (induction order arbitrary: srv) (simp_all add: option.map_comp comp_def option.map_id)

lemma routes_fold_Remove:
  assumes "router_wf r"
  shows "routes_of (fold (\<lambda>n r. Remove r n) order r) =
    (\<lambda>k. case routes_of r k of Some cfg \<Rightarrow> if ProxyName cfg \<in> set order then None else Some cfg | None \<Rightarrow> None)"
  using assms
proof (induction order arbitrary: r)
  case (Cons n order)
  from Cons.IH [OF router_wf_Remove [OF Cons.prems]] show ?case
    by (auto simp: routes_of_Remove [OF Cons.prems] fun_eq_iff split: option.split)
qed (simp add: fun_eq_iff split: option.split)

lemma cleanup_run:
  assumes i: "i < length (sessions srv)" "handler_at (sessions srv ! i) = CancelContext"
    and order: "set order = registeredProxies (sessions srv ! i)" "distinct order"
  shows "(server_step pbkdf2 others)\<^sup>*\<^sup>* srv (cleanupControlSession order i srv)"
proof -
  have handler: "(server_step pbkdf2 others)\<^sup>*\<^sup>* t t'"
    if "i < length (sessions t)" "t' \<in> set (handler_exec i t)" for t t'
    using server_step.handler [OF that] by (rule r_into_rtranclp)
  let ?a = "cancel_session i srv"
  let ?b = "drop_entry i ?a" and ?c = "fold remove_route order (drop_entry i ?a)"
  have "(server_step pbkdf2 others)\<^sup>*\<^sup>* srv (go_to i RemoveEntry ?a)"
    using i by (intro handler) (simp_all add: handler_exec_def)
  also have "(server_step pbkdf2 others)\<^sup>*\<^sup>* \<dots> (go_to i (RemoveRoutes (set order)) ?b)"
    using i order(1) by (intro handler) (simp_all add: handler_exec_def go_to_commute)
  also have "(server_step pbkdf2 others)\<^sup>*\<^sup>* \<dots> (go_to i (RemoveRoutes {}) ?c)"
    using i order(2) by (intro remove_routes_run) simp_all
  also have "(server_step pbkdf2 others)\<^sup>*\<^sup>* \<dots> (go_to i NotifyOwner ?c)"
    using i by (intro handler) (simp_all add: handler_exec_def go_to_commute fold_remove_route)
  also have "(server_step pbkdf2 others)\<^sup>*\<^sup>* \<dots> (cleanupControlSession order i srv)"
    using i by (intro handler) (simp_all add: handler_exec_def go_to_commute fold_remove_route cleanupControlSession_def)
  finally show ?thesis .
qed

text \<open>
  C7: The cleanup of a session, when no other goroutine comes in between: it is what the session's goroutine does
  from the point where the control loop returned, for any order of the map iteration; afterwards the
  context is cancelled, the run id leads nowhere, exactly the routes whose proxy name the session had
  recorded are gone, the owner has been told the run id, and no other session and no other run id is touched.
\<close>

theorem cleanup_outcome:
  assumes "server_reachable pbkdf2 others srv"
    and "i < length (sessions srv)" "handler_at (sessions srv ! i) = CancelContext"
    and "set order = registeredProxies (sessions srv ! i)" "distinct order"
  defines "srv' \<equiv> cleanupControlSession order i srv" and "rid \<equiv> runID (sessions srv ! i)"
  shows "(server_step pbkdf2 others)\<^sup>*\<^sup>* srv srv' \<and>
    handler_at (sessions srv' ! i) = HandlerDone \<and> cwdone (writer (sessions srv' ! i)) \<and>
    GetEntry (controls srv') = (GetEntry (controls srv))(rid := None) \<and>
    map_option routes_of (HRouter srv') =
      map_option (\<lambda>r k. case routes_of r k of
          Some cfg \<Rightarrow> if ProxyName cfg \<in> registeredProxies (sessions srv ! i) then None else Some cfg
        | None \<Rightarrow> None) (HRouter srv) \<and>
    owner_state srv' = (case OnControlClose srv of Some f \<Rightarrow> f (owner_state srv) rid | None \<Rightarrow> owner_state srv) \<and>
    (\<forall>j. j \<noteq> i \<longrightarrow> sessions srv' ! j = sessions srv ! j)"
proof -
  have run: "(server_step pbkdf2 others)\<^sup>*\<^sup>* srv srv'"
    unfolding srv'_def by (rule cleanup_run [OF assms(2-5)])
  have rid: "runID (sessions (cancel_session i srv) ! i) = rid"
    using assms(2) by (simp add: rid_def)
  have "HRouter srv' = map_option (fold (\<lambda>n r. Remove r n) order) (HRouter srv)"
    by (simp add: srv'_def cleanupControlSession_def fold_remove_route)
  moreover have "router_wf r" if "HRouter srv = Some r" for r
    using routes_inv_reachable [OF assms(1)] that by (simp add: routes_within_def)
  ultimately have "map_option routes_of (HRouter srv') =
      map_option (\<lambda>r k. case routes_of r k of
          Some cfg \<Rightarrow> if ProxyName cfg \<in> registeredProxies (sessions srv ! i) then None else Some cfg
        | None \<Rightarrow> None) (HRouter srv)"
    unfolding assms(4) [symmetric] by (cases "HRouter srv") (simp_all add: routes_fold_Remove)
  moreover have "owner_state srv' = (case OnControlClose srv of Some f \<Rightarrow> f (owner_state srv) rid | None \<Rightarrow> owner_state srv)"
    using assms(2) rid by (simp add: srv'_def cleanupControlSession_def notify_owner_def fold_remove_route split: option.split)
  moreover have "GetEntry (controls srv') = (GetEntry (controls srv))(rid := None)"
    using rid by (auto simp: srv'_def cleanupControlSession_def fold_remove_route)
  ultimately show ?thesis
    using run assms(2) by (auto simp: srv'_def cleanupControlSession_def fold_remove_route)
qed

definition broken_off :: "unit server" where
  "broken_off = controlLoop 0 (Inl IO_EOF) one_session"

lemma broken_off_reachable: "server_reachable toy_pbkdf2 idle broken_off"
proof -
  have "server_step toy_pbkdf2 idle one_session broken_off"
    unfolding broken_off_def by (rule server_step.control) (simp_all add: one_session)
  moreover have "(server_step toy_pbkdf2 idle)\<^sup>*\<^sup>* sample_server one_session"
    unfolding one_session_def by (intro log_on_steps toy_pbkdf2_length)
  ultimately show ?thesis
    by (intro sample_reachable) (meson rtranclp.rtrancl_into_rtrancl)
qed

theorem cleanup_outcome_witness: "GetEntry (controls (cleanupControlSession [] 0 broken_off)) ''r1'' = None"
proof -
  have "length (sessions broken_off) = 1" "handler_at (sessions broken_off ! 0) = CancelContext"
      "registeredProxies (sessions broken_off ! 0) = {}" "runID (sessions broken_off ! 0) = ''r1''"
    by (simp_all add: broken_off_def controlLoop_def one_session new_session_def)
  then show ?thesis
    using cleanup_outcome [OF broken_off_reachable, of 0 "[]"] by simp
qed

section \<open>Sessions that are blocked for good\<close>

definition full :: "'a chan \<Rightarrow> bool" where
  "full ch \<longleftrightarrow> chcap ch \<le> length (buf ch)"

definition blocked :: "session \<Rightarrow> bool" where
  "blocked s \<longleftrightarrow> writer_at s = Stopped \<and>
     ((\<exists>n. handler_at s = BootSend n) \<and> full (reqCh (writer s)) \<or>
      (\<exists>m. handler_at s = SendReply m) \<and> full (sendCh (writer s)))"

text \<open>What every step keeps of a session whose writer has returned.\<close>

definition stays :: "session \<Rightarrow> session \<Rightarrow> bool" where
  "stays s s' \<longleftrightarrow> (writer_at s = Stopped \<longrightarrow>
     writer_at s' = Stopped \<and> prefix (buf (reqCh (writer s))) (buf (reqCh (writer s')))) \<and>
     (blocked s \<longrightarrow> blocked s' \<and> handler_at s' = handler_at s \<and> registeredProxies s' = registeredProxies s)"

definition all_stay :: "'o server \<Rightarrow> 'o server \<Rightarrow> bool" where
  "all_stay srv srv' \<longleftrightarrow> length (sessions srv) \<le> length (sessions srv') \<and>
     (\<forall>i < length (sessions srv). stays (sessions srv ! i) (sessions srv' ! i))"

lemma stays_refl [simp]: "stays s s"
  by (simp add: stays_def)

lemma stays_trans: "stays a b \<Longrightarrow> stays b c \<Longrightarrow> stays a c"
  by (auto simp: stays_def intro: prefix_order.trans)

lemma all_stay_same: "sessions srv' = sessions srv \<Longrightarrow> all_stay srv srv'"
  by (simp add: all_stay_def)

lemma all_stay_trans: "all_stay a b \<Longrightarrow> all_stay b c \<Longrightarrow> all_stay a c"
  by (force simp: all_stay_def intro: stays_trans)

lemma all_stay_upd:
  assumes "sessions srv1 = sessions srv"
    and "i < length (sessions srv) \<Longrightarrow> stays (sessions srv ! i) (f (sessions srv ! i))"
  shows "all_stay srv (upd_session i f srv1)"
proof -
  have "stays (sessions srv ! j) ((sessions srv)[i := f (sessions srv ! i)] ! j)" if "j < length (sessions srv)" for j
    using that assms(2) by (cases "j = i") simp_all
  then show ?thesis using assms(1) by (simp add: all_stay_def)
qed

text \<open>Updates that leave the queues, the writer's position and the goroutine's position alone.\<close>

lemma stays_same:
  "writer_at s' = writer_at s \<Longrightarrow> reqCh (writer s') = reqCh (writer s) \<Longrightarrow> sendCh (writer s') = sendCh (writer s) \<Longrightarrow>
   handler_at s' = handler_at s \<Longrightarrow> registeredProxies s' = registeredProxies s \<Longrightarrow> stays s s'"
  by (simp add: stays_def blocked_def)

text \<open>A session whose goroutine is elsewhere is not blocked.\<close>

lemma stays_unblocked:
  "\<not> blocked s \<Longrightarrow> writer_at s' = writer_at s \<Longrightarrow> reqCh (writer s') = reqCh (writer s) \<Longrightarrow> stays s s'"
  by (simp add: stays_def)

lemma all_stay_go:
  "\<not> blocked (sessions srv ! i) \<Longrightarrow> sessions srv1 = sessions srv \<Longrightarrow> all_stay srv (go_to i p srv1)"
  unfolding go_to_def by (rule all_stay_upd) (simp_all add: stays_unblocked)

lemma all_stay_cancel: "all_stay srv (cancel_session i srv)"
  unfolding cancel_session_def by (rule all_stay_upd) (simp_all add: stays_same)

lemma all_stay_register:
  assumes "handler_at (sessions srv ! i) = RegisterSession"
  shows "all_stay srv (register_session i srv)"
proof -
  have cancel: "sessions (cancel_session k t) ! j =
      (if j = k then writer_update (cwdone_update (\<lambda>_. True)) (sessions t ! j) else sessions t ! j)"
    if "j < length (sessions t)" for j k and t :: "'a server"
    using that by simp
  have len: "length (sessions (cancel_session k t)) = length (sessions t)" for k and t :: "'a server"
    by simp
  have "stays (sessions srv ! j) (sessions (register_session i srv) ! j)" if j: "j < length (sessions srv)" for j
  proof (cases "j = i")
    case True
    then have "\<not> blocked (sessions srv ! j)"
      using assms by (simp add: blocked_def)
    then show ?thesis
      using j True
      by (intro stays_unblocked)
        (auto simp: register_session_eq start_controlLoop_def Let_def cancel len simp del: cancel_fields(8) split: option.split)
  next
    case False
    then show ?thesis
      using j
      by (intro stays_same)
        (auto simp: register_session_eq start_controlLoop_def Let_def cancel len simp del: cancel_fields(8) split: option.split)
  qed
  moreover have "length (sessions (register_session i srv)) = length (sessions srv)"
    using keeps_register [of srv i] by (simp add: keeps_def)
  ultimately show ?thesis by (simp add: all_stay_def)
qed

lemma stays_reqCh:
  "chan_send (reqCh (writer s)) () = Sent ch \<Longrightarrow> \<not> (\<exists>n. handler_at s = BootSend n) \<Longrightarrow>
   stays s (writer_update (reqCh_update (\<lambda>_. ch)) s)"
  by (auto simp: stays_def blocked_def chan_send_Sent)

lemma all_stay_handler:
  assumes "i < length (sessions srv)" "srv' \<in> set (handler_exec i srv)"
  shows "all_stay srv srv'"
proof (cases "handler_at (sessions srv ! i)")
  case (BootCount n)
  then have "\<not> blocked (sessions srv ! i)" by (simp add: blocked_def)
  with BootCount assms(2) show ?thesis
    by (auto simp: handler_exec_def intro!: all_stay_go split: if_splits)
next
  case (BootSend n)
  then obtain ch where ch: "chan_send (reqCh (writer (sessions srv ! i))) () = Sent ch"
    and eq: "srv' = go_to i (BootCount (n - 1)) (upd_session i (writer_update (reqCh_update (\<lambda>_. ch))) srv)"
    using assms(2) by (cases "chan_send (reqCh (writer (sessions srv ! i))) ()") (simp_all add: handler_exec_def)
  then have "\<not> blocked (sessions srv ! i)"
    using BootSend by (auto simp: blocked_def chan_send_Sent full_def)
  then have "stays (sessions srv ! i) ((writer_update (reqCh_update (\<lambda>_. ch)) (sessions srv ! i))\<lparr>handler_at := BootCount (n - 1)\<rparr>)"
    using ch by (auto simp: stays_def chan_send_Sent)
  then show ?thesis
    using assms(1) all_stay_upd [of srv srv i "\<lambda>s. (writer_update (reqCh_update (\<lambda>_. ch)) s)\<lparr>handler_at := BootCount (n - 1)\<rparr>"]
    by (simp add: eq go_to_def upd_session_def)
next
  case RegisterSession
  with assms(2) show ?thesis by (simp add: handler_exec_def all_stay_register)
next
  case (SendReply m)
  then obtain ch where ch: "chan_send (sendCh (writer (sessions srv ! i))) m = Sent ch"
    and eq: "srv' = go_to i ReadControl (upd_session i (writer_update (sendCh_update (\<lambda>_. ch))) srv)"
    using assms(2) by (cases "chan_send (sendCh (writer (sessions srv ! i))) m") (simp_all add: handler_exec_def send_reply_def)
  then have "\<not> blocked (sessions srv ! i)"
    using SendReply by (auto simp: blocked_def chan_send_Sent full_def)
  then have "stays (sessions srv ! i) ((writer_update (sendCh_update (\<lambda>_. ch)) (sessions srv ! i))\<lparr>handler_at := ReadControl\<rparr>)"
    by (simp add: stays_unblocked)
  then show ?thesis
    using assms(1) all_stay_upd [of srv srv i "\<lambda>s. (writer_update (sendCh_update (\<lambda>_. ch)) s)\<lparr>handler_at := ReadControl\<rparr>"]
    by (simp add: eq go_to_def upd_session_def)
next
  case CancelContext
  then have "\<not> blocked (sessions srv ! i)" by (simp add: blocked_def)
  then show ?thesis
    using CancelContext assms
    by (auto simp: handler_exec_def cancel_then_go intro!: all_stay_upd stays_unblocked)
next
  case RemoveEntry
  then have "\<not> blocked (sessions srv ! i)" by (simp add: blocked_def)
  with RemoveEntry assms(2) show ?thesis by (auto simp: handler_exec_def intro!: all_stay_go)
next
  case (RemoveRoutes names)
  then have "\<not> blocked (sessions srv ! i)" by (simp add: blocked_def)
  with RemoveRoutes assms(2) show ?thesis by (auto simp: handler_exec_def intro!: all_stay_go split: if_splits)
next
  case NotifyOwner
  then have "\<not> blocked (sessions srv ! i)" by (simp add: blocked_def)
  with NotifyOwner assms(2) show ?thesis by (auto simp: handler_exec_def intro!: all_stay_go)
qed (use assms(2) in \<open>simp_all add: handler_exec_def\<close>)

lemma all_stay_controlLoop:
  assumes "handler_at (sessions srv ! i) = ReadControl"
  shows "all_stay srv (controlLoop i r srv)"
proof -
  have "\<not> blocked (sessions srv ! i)"
    using assms by (simp add: blocked_def)
  then show ?thesis
    unfolding controlLoop_def Let_def
    by (auto intro!: all_stay_upd stays_unblocked simp: all_stay_same split: sum.split Message.split prod.split)
qed

lemma all_stay_writer:
  assumes "srv' \<in> set (writer_exec i srv)" shows "all_stay srv srv'"
proof -
  obtain c p where cp: "(c, p) \<in> set (cw_exec ((writer (sessions srv ! i))\<lparr>stats := ReqStats srv\<rparr>) (writer_at (sessions srv ! i)))"
    and eq: "srv' = upd_session i (\<lambda>s. s\<lparr>writer := c, writer_at := p\<rparr>) (srv\<lparr>ReqStats := stats c\<rparr>)"
    using assms by (auto simp: writer_exec_def)
  then have "writer_at (sessions srv ! i) \<noteq> Stopped"
    by auto
  then have "stays (sessions srv ! i) ((sessions srv ! i)\<lparr>writer := c, writer_at := p\<rparr>)"
    by (simp add: stays_def blocked_def)
  then show ?thesis
    unfolding eq by (intro all_stay_upd) simp_all
qed

lemma all_stay_refill:
  assumes "(srv', k) \<in> set (ReqWorkConnFunc srv t)" shows "all_stay srv srv'"
proof (cases t)
  case (RefillSend e)
  let ?s = "sessions srv ! entry_reqCh e"
  obtain ch ok where out: "(ch, ok) \<in> set (SendReqWorkConn (reqCh (writer ?s)) (cwdone (writer (sessions srv ! entry_done e))))"
    and eq: "srv' = upd_session (entry_reqCh e) (writer_update (reqCh_update (\<lambda>_. ch))) srv"
    using assms RefillSend by auto
  have "stays ?s (writer_update (reqCh_update (\<lambda>_. ch)) ?s)"
  proof (cases ok)
    case True
    with out have "chan_send (reqCh (writer ?s)) () = Sent ch"
      by (simp add: SendReqWorkConn_outcomes)
    then show ?thesis
      by (auto simp: stays_def blocked_def chan_send_Sent full_def)
  next
    case False
    with out show ?thesis
      by (intro stays_same) (simp_all add: SendReqWorkConn_outcomes)
  qed
  then show ?thesis
    unfolding eq by (intro all_stay_upd) simp_all
qed (use assms in \<open>auto split: option.splits intro: all_stay_same\<close>)

lemma all_stay_step:
  assumes "server_step pbkdf2 others srv srv'" shows "all_stay srv srv'"
  using assms
proof cases
  case (accept iv rnd w inbound c w' es)
  then show ?thesis
    by (elim HandleConnection_cases) (auto simp: all_stay_same opened_def all_stay_def nth_append)
next
  case (handler i)
  then show ?thesis by (rule all_stay_handler)
next
  case (control i r)
  then show ?thesis using all_stay_controlLoop by blast
next
  case (route i names n)
  then have "\<not> blocked (sessions srv ! i)"
    by (simp add: blocked_def)
  with route show ?thesis by (auto intro: all_stay_go)
next
  case (writes i)
  then show ?thesis by (blast intro: all_stay_writer)
next
  case (refill t M srv1 k)
  then show ?thesis
    using all_stay_refill [of srv1 k srv t] by (simp add: all_stay_def)
next
  case (refill_call rid)
  then show ?thesis by (simp add: all_stay_same)
next
  case (owner_moves o')
  then show ?thesis by (simp add: all_stay_same)
qed (auto intro!: all_stay_upd stays_same)

lemma all_stay_steps: "(server_step pbkdf2 others)\<^sup>*\<^sup>* srv srv' \<Longrightarrow> all_stay srv srv'"
  by (induction rule: rtranclp_induct) (auto simp: all_stay_same intro: all_stay_trans all_stay_step)

text \<open>
  C19: Blocked for good: when the writer of a session has returned (its connection broke, or the session was
  cancelled by a reconnect) and its goroutine waits to put a reply or a bootstrap signal into a full queue, then
  in every later state, whatever any goroutine or client does, the goroutine still waits there with the same recorded
  proxies: the sends do not watch the session's context, so the cleanup never runs, and the routes and the
  pool of the session are never released.
\<close>

theorem blocked_forever:
  assumes "i < length (sessions srv)" "blocked (sessions srv ! i)"
    and "(server_step pbkdf2 others)\<^sup>*\<^sup>* srv srv'"
  shows "i < length (sessions srv') \<and> blocked (sessions srv' ! i) \<and>
    handler_at (sessions srv' ! i) = handler_at (sessions srv ! i) \<and>
    registeredProxies (sessions srv' ! i) = registeredProxies (sessions srv ! i) \<and>
    handler_at (sessions srv' ! i) \<noteq> HandlerDone"
  using all_stay_steps [OF assms(3)] assms(1,2) by (auto simp: all_stay_def stays_def blocked_def)

text \<open>
  The counter of requests in flight does not drift back to 0: the signals that were queued when the writer of a
  session returned count as in flight for ever, in every later state.
\<close>

theorem inflight_never_drains:
  assumes "server_reachable pbkdf2 others srv" "i < length (sessions srv)" "writer_at (sessions srv ! i) = Stopped"
    and "(server_step pbkdf2 others)\<^sup>*\<^sup>* srv srv'" "ReqStats srv' = Some st"
  shows "int (length (buf (reqCh (writer (sessions srv ! i))))) \<le> inflight st + int (\<Sum>t\<in>#refills srv'. granted t)"
proof -
  have "prefix (buf (reqCh (writer (sessions srv ! i)))) (buf (reqCh (writer (sessions srv' ! i))))"
    and i: "i < length (sessions srv')"
    using all_stay_steps [OF assms(4)] assms(2,3) by (auto simp: all_stay_def stays_def)
  then have "length (buf (reqCh (writer (sessions srv ! i)))) \<le> pending_signals (sessions srv' ! i)"
    by (auto simp: pending_signals_def dest: prefix_length_le)
  also have "\<dots> \<le> total_pending srv'"
    using i member_le_sum_list [of "pending_signals (sessions srv' ! i)" "map pending_signals (sessions srv')"]
    by (simp add: total_pending_def)
  finally have le: "length (buf (reqCh (writer (sessions srv ! i)))) \<le> total_pending srv'" .
  have "server_reachable pbkdf2 others srv'"
    using assms(1,4) unfolding server_reachable_def by (meson rtranclp_trans)
  then have "int (total_pending srv') = inflight st + int (\<Sum>t\<in>#refills srv'. granted t)"
    using counts_reachable [of pbkdf2 others srv'] assms(5) by (auto simp: counts_inv_def counts_agree_def)
  with le show ?thesis by linarith
qed

subsection \<open>A run into the blocked state\<close>

text \<open>A reconnect cancels a session whose writer is at the top of its loop; the writer returns at once.\<close>

lemma displaced:
  fixes srv :: "unit server"
  assumes s: "sessions srv = [s]" "writer_at s = LoopTop" "GetEntry (controls srv) ''r1'' = Some (entry_of 0)"
  obtains srv' s' s2 where "(server_step toy_pbkdf2 idle)\<^sup>*\<^sup>* srv srv'" "sessions srv' = [s', s2]" "writer_at s' = Stopped"
    "cwdone (writer s')" "reqCh (writer s') = reqCh (writer s)" "sendCh (writer s') = sendCh (writer s)"
    "handler_at s' = handler_at s" "ReqStats srv' = ReqStats srv" "refills srv' = refills srv"
proof -
  let ?c = "(writer s)\<lparr>cwdone := True, stats := ReqStats srv\<rparr>"
  let ?s1 = "writer_update (cwdone_update (\<lambda>_. True)) s"
  define s2 where "s2 = sessions (log_on srv) ! 1"
  have log: "sessions (log_on srv) = [?s1, s2]" "ReqStats (log_on srv) = ReqStats srv" "refills (log_on srv) = refills srv"
    using s by (simp_all add: s2_def log_on_def register_session_eq start_controlLoop_def upd_session_def go_to_def
        cancel_session_def new_session_def Let_def)
  define srv' where "srv' = upd_session 0 (\<lambda>s. s\<lparr>writer := fst (stop ?c), writer_at := Stopped\<rparr>)
      (log_on srv\<lparr>ReqStats := stats (fst (stop ?c))\<rparr>)"
  have "srv' \<in> set (writer_exec 0 (log_on srv))"
    using s log by (simp add: writer_exec_def srv'_def stop_def)
  then have "server_step toy_pbkdf2 idle (log_on srv) srv'"
    using log by (intro server_step.writes [of 0]) simp_all
  then have "(server_step toy_pbkdf2 idle)\<^sup>*\<^sup>* srv srv'"
    using log_on_steps [of toy_pbkdf2 idle srv, OF toy_pbkdf2_length] by (rule rtranclp.rtrancl_into_rtrancl [rotated])
  then show thesis
    by (rule that [of srv' "?s1\<lparr>writer := fst (stop ?c), writer_at := Stopped\<rparr>" s2]) (simp_all add: srv'_def log stop_def)
qed

definition pong :: Message where
  "pong = Pong \<lparr>pong_Error = []\<rparr>"

definition answering :: "nat \<Rightarrow> unit server \<Rightarrow> bool" where
  "answering k srv \<longleftrightarrow> GetEntry (controls srv) ''r1'' = Some (entry_of 0) \<and>
     (\<exists>s. sessions srv = [s] \<and> handler_at s = ReadControl \<and> \<not> conn_closed s \<and> writer_at s = LoopTop \<and>
        sendCh (writer s) = \<lparr>buf = replicate k pong, chcap = controlSendChSize, chclosed = False\<rparr>)"

definition pinged :: "unit server \<Rightarrow> unit server" where
  "pinged srv = controlLoop 0 (Inr (Ping \<lparr>ping_PrivilegeKey = [], ping_Timestamp = 0\<rparr>)) srv"

lemma pinged_step:
  assumes "answering k srv"
  shows "server_step toy_pbkdf2 idle srv (pinged srv)"
  using assms unfolding pinged_def answering_def by (intro server_step.control) auto

lemma answering_Suc:
  assumes "answering k srv" "k < controlSendChSize"
  shows "\<exists>srv'. (server_step toy_pbkdf2 idle)\<^sup>*\<^sup>* srv srv' \<and> answering (Suc k) srv'"
proof -
  obtain s where s: "sessions srv = [s]" "handler_at s = ReadControl" "\<not> conn_closed s" "writer_at s = LoopTop"
      "sendCh (writer s) = \<lparr>buf = replicate k pong, chcap = controlSendChSize, chclosed = False\<rparr>"
    using assms(1) by (auto simp: answering_def)
  let ?ch = "\<lparr>buf = replicate k pong @ [pong], chcap = controlSendChSize, chclosed = False\<rparr>"
  let ?srv2 = "go_to 0 ReadControl (upd_session 0 (writer_update (sendCh_update (\<lambda>_. ?ch))) (pinged srv))"
  have "chan_send (sendCh (writer s)) pong = Sent ?ch"
    using assms(2) s(5) by (simp add: chan_send_def)
  then have "server_step toy_pbkdf2 idle (pinged srv) ?srv2"
    using s(1) by (intro server_step.handler [of 0]) (simp_all add: pinged_def controlLoop_def handler_exec_def send_reply_def pong_def)
  moreover have "answering (Suc k) ?srv2"
    using assms(1) s by (simp add: answering_def pinged_def controlLoop_def replicate_append_same)
  ultimately show ?thesis
    using pinged_step [OF assms(1)] by (meson converse_rtranclp_into_rtranclp r_into_rtranclp)
qed

lemma answering_full:
  "k \<le> controlSendChSize \<Longrightarrow> \<exists>srv. (server_step toy_pbkdf2 idle)\<^sup>*\<^sup>* sample_server srv \<and> answering k srv"
proof (induction k)
  case 0
  have "answering 0 one_session"
    by (simp add: answering_def one_session new_session_def sendLoop_def make_chan_def GetEntry_def entries_def)
  moreover have "(server_step toy_pbkdf2 idle)\<^sup>*\<^sup>* sample_server one_session"
    unfolding one_session_def by (intro log_on_steps toy_pbkdf2_length)
  ultimately show ?case by blast
next
  case (Suc k)
  then show ?case
    using answering_Suc by (meson Suc_le_eq Suc_leD rtranclp_trans)
qed

theorem blocked_forever_witness:
  "\<exists>srv. server_reachable toy_pbkdf2 idle srv \<and> cwdone (writer (sessions srv ! 0)) \<and>
     {srv'. (server_step toy_pbkdf2 idle)\<^sup>*\<^sup>* srv srv'} \<subseteq> {srv'. handler_at (sessions srv' ! 0) = SendReply pong}"
proof -
  obtain srv where srv: "(server_step toy_pbkdf2 idle)\<^sup>*\<^sup>* sample_server srv" "answering controlSendChSize srv"
    using answering_full [OF order_refl] by blast
  then obtain s where s: "sessions srv = [s]" "handler_at s = ReadControl" "writer_at s = LoopTop"
      "length (buf (sendCh (writer s))) = controlSendChSize" "chcap (sendCh (writer s)) = controlSendChSize"
      "GetEntry (controls srv) ''r1'' = Some (entry_of 0)"
    by (auto simp: answering_def)
  have p: "sessions (pinged srv) = [s\<lparr>heartbeatTimer := heartbeatTimer (sessions (pinged srv) ! 0), handler_at := SendReply pong\<rparr>]"
      "controls (pinged srv) = controls srv"
    using s(1) by (simp_all add: pinged_def controlLoop_def pong_def)
  obtain srv' s' s2 where srv': "(server_step toy_pbkdf2 idle)\<^sup>*\<^sup>* (pinged srv) srv'" "sessions srv' = [s', s2]"
      "writer_at s' = Stopped" "cwdone (writer s')" "sendCh (writer s') = sendCh (writer s)" "handler_at s' = SendReply pong"
    by (rule displaced [OF p(1)]) (use s p(2) in simp_all)
  have "(server_step toy_pbkdf2 idle)\<^sup>*\<^sup>* sample_server srv'"
    using srv(1) pinged_step [OF srv(2)] srv'(1) by (meson rtranclp.rtrancl_into_rtrancl rtranclp_trans)
  moreover have "blocked (sessions srv' ! 0)"
    using srv'(2-6) s(4,5) by (simp add: blocked_def full_def)
  ultimately show ?thesis
    using blocked_forever [of 0 srv'] srv'(2,4,6) sample_reachable by fastforce
qed

definition queued_server :: "unit server" where
  "queued_server = (upd_session 0 (writer_update (reqCh_update (\<lambda>ch. ch\<lparr>buf := [()]\<rparr>))) refilling_server)\<lparr>refills := {#RefillCount True#}\<rparr>"

lemma queued_server_step: "server_step toy_pbkdf2 idle refilling_server queued_server"
proof -
  let ?srv1 = "upd_session 0 (writer_update (reqCh_update (\<lambda>ch. ch\<lparr>buf := [()]\<rparr>))) refilling_server"
  have "(?srv1, Some (RefillCount True)) \<in> set (ReqWorkConnFunc refilling_server (RefillSend (entry_of 0)))"
    by (simp add: refilling_server_def one_session new_session_def sendLoop_def make_chan_def SendReqWorkConn_def
        chan_send_def controlReqChSize_def upd_session_def)
  then show ?thesis
    using server_step.refill [of refilling_server "RefillSend (entry_of 0)" "{#}" ?srv1 "Some (RefillCount True)" toy_pbkdf2 idle]
    by (simp add: queued_server_def refilling_server_def)
qed

theorem inflight_never_drains_witness:
  "\<exists>srv. server_reachable toy_pbkdf2 idle srv \<and>
     {srv'. (server_step toy_pbkdf2 idle)\<^sup>*\<^sup>* srv srv' \<and> refills srv' = {#}}
       \<subseteq> {srv'. case ReqStats srv' of Some st \<Rightarrow> 1 \<le> inflight st | None \<Rightarrow> True}"
proof -
  define s where "s = sessions queued_server ! 0"
  have q: "sessions queued_server = [s]" "writer_at s = LoopTop" "buf (reqCh (writer s)) = [()]"
      "GetEntry (controls queued_server) ''r1'' = Some (entry_of 0)"
    by (simp_all add: s_def queued_server_def refilling_server_def one_session new_session_def sendLoop_def GetEntry_def entries_def)
  obtain srv s' s2 where srv: "(server_step toy_pbkdf2 idle)\<^sup>*\<^sup>* queued_server srv" "sessions srv = [s', s2]"
      "writer_at s' = Stopped" "reqCh (writer s') = reqCh (writer s)"
    by (rule displaced [OF q(1,2,4)])
  have "server_reachable toy_pbkdf2 idle srv"
    using refilling_server_reachable queued_server_step srv(1) unfolding server_reachable_def
    by (meson rtranclp.rtrancl_into_rtrancl rtranclp_trans)
  moreover from this have "1 \<le> inflight st"
    if "(server_step toy_pbkdf2 idle)\<^sup>*\<^sup>* srv srv'" "refills srv' = {#}" "ReqStats srv' = Some st" for srv' st
    using inflight_never_drains [of toy_pbkdf2 idle srv 0 srv' st] srv(2-4) q(3) that by simp
  ultimately show ?thesis
    by (intro exI [of _ srv]) (auto split: option.split)
qed

end
