(* ===== verification/Pool.thy ===== *)
theory Pool
  imports Go_Chan
begin

text \<open>
  The work-connection pool of one frpc session, \<^verbatim>\<open>internal/pool/pool.go\<close>, with its concurrency.

  \<open>Pool\<close> is the Go struct. The methods \<^verbatim>\<open>Put\<close>, \<^verbatim>\<open>Get\<close>, \<^verbatim>\<open>Close\<close> and the refill worker are
  goroutines whose atomic actions (a critical section, a channel operation, one operation on an
  atomic) are the program points \<open>pc\<close>; \<open>exec\<close> gives what a goroutine at a program point
  does to the pool, what it does outside (\<open>effect\<close>) and where it continues, one outcome for
  each ready branch of a \<^verbatim>\<open>select\<close>. \<open>pool_step\<close> lets any goroutine run next and any client start a
  call, so that a property of every reachable state holds for every interleaving. A panic ends
  the process.

  The invariants: the buffer bound, the uniqueness of the refill worker, the refill accounting (no
  demand is lost), the conservation of connections, and the teardown protocol. Counters are
  unbounded; the 64-bit counters of the source cannot wrap in practice.
\<close>

section \<open>The struct\<close>

type_synonym conn = nat

record Pool =
  conns :: "conn chan"
  refilling :: bool
  pendingRefills :: nat
  getHit :: nat
  getMiss :: nat
  getTimeout :: nat
  refillDemand :: nat
  refillSent :: nat
  closed :: bool
  closedOnce :: bool

definition defaultCapacity :: nat where "defaultCapacity = 64"
definition minMissRefillBurst :: int where "minMissRefillBurst = 2"
definition maxMissRefillBurst :: int where "maxMissRefillBurst = 8"

text \<open>The variadic \<^verbatim>\<open>capacity\<close> is a list of ints.\<close>

definition New :: "int list \<Rightarrow> Pool" where
  "New capacity =
     (let c = (case capacity of x # _ \<Rightarrow> if x > 0 then nat x else defaultCapacity | [] \<Rightarrow> defaultCapacity)
      in \<lparr>conns = make_chan c, refilling = False, pendingRefills = 0, getHit = 0, getMiss = 0,
          getTimeout = 0, refillDemand = 0, refillSent = 0, closed = False, closedOnce = False\<rparr>)"

definition missRefillBurst :: "Pool \<Rightarrow> nat" where
  "missRefillBurst p =
     (let c = int (chcap (conns p))
      in if c \<le> 0 then nat minMissRefillBurst
         else let burst = c div 4;
                  burst = (if burst < minMissRefillBurst then minMissRefillBurst else burst);
                  burst = (if burst > maxMissRefillBurst then maxMissRefillBurst else burst)
              in nat burst)"

record Stats =
  stats_GetHit :: nat
  stats_GetMiss :: nat
  stats_GetTimeout :: nat
  stats_RefillDemand :: nat
  stats_RefillSent :: nat

definition Pool_Stats :: "Pool \<Rightarrow> Stats" where
  "Pool_Stats p =
     \<lparr>stats_GetHit = getHit p, stats_GetMiss = getMiss p, stats_GetTimeout = getTimeout p,
      stats_RefillDemand = refillDemand p, stats_RefillSent = refillSent p\<rparr>"

section \<open>Goroutines and their atomic actions\<close>

datatype get_error = PoolClosed | GetTimedOut

datatype effect =
    RequestFn
  | ConnClose conn
  | GetReturns conn
  | GetFails get_error
  | SendPanic conn

text \<open>What a \<^verbatim>\<open>Get\<close> does after \<^verbatim>\<open>requestAsyncRefill\<close>: return the connection or wait for one.\<close>

datatype after_refill = ReturnConn conn | WaitConn

datatype pc =
    PutLock conn | PutSend conn
  | GetLock | GetFast | GetHit conn | GetMiss | GetWait
  | RefillDemand nat after_refill | RefillPending nat after_refill | RefillCAS after_refill
  | WorkerSwap | WorkerStore | WorkerLoad | WorkerCAS | WorkerCall nat | WorkerSent nat
  | CloseOnce | CloseLock | CloseChan | CloseDrain

fun resume_effects :: "after_refill \<Rightarrow> effect list" where
  "resume_effects (ReturnConn c) = [GetReturns c]"
| "resume_effects WaitConn = []"

fun resume_at :: "after_refill \<Rightarrow> pc list" where
  "resume_at (ReturnConn c) = []"
| "resume_at WaitConn = [GetWait]"

type_synonym outcome = "Pool \<times> effect list \<times> pc list"

fun exec_put :: "Pool \<Rightarrow> pc \<Rightarrow> outcome list" where
  "exec_put p (PutLock c) = [if closed p then (p, [ConnClose c], []) else (p, [], [PutSend c])]"
| "exec_put p (PutSend c) =
     [case chan_send (conns p) c of
        Sent ch \<Rightarrow> (p\<lparr>conns := ch\<rparr>, [], [])
      | SendBlocks \<Rightarrow> (p, [ConnClose c], [])
      | SendPanics \<Rightarrow> (p, [SendPanic c], [])]"
| "exec_put p _ = []"

fun exec_get :: "Pool \<Rightarrow> pc \<Rightarrow> outcome list" where
  "exec_get p GetLock = [if closed p then (p, [GetFails PoolClosed], []) else (p, [], [GetFast])]"
| "exec_get p GetFast =
     [case chan_recv (conns p) of
        Received c ch \<Rightarrow> (p\<lparr>conns := ch\<rparr>, [], [GetHit c])
      | RecvClosed \<Rightarrow> (p, [GetFails PoolClosed], [])
      | RecvBlocks \<Rightarrow> (p, [], [GetMiss])]"
| "exec_get p (GetHit c) = [(p\<lparr>getHit := getHit p + 1\<rparr>, [], [RefillDemand 1 (ReturnConn c)])]"
| "exec_get p GetMiss =
     [(p\<lparr>getMiss := getMiss p + 1\<rparr>, [], [RefillDemand (missRefillBurst p) WaitConn])]"
| "exec_get p GetWait =
     (case chan_recv (conns p) of
        Received c ch \<Rightarrow> [(p\<lparr>conns := ch\<rparr>, [], [RefillDemand 1 (ReturnConn c)])]
      | RecvClosed \<Rightarrow> [(p, [GetFails PoolClosed], [])]
      | RecvBlocks \<Rightarrow> []) @
     [(p\<lparr>getTimeout := getTimeout p + 1\<rparr>, [GetFails GetTimedOut], [])]"
| "exec_get p _ = []"

text \<open>\<^verbatim>\<open>requestAsyncRefill\<close> and the compare-and-swap of \<^verbatim>\<open>startRefillWorker\<close>.\<close>

fun exec_refill :: "Pool \<Rightarrow> pc \<Rightarrow> outcome list" where
  "exec_refill p (RefillDemand n k) =
     [if n = 0 then (p, resume_effects k, resume_at k)
      else (p\<lparr>refillDemand := refillDemand p + n\<rparr>, [], [RefillPending n k])]"
| "exec_refill p (RefillPending n k) = [(p\<lparr>pendingRefills := pendingRefills p + n\<rparr>, [], [RefillCAS k])]"
| "exec_refill p (RefillCAS k) =
     [if refilling p then (p, resume_effects k, resume_at k)
      else (p\<lparr>refilling := True\<rparr>, resume_effects k, WorkerSwap # resume_at k)]"
| "exec_refill p _ = []"

text \<open>The goroutine that \<^verbatim>\<open>startRefillWorker\<close> spawns.\<close>

fun exec_worker :: "Pool \<Rightarrow> pc \<Rightarrow> outcome list" where
  "exec_worker p WorkerSwap =
     [(p\<lparr>pendingRefills := 0\<rparr>, [],
       [if pendingRefills p = 0 then WorkerStore else WorkerCall (pendingRefills p)])]"
| "exec_worker p WorkerStore = [(p\<lparr>refilling := False\<rparr>, [], [WorkerLoad])]"
| "exec_worker p WorkerLoad = [(p, [], if pendingRefills p = 0 then [] else [WorkerCAS])]"
| "exec_worker p WorkerCAS =
     [if refilling p then (p, [], []) else (p\<lparr>refilling := True\<rparr>, [], [WorkerSwap])]"
| "exec_worker p (WorkerCall n) = [(p, [RequestFn], [WorkerSent n])]"
| "exec_worker p (WorkerSent n) =
     [(p\<lparr>refillSent := refillSent p + 1\<rparr>, [], [if n \<le> 1 then WorkerSwap else WorkerCall (n - 1)])]"
| "exec_worker p _ = []"

fun exec_close :: "Pool \<Rightarrow> pc \<Rightarrow> outcome list" where
  "exec_close p CloseOnce =
     [if closedOnce p then (p, [], []) else (p\<lparr>closedOnce := True\<rparr>, [], [CloseLock])]"
| "exec_close p CloseLock = [(p\<lparr>closed := True\<rparr>, [], [CloseChan])]"
| "exec_close p CloseChan = [(p\<lparr>conns := chan_close (conns p)\<rparr>, [], [CloseDrain])]"
| "exec_close p CloseDrain =
     (case chan_recv (conns p) of
        Received c ch \<Rightarrow> [(p\<lparr>conns := ch\<rparr>, [ConnClose c], [CloseDrain])]
      | RecvClosed \<Rightarrow> [(p, [], [])]
      | RecvBlocks \<Rightarrow> [])"
| "exec_close p _ = []"

definition exec :: "Pool \<Rightarrow> pc \<Rightarrow> outcome list" where
  "exec p t = exec_put p t @ exec_get p t @ exec_refill p t @ exec_worker p t @ exec_close p t"

section \<open>Interleavings\<close>

record pool_sys =
  pool :: Pool
  threads :: "pc multiset"
  effects :: "effect list"
  offered :: "conn multiset"

definition init_sys :: "int list \<Rightarrow> pool_sys" where
  "init_sys capacity = \<lparr>pool = New capacity, threads = {#}, effects = [], offered = {#}\<rparr>"

definition alive :: "pool_sys \<Rightarrow> bool" where
  "alive s \<longleftrightarrow> (\<forall>c. SendPanic c \<notin> set (effects s))"

inductive pool_step :: "pool_sys \<Rightarrow> pool_sys \<Rightarrow> bool" where
  call_Put: "alive s \<Longrightarrow>
     pool_step s (s\<lparr>threads := add_mset (PutLock c) (threads s), offered := add_mset c (offered s)\<rparr>)"
| call_Get: "alive s \<Longrightarrow> pool_step s (s\<lparr>threads := add_mset GetLock (threads s)\<rparr>)"
| call_Close: "alive s \<Longrightarrow> pool_step s (s\<lparr>threads := add_mset CloseOnce (threads s)\<rparr>)"
| run_thread: "alive s \<Longrightarrow> threads s = add_mset t M \<Longrightarrow> (p', es, ts) \<in> set (exec (pool s) t) \<Longrightarrow>
     pool_step s (s\<lparr>pool := p', threads := M + mset ts, effects := effects s @ es\<rparr>)"

abbreviation pool_steps :: "pool_sys \<Rightarrow> pool_sys \<Rightarrow> bool" where
  "pool_steps \<equiv> pool_step\<^sup>*\<^sup>*"

definition reachable :: "int list \<Rightarrow> pool_sys \<Rightarrow> bool" where
  "reachable capacity s \<longleftrightarrow> pool_steps (init_sys capacity) s"

text \<open>An invariant only has to be checked for a new call and for one action of one goroutine.\<close>

lemma reachable_induct [consumes 1, case_names init spawn run]:
  assumes "reachable capacity s"
    and "P (init_sys capacity)"
    and "\<And>s t cs. P s \<Longrightarrow> (t, cs) \<in> {(PutLock c, {#c#}) | c. True} \<union> {(GetLock, {#}), (CloseOnce, {#})} \<Longrightarrow>
           P (s\<lparr>threads := add_mset t (threads s), offered := cs + offered s\<rparr>)"
    and "\<And>s t M p' es ts. P s \<Longrightarrow> alive s \<Longrightarrow> threads s = add_mset t M \<Longrightarrow> (p', es, ts) \<in> set (exec (pool s) t) \<Longrightarrow>
           P (s\<lparr>pool := p', threads := M + mset ts, effects := effects s @ es\<rparr>)"
  shows "P s"
  using assms(1) unfolding reachable_def
proof (induction rule: rtranclp_induct)
  case (step s s')
  from step.hyps(2) step.IH show ?case
  proof (cases rule: pool_step.cases)
    case (call_Put c)
    then show ?thesis using assms(3) [OF step.IH, of "PutLock c" "{#c#}"] by simp
  next
    case call_Get
    then show ?thesis using assms(3) [OF step.IH, of GetLock "{#}"] by simp
  next
    case call_Close
    then show ?thesis using assms(3) [OF step.IH, of CloseOnce "{#}"] by simp
  next
    case (run_thread t M p' es ts)
    then show ?thesis using assms(4) [OF step.IH] by simp
  qed
qed (rule assms(2))

section \<open>Invariants\<close>

definition total :: "(pc \<Rightarrow> 'n::comm_monoid_add) \<Rightarrow> pc multiset \<Rightarrow> 'n" where
  "total f M = sum_mset (image_mset f M)"

lemma total_simps [simp]:
  "total f {#} = 0" "total f (add_mset t M) = f t + total f M" "total f (M + N) = total f M + total f N"
  by (simp_all add: total_def)

text \<open>The worker that holds the \<^verbatim>\<open>refilling\<close> flag.\<close>

fun owner :: "pc \<Rightarrow> nat" where
  "owner WorkerSwap = 1" | "owner WorkerStore = 1" | "owner (WorkerCall n) = 1" | "owner (WorkerSent n) = 1"
| "owner _ = 0"

text \<open>Goroutines that will still look at \<^verbatim>\<open>pendingRefills\<close> or start the worker.\<close>

fun drainer :: "pc \<Rightarrow> nat" where
  "drainer WorkerLoad = 1" | "drainer WorkerCAS = 1" | "drainer (RefillCAS k) = 1" | "drainer t = owner t"

text \<open>Refills that are accounted as demand and neither pending nor sent.\<close>

fun owed :: "pc \<Rightarrow> nat" where
  "owed (RefillPending n k) = n" | "owed (WorkerCall n) = n" | "owed (WorkerSent n) = n" | "owed _ = 0"

fun called :: "pc \<Rightarrow> nat" where
  "called (WorkerSent n) = 1" | "called _ = 0"

fun conn_of :: "after_refill \<Rightarrow> conn multiset" where
  "conn_of (ReturnConn c) = {#c#}" | "conn_of WaitConn = {#}"

fun held :: "pc \<Rightarrow> conn multiset" where
  "held (PutLock c) = {#c#}" | "held (PutSend c) = {#c#}" | "held (GetHit c) = {#c#}"
| "held (RefillDemand n k) = conn_of k" | "held (RefillPending n k) = conn_of k"
| "held (RefillCAS k) = conn_of k" | "held _ = {#}"

fun conn_out :: "effect \<Rightarrow> conn multiset" where
  "conn_out (ConnClose c) = {#c#}" | "conn_out (GetReturns c) = {#c#}" | "conn_out (SendPanic c) = {#c#}"
| "conn_out _ = {#}"

definition conns_out :: "effect list \<Rightarrow> conn multiset" where
  "conns_out es = sum_list (map conn_out es)"

definition requests :: "effect list \<Rightarrow> nat" where
  "requests es = count_list es RequestFn"

lemma count_list_snoc [simp]: "count_list (xs @ ys) z = count_list xs z + count_list ys z"
  by (induction xs) auto

lemma effects_simps [simp]:
  "conns_out [] = {#}" "conns_out (e # es) = conn_out e + conns_out es"
  "conns_out (es @ es') = conns_out es + conns_out es'"
  "requests [] = 0" "requests (es @ es') = requests es + requests es'"
  "requests (e # es) = (if e = RequestFn then 1 else 0) + requests es"
  by (simp_all add: conns_out_def requests_def)

definition bound_inv :: "pool_sys \<Rightarrow> bool" where
  "bound_inv s \<longleftrightarrow> length (buf (conns (pool s))) \<le> chcap (conns (pool s))"

definition worker_inv :: "pool_sys \<Rightarrow> bool" where
  "worker_inv s \<longleftrightarrow> total owner (threads s) = (if refilling (pool s) then 1 else 0)"

definition worker_pc_ok :: "pc \<Rightarrow> bool" where
  "worker_pc_ok t \<longleftrightarrow> t \<noteq> WorkerCall 0 \<and> t \<noteq> WorkerSent 0"

definition refill_inv :: "pool_sys \<Rightarrow> bool" where
  "refill_inv s \<longleftrightarrow>
     refillDemand (pool s) = pendingRefills (pool s) + refillSent (pool s) + total owed (threads s) \<and>
     requests (effects s) = refillSent (pool s) + total called (threads s)"

definition worker_pcs_ok :: "pool_sys \<Rightarrow> bool" where
  "worker_pcs_ok s \<longleftrightarrow> (\<forall>t \<in># threads s. worker_pc_ok t)"

definition drain_inv :: "pool_sys \<Rightarrow> bool" where
  "drain_inv s \<longleftrightarrow> (0 < pendingRefills (pool s) \<longrightarrow> 0 < total drainer (threads s))"

definition conn_inv :: "pool_sys \<Rightarrow> bool" where
  "conn_inv s \<longleftrightarrow>
     offered s = mset (buf (conns (pool s))) + conns_out (effects s) + total held (threads s)"

lemmas exec_simps = exec_def chan_send_def chan_recv_def chan_close_def

lemma resume_simps [simp]:
  "total owner (mset (resume_at k)) = 0" "total owed (mset (resume_at k)) = 0"
  "total called (mset (resume_at k)) = 0" "requests (resume_effects k) = 0"
  "total drainer (mset (resume_at k)) = 0"
  "conns_out (resume_effects k) + total held (mset (resume_at k)) = conn_of k"
  by (cases k; simp)+

lemma resume_at_ok: "t \<in> set (resume_at k) \<Longrightarrow> worker_pc_ok t"
  by (cases k) (auto simp: worker_pc_ok_def)

lemma bound_inv_reachable: "reachable capacity s \<Longrightarrow> bound_inv s"
proof (induction rule: reachable_induct)
  case (run s t M p' es ts)
  then show ?case
    by (cases t) (auto simp: exec_simps bound_inv_def split: if_splits list.splits)
qed (auto simp: bound_inv_def init_sys_def New_def make_chan_def)

lemma exec_pc_ok:
  "(p', es, ts) \<in> set (exec p t) \<Longrightarrow> worker_pc_ok t \<Longrightarrow> t' \<in> set ts \<Longrightarrow> worker_pc_ok t'"
  by (cases t) (auto simp: exec_simps worker_pc_ok_def dest: resume_at_ok split: if_splits list.splits)

text \<open>How one action changes the refill accounts.\<close>

lemma exec_refill_accounts:
  assumes "(p', es, ts) \<in> set (exec p t)" "worker_pc_ok t"
  shows "refillDemand p' + (pendingRefills p + refillSent p + owed t)
       = refillDemand p + (pendingRefills p' + refillSent p' + total owed (mset ts))"
    and "refillSent p + called t + requests es = refillSent p' + total called (mset ts)"
  using assms by (cases t; auto simp: exec_simps worker_pc_ok_def split: if_splits list.splits)+

lemma refill_inv_reachable: "reachable capacity s \<Longrightarrow> worker_pcs_ok s \<and> refill_inv s"
proof (induction rule: reachable_induct)
  case (run s t M p' es ts)
  then have "worker_pc_ok t"
    by (simp add: worker_pcs_ok_def)
  with run exec_pc_ok [OF run(4)] exec_refill_accounts [OF run(4)] show ?case
    by (auto simp: refill_inv_def worker_pcs_ok_def)
next
  case (spawn s t cs)
  have "owed t = 0" "called t = 0" "worker_pc_ok t"
    using spawn(2) by (auto simp: worker_pc_ok_def)
  with spawn(1) show ?case by (simp add: refill_inv_def worker_pcs_ok_def)
qed (simp add: refill_inv_def worker_pcs_ok_def init_sys_def New_def Let_def)

lemma owner_le_drainer: "total owner N \<le> total drainer N"
proof (induction N)
  case (add t N)
  then show ?case by (cases t) auto
qed simp

lemma drain_inv_reachable: "reachable capacity s \<Longrightarrow> worker_inv s \<and> drain_inv s"
proof (induction rule: reachable_induct)
  case (run s t M p' es ts)
  have "0 < pendingRefills p' \<Longrightarrow> 0 < total drainer M + total drainer (mset ts)"
    using run owner_le_drainer [of M]
    by (cases t) (auto simp: exec_simps worker_inv_def drain_inv_def split: if_splits list.splits)
  moreover have "worker_inv (s\<lparr>pool := p', threads := M + mset ts, effects := effects s @ es\<rparr>)"
    using run by (cases t) (auto simp: exec_simps worker_inv_def split: if_splits list.splits)
  ultimately show ?case
    by (simp add: drain_inv_def)
qed (auto simp: worker_inv_def drain_inv_def init_sys_def New_def)

lemma conn_inv_reachable: "reachable capacity s \<Longrightarrow> conn_inv s"
proof (induction rule: reachable_induct)
  case (run s t M p' es ts)
  have "mset (buf (conns (pool s))) + held t = mset (buf (conns p')) + conns_out es + total held (mset ts)"
    using run(4) by (cases t) (auto simp: exec_simps split: if_splits list.splits)
  with run show ?case
    by (simp add: conn_inv_def add_ac)
qed (auto simp: conn_inv_def init_sys_def New_def make_chan_def)

text \<open>Teardown: the stages of \<^verbatim>\<open>Close\<close> and the closed flags go together.\<close>

fun at_lock :: "pc \<Rightarrow> nat" where "at_lock CloseLock = 1" | "at_lock _ = 0"
fun at_chan :: "pc \<Rightarrow> nat" where "at_chan CloseChan = 1" | "at_chan _ = 0"
fun at_drain :: "pc \<Rightarrow> nat" where "at_drain CloseDrain = 1" | "at_drain _ = 0"

definition close_inv :: "pool_sys \<Rightarrow> bool" where
  "close_inv s \<longleftrightarrow> (let p = pool s; n = (\<lambda>b. if b then 1 else 0) in
     n (closedOnce p) = total at_lock (threads s) + n (closed p) \<and>
     n (closed p) = total at_chan (threads s) + n (chclosed (conns p)) \<and>
     total at_drain (threads s) \<le> n (chclosed (conns p)) \<and>
     (chclosed (conns p) \<longrightarrow> total at_drain (threads s) = 0 \<longrightarrow> buf (conns p) = []))"

lemma resume_close [simp]:
  "total at_lock (mset (resume_at k)) = 0" "total at_chan (mset (resume_at k)) = 0"
  "total at_drain (mset (resume_at k)) = 0" "SendPanic c \<notin> set (resume_effects k)"
  by (cases k; simp)+

definition closing :: "pc \<Rightarrow> bool" where
  "closing t \<longleftrightarrow> t \<in> {CloseOnce, CloseLock, CloseChan, CloseDrain}"

lemma exec_not_closing:
  assumes "(p', es, ts) \<in> set (exec p t)" "\<not> closing t"
  shows "closedOnce p' = closedOnce p \<and> closed p' = closed p \<and> chclosed (conns p') = chclosed (conns p)"
    and "total at_lock (mset ts) = 0 \<and> total at_chan (mset ts) = 0 \<and> total at_drain (mset ts) = 0"
    and "chclosed (conns p) \<Longrightarrow> buf (conns p) = [] \<Longrightarrow> buf (conns p') = []"
  using assms by (cases t; simp add: exec_simps closing_def split: if_splits list.splits; force)+

lemma close_inv_reachable: "reachable capacity s \<Longrightarrow> close_inv s"
proof (induction rule: reachable_induct)
  case (run s t M p' es ts)
  show ?case
  proof (cases "closing t")
    case False
    then have "at_lock t = 0" "at_chan t = 0" "at_drain t = 0"
      by (cases t; simp add: closing_def)+
    with run(1,3) exec_not_closing [OF run(4) False] show ?thesis
      by (simp add: close_inv_def Let_def)
  next
    case True
    then consider "t = CloseOnce" | "t = CloseLock" | "t = CloseChan" | "t = CloseDrain"
      by (auto simp: closing_def)
    then show ?thesis
    proof cases
      case 1
      with run(1,3,4) show ?thesis
        by (cases "closedOnce (pool s)") (simp_all add: exec_def close_inv_def Let_def)
    next
      case 2
      with run(1,3,4) show ?thesis
        by (cases "closedOnce (pool s)"; cases "closed (pool s)") (simp_all add: exec_def close_inv_def Let_def)
    next
      case 3
      with run(1,3,4) show ?thesis
        by (cases "closed (pool s)"; cases "chclosed (conns (pool s))")
          (simp_all add: exec_def close_inv_def Let_def chan_close_def)
    next
      case 4
      with run(1,3,4) show ?thesis
        by (cases "chclosed (conns (pool s))"; cases "buf (conns (pool s))")
          (simp_all add: exec_def close_inv_def Let_def chan_recv_def)
    qed
  qed
next
  case (spawn s t cs)
  have "at_lock t = 0" "at_chan t = 0" "at_drain t = 0"
    using spawn(2) by auto
  with spawn(1) show ?case by (simp add: close_inv_def Let_def)
qed (simp add: close_inv_def init_sys_def New_def make_chan_def Let_def)

lemma panic_closed: "reachable capacity s \<Longrightarrow> SendPanic c \<in> set (effects s) \<Longrightarrow> chclosed (conns (pool s))"
proof (induction rule: reachable_induct)
  case (run s t M p' es ts)
  then show ?case
    by (cases t) (auto simp: exec_simps alive_def split: if_splits list.splits)
qed (auto simp: init_sys_def)

section \<open>Every run comes to rest\<close>

text \<open>One action of a goroutine, with no new call.\<close>

inductive thread_step :: "pool_sys \<Rightarrow> pool_sys \<Rightarrow> bool" where
  "alive s \<Longrightarrow> threads s = add_mset t M \<Longrightarrow> (p', es, ts) \<in> set (exec (pool s) t) \<Longrightarrow>
     thread_step s (s\<lparr>pool := p', threads := M + mset ts, effects := effects s @ es\<rparr>)"

lemma thread_step_pool_step: "thread_step s s' \<Longrightarrow> pool_step s s'"
  by (auto elim!: thread_step.cases intro: pool_step.run_thread)









lemma thread_steps_reachable: "reachable capacity s \<Longrightarrow> thread_step\<^sup>*\<^sup>* s s' \<Longrightarrow> reachable capacity s'"
  unfolding reachable_def
  by (rule rtranclp_trans) (auto elim: rtranclp_mono [THEN predicate2D, rotated] intro: thread_step_pool_step)



section \<open>Calls that run undisturbed\<close>

text \<open>\<^verbatim>\<open>Put\<close> and \<^verbatim>\<open>Close\<close> as functions, for callers that see no interference.\<close>

definition Put :: "Pool \<Rightarrow> conn \<Rightarrow> Pool \<times> effect list" where
  "Put p c =
     (if closed p then (p, [ConnClose c])
      else case chan_send (conns p) c of
             Sent ch \<Rightarrow> (p\<lparr>conns := ch\<rparr>, [])
           | SendBlocks \<Rightarrow> (p, [ConnClose c])
           | SendPanics \<Rightarrow> (p, [SendPanic c]))"

definition Close :: "Pool \<Rightarrow> Pool \<times> effect list" where
  "Close p =
     (if closedOnce p then (p, [])
      else (p\<lparr>closedOnce := True, closed := True, conns := (chan_close (conns p))\<lparr>buf := []\<rparr>\<rparr>,
            map ConnClose (buf (conns p))))"

lemma thread_step_exec:
  assumes "alive s" "threads s = add_mset t M" "exec (pool s) t = [(p', es, ts)]"
    and "s' = s\<lparr>pool := p', threads := M + mset ts, effects := effects s @ es\<rparr>"
  shows "thread_step s s'"
  unfolding assms(4) using assms(1-3) by (intro thread_step.intros) auto

lemma drain_run:
  "alive s \<Longrightarrow> threads s = add_mset CloseDrain M \<Longrightarrow> chclosed (conns (pool s)) \<Longrightarrow> buf (conns (pool s)) = cs \<Longrightarrow>
   thread_step\<^sup>*\<^sup>* s (s\<lparr>pool := (pool s)\<lparr>conns := (conns (pool s))\<lparr>buf := []\<rparr>\<rparr>, threads := M,
                     effects := effects s @ map ConnClose cs\<rparr>)"
proof (induction cs arbitrary: s)
  case Nil
  then have "thread_step s (s\<lparr>threads := M\<rparr>)"
    by (intro thread_step_exec [of s CloseDrain M "pool s" "[]" "[]"]) (simp_all add: exec_simps)
  moreover have "(pool s)\<lparr>conns := (conns (pool s))\<lparr>buf := []\<rparr>\<rparr> = pool s"
    using Nil.prems(4) by (intro Pool.Pool.equality chan.equality) simp_all
  ultimately show ?case by simp
next
  case (Cons c cs)
  let ?s = "s\<lparr>pool := (pool s)\<lparr>conns := (conns (pool s))\<lparr>buf := cs\<rparr>\<rparr>, effects := effects s @ [ConnClose c]\<rparr>"
  have "thread_step s ?s"
    using Cons.prems
    by (intro thread_step_exec [of s CloseDrain M "(pool s)\<lparr>conns := (conns (pool s))\<lparr>buf := cs\<rparr>\<rparr>"
          "[ConnClose c]" "[CloseDrain]"]) (simp_all add: exec_simps)
  moreover have "alive ?s" using Cons.prems by (simp add: alive_def)
  ultimately show ?case
    using Cons.IH [of ?s] Cons.prems by (simp add: converse_rtranclp_into_rtranclp)
qed

lemma Close_run:
  assumes "alive s" "threads s = add_mset CloseOnce M"
  shows "thread_step\<^sup>*\<^sup>* s (s\<lparr>pool := fst (Close (pool s)), threads := M,
                            effects := effects s @ snd (Close (pool s))\<rparr>)"
proof (cases "closedOnce (pool s)")
  case True
  with assms have "thread_step s (s\<lparr>threads := M\<rparr>)"
    by (intro thread_step_exec [of s CloseOnce M "pool s" "[]" "[]"]) (simp_all add: exec_simps)
  with True show ?thesis by (simp add: Close_def)
next
  case False
  let ?p1 = "(pool s)\<lparr>closedOnce := True\<rparr>"
  let ?p2 = "?p1\<lparr>closed := True\<rparr>"
  let ?p3 = "?p2\<lparr>conns := chan_close (conns ?p2)\<rparr>"
  let ?at = "\<lambda>p t. s\<lparr>pool := p, threads := add_mset t M\<rparr>"
  have 1: "thread_step s (?at ?p1 CloseLock)"
    using assms False
    by (intro thread_step_exec [of s CloseOnce M ?p1 "[]" "[CloseLock]"]) (simp_all add: exec_def)
  have 2: "thread_step (?at ?p1 CloseLock) (?at ?p2 CloseChan)"
    using assms
    by (intro thread_step_exec [of _ CloseLock M ?p2 "[]" "[CloseChan]"]) (simp_all add: exec_def alive_def)
  have 3: "thread_step (?at ?p2 CloseChan) (?at ?p3 CloseDrain)"
    using assms
    by (intro thread_step_exec [of _ CloseChan M ?p3 "[]" "[CloseDrain]"]) (simp_all add: exec_def alive_def)
  have 4: "thread_step\<^sup>*\<^sup>* (?at ?p3 CloseDrain)
      (s\<lparr>pool := fst (Close (pool s)), threads := M, effects := effects s @ snd (Close (pool s))\<rparr>)"
    using drain_run [of "?at ?p3 CloseDrain" M "buf (conns (pool s))"] assms False
    by (simp add: Close_def alive_def chan_close_def)
  from 1 2 3 4 show ?thesis
    by (meson converse_rtranclp_into_rtranclp)
qed

lemma Put_run:
  assumes "alive s" "threads s = add_mset (PutLock c) M"
  shows "thread_step\<^sup>*\<^sup>* s (s\<lparr>pool := fst (Put (pool s) c), threads := M,
                            effects := effects s @ snd (Put (pool s) c)\<rparr>)"
proof (cases "closed (pool s)")
  case True
  with assms have "thread_step s (s\<lparr>threads := M, effects := effects s @ [ConnClose c]\<rparr>)"
    by (intro thread_step_exec [of s "PutLock c" M "pool s" "[ConnClose c]" "[]"]) (simp_all add: exec_simps)
  with True show ?thesis by (simp add: Put_def)
next
  case False
  let ?s = "s\<lparr>threads := add_mset (PutSend c) M\<rparr>"
  have "thread_step s ?s"
    using assms False
    by (intro thread_step_exec [of s "PutLock c" M "pool s" "[]" "[PutSend c]"]) (simp_all add: exec_def)
  moreover have "thread_step ?s (s\<lparr>pool := fst (Put (pool s) c), threads := M,
                            effects := effects s @ snd (Put (pool s) c)\<rparr>)"
    using assms False
    by (intro thread_step_exec [of _ "PutSend c" M "fst (Put (pool s) c)" "snd (Put (pool s) c)" "[]"])
      (simp_all add: exec_def alive_def Put_def split: send_outcome.split)
  ultimately show ?thesis
    by (meson converse_rtranclp_into_rtranclp r_into_rtranclp)
qed

section \<open>Schedules\<close>

text \<open>A schedule names the call or the goroutine (and its outcome) that comes next.\<close>

datatype sched = DoPut conn | DoGet | DoClose | Run pc nat

fun sched_step :: "pool_sys \<Rightarrow> sched \<Rightarrow> pool_sys option" where
  "sched_step s (DoPut c) =
     (if alive s
      then Some (s\<lparr>threads := add_mset (PutLock c) (threads s), offered := add_mset c (offered s)\<rparr>) else None)"
| "sched_step s DoGet = (if alive s then Some (s\<lparr>threads := add_mset GetLock (threads s)\<rparr>) else None)"
| "sched_step s DoClose = (if alive s then Some (s\<lparr>threads := add_mset CloseOnce (threads s)\<rparr>) else None)"
| "sched_step s (Run t k) =
     (if alive s \<and> t \<in># threads s \<and> k < length (exec (pool s) t) then
        (case exec (pool s) t ! k of
           (p', es, ts) \<Rightarrow> Some (s\<lparr>pool := p', threads := threads s - {#t#} + mset ts, effects := effects s @ es\<rparr>))
      else None)"

fun run_sched :: "pool_sys \<Rightarrow> sched list \<Rightarrow> pool_sys option" where
  "run_sched s [] = Some s"
| "run_sched s (c # cs) = (case sched_step s c of None \<Rightarrow> None | Some s' \<Rightarrow> run_sched s' cs)"

lemma sched_step_sound: "sched_step s c = Some s' \<Longrightarrow> pool_step s s'"
proof (cases c)
  case (Run t k)
  assume *: "sched_step s c = Some s'"
  with Run obtain p' es ts where x: "exec (pool s) t ! k = (p', es, ts)" "k < length (exec (pool s) t)"
    "t \<in># threads s" "alive s"
    "s' = s\<lparr>pool := p', threads := threads s - {#t#} + mset ts, effects := effects s @ es\<rparr>"
    by (auto split: if_splits prod.splits)
  then have "(p', es, ts) \<in> set (exec (pool s) t)" "threads s = add_mset t (threads s - {#t#})"
    by (metis nth_mem) (use x in simp)
  with x show ?thesis
    using pool_step.run_thread by metis
qed (auto intro: pool_step.intros split: if_splits)

lemma run_sched_sound: "run_sched s cs = Some s' \<Longrightarrow> pool_steps s s'"
proof (induction cs arbitrary: s)
  case (Cons c cs)
  then show ?case
    by (auto split: option.splits dest: sched_step_sound intro: converse_rtranclp_into_rtranclp)
qed simp

lemma run_sched_reachable: "run_sched (init_sys capacity) cs = Some s \<Longrightarrow> reachable capacity s"
  by (simp add: reachable_def run_sched_sound)

lemmas sched_eval = init_sys_def New_def make_chan_def alive_def exec_simps Let_def defaultCapacity_def
  missRefillBurst_def minMissRefillBurst_def maxMissRefillBurst_def

definition example_sched :: "sched list" where
  "example_sched =
     [DoPut 7, DoGet, Run (PutLock 7) 0, Run (PutSend 7) 0, Run GetLock 0, Run GetFast 0,
      Run (GetHit 7) 0, Run (RefillDemand 1 (ReturnConn 7)) 0, Run (RefillPending 1 (ReturnConn 7)) 0,
      Run (RefillCAS (ReturnConn 7)) 0, Run WorkerSwap 0, Run (WorkerCall 1) 0, Run (WorkerSent 1) 0,
      Run WorkerSwap 0, Run WorkerStore 0, Run WorkerLoad 0]"

definition example_sys :: pool_sys where
  "example_sys = the (run_sched (init_sys [4]) example_sched)"

lemma example_sys: "example_sys =
   \<lparr>pool = (New [4])\<lparr>getHit := 1, refillDemand := 1, refillSent := 1\<rparr>, threads = {#},
    effects = [GetReturns 7, RequestFn], offered = {#7#}\<rparr>"
  by (simp add: example_sys_def example_sched_def sched_eval)

lemma example_sys_reachable: "reachable [4] example_sys"
  by (rule run_sched_reachable [of _ example_sched]) (simp add: example_sys example_sched_def sched_eval)

section \<open>Properties\<close>

text \<open>
  C4: In every interleaving at most one refill worker is active, namely exactly when the
  \<^verbatim>\<open>refilling\<close> flag is set, and no refill demand is ever lost: the demand counter is what is
  pending, sent or in the hands of a goroutine, pending demand always has a goroutine that
  will look at it again, and when all goroutines have come to rest every unit of demand was
  turned into exactly one call of \<^verbatim>\<open>requestFn\<close>.
\<close>

theorem pool_no_lost_demand:
  assumes "reachable capacity s"
  shows "total owner (threads s) = (if refilling (pool s) then 1 else 0) \<and>
    refillDemand (pool s) = pendingRefills (pool s) + refillSent (pool s) + total owed (threads s) \<and>
    (0 < pendingRefills (pool s) \<longrightarrow> 0 < total drainer (threads s)) \<and>
    (threads s = {#} \<longrightarrow> pendingRefills (pool s) = 0 \<and> \<not> refilling (pool s) \<and>
       refillSent (pool s) = refillDemand (pool s) \<and> requests (effects s) = refillDemand (pool s))"
  using drain_inv_reachable [OF assms] refill_inv_reachable [OF assms]
  by (auto simp: worker_inv_def drain_inv_def refill_inv_def split: if_splits)

theorem pool_no_lost_demand_witness:
  "reachable [4] example_sys \<and> requests (effects example_sys) = refillDemand (pool example_sys)"
  using pool_no_lost_demand [OF example_sys_reachable] example_sys_reachable
  by (simp add: example_sys)

text \<open>
  C10: Connections are conserved in every interleaving: each one that was offered to \<^verbatim>\<open>Put\<close> is at
  any time in exactly one place, in the buffer, in the hands of one goroutine, returned by one
  \<^verbatim>\<open>Get\<close>, or closed (lost to a panic at worst); in particular none is handed to two callers or
  leaked. The buffer never exceeds its capacity.
\<close>

theorem pool_conserves_conns:
  assumes "reachable capacity s"
  shows "offered s = mset (buf (conns (pool s))) + conns_out (effects s) + total held (threads s)
    \<and> length (buf (conns (pool s))) \<le> chcap (conns (pool s))"
  using conn_inv_reachable [OF assms] bound_inv_reachable [OF assms]
  by (simp add: conn_inv_def bound_inv_def)

theorem pool_conserves_conns_witness:
  "reachable [4] example_sys \<and> conns_out (effects example_sys) = {#7#}"
  using pool_conserves_conns [OF example_sys_reachable] example_sys_reachable
  by (simp add: example_sys New_def make_chan_def)

text \<open>
  C33: Teardown is complete: once \<^verbatim>\<open>Close\<close> has been called and the goroutine that performs it has
  finished, the pool is marked closed, its channel is closed and empty and stays so, and when
  no other goroutine is active every connection ever offered has been returned by a \<^verbatim>\<open>Get\<close> or
  closed. Before \<^verbatim>\<open>Close\<close> is called nothing is closed and no send panics.
\<close>

theorem pool_close_complete:
  assumes "reachable capacity s"
  shows "(closedOnce (pool s) \<and> total at_lock (threads s) + total at_chan (threads s) + total at_drain (threads s) = 0
      \<longrightarrow> closed (pool s) \<and> chclosed (conns (pool s)) \<and> buf (conns (pool s)) = [] \<and>
          (threads s = {#} \<longrightarrow> offered s = conns_out (effects s)))
    \<and> (\<not> closedOnce (pool s) \<longrightarrow> \<not> closed (pool s) \<and> \<not> chclosed (conns (pool s)) \<and> alive s)"
  using close_inv_reachable [OF assms] conn_inv_reachable [OF assms] panic_closed [OF assms]
  by (auto simp: close_inv_def conn_inv_def alive_def Let_def split: if_splits)

definition closed_sched :: "sched list" where
  "closed_sched =
     [DoPut 7, Run (PutLock 7) 0, Run (PutSend 7) 0, DoClose, Run CloseOnce 0, Run CloseLock 0, Run CloseChan 0,
      Run CloseDrain 0, Run CloseDrain 0]"

definition closed_sys :: pool_sys where
  "closed_sys = the (run_sched (init_sys [4]) closed_sched)"

lemma closed_sys: "closed_sys =
   \<lparr>pool = (New [4])\<lparr>closedOnce := True, closed := True, conns := chan_close (make_chan 4)\<rparr>,
    threads = {#}, effects = [ConnClose 7], offered = {#7#}\<rparr>"
  by (simp add: closed_sys_def closed_sched_def sched_eval)

lemma closed_sys_reachable: "reachable [4] closed_sys"
  by (rule run_sched_reachable [of _ closed_sched]) (simp add: closed_sys closed_sched_def sched_eval)

theorem pool_close_complete_witness:
  "reachable [4] closed_sys \<and> offered closed_sys = conns_out (effects closed_sys)"
proof -
  have "closedOnce (pool closed_sys) \<and> threads closed_sys = {#}"
    by (simp add: closed_sys)
  then show ?thesis
    using pool_close_complete [OF closed_sys_reachable] closed_sys_reachable by simp
qed

text \<open>
  \<^verbatim>\<open>Put\<close> checks the closed flag in one critical section and sends in another action, so a
  \<^verbatim>\<open>Close\<close> that runs in between makes the send panic: for every capacity and every connection there
  is an interleaving of one \<^verbatim>\<open>Put\<close> and one \<^verbatim>\<open>Close\<close> that ends in a panic of the process.
\<close>

theorem pool_put_close_panics:
  "\<exists>s. reachable capacity s \<and> SendPanic c \<in> set (effects s)"
proof -
  let ?sched = "[DoPut c, DoClose, Run (PutLock c) 0, Run CloseOnce 0, Run CloseLock 0, Run CloseChan 0,
    Run (PutSend c) 0]"
  have "\<exists>s. run_sched (init_sys capacity) ?sched = Some s \<and> SendPanic c \<in> set (effects s)"
    by (simp add: sched_eval)
  then show ?thesis
    using run_sched_reachable by blast
qed

text \<open>
  The burst that a missed \<^verbatim>\<open>Get\<close> asks for is a quarter of the capacity, clamped to between 2
  and 8, for every capacity, and a new pool has the requested capacity when it is positive and 64
  otherwise.
\<close>

theorem missRefillBurst_bounds:
  "missRefillBurst p = min 8 (max 2 (chcap (conns p) div 4)) \<and> 2 \<le> missRefillBurst p \<and> missRefillBurst p \<le> 8
   \<and> chcap (conns (New (c # cs))) = (if 0 < c then nat c else 64) \<and> chcap (conns (New [])) = 64"
proof -
  have "missRefillBurst p = min 8 (max 2 (chcap (conns p) div 4))"
    by (simp add: missRefillBurst_def minMissRefillBurst_def maxMissRefillBurst_def Let_def nat_div_distrib)
  then show ?thesis
    by (simp add: New_def make_chan_def defaultCapacity_def Let_def)
qed





end
