(* ===== verification/Registry.thy ===== *)
theory Registry
  imports Pool Key_Table "HOL-Library.AList"
begin

text \<open>
  The registry of work-connection pools, \<^verbatim>\<open>internal/pool/registry.go\<close>.

  The map from run ids to \<^verbatim>\<open>*Pool\<close> is an association list of pool references (its order stands
  for the iteration order, which Go leaves open); the pools that the references point to are the
  list \<open>objs\<close>, where a reference is an index, so that a client which still holds a pool after
  \<^verbatim>\<open>Remove\<close> sees the closed one. Every method runs under the registry's mutex. The capacity of a
  pool is the variadic argument; its \<^verbatim>\<open>requestFn\<close> is the \<open>RequestFn\<close> effect of the pool.
\<close>

type_synonym pool_ref = nat

record Registry =
  pools :: "(string \<times> pool_ref) list"
  objs :: "Pool list"

definition NewRegistry :: Registry where
  "NewRegistry = \<lparr>pools = [], objs = []\<rparr>"

definition GetOrCreate :: "Registry \<Rightarrow> string \<Rightarrow> int list \<Rightarrow> Registry \<times> pool_ref" where
  "GetOrCreate r runID capacity =
     (case map_of (pools r) runID of
        Some p \<Rightarrow> (r, p)
      | None \<Rightarrow>
          let p = length (objs r)
          in (r\<lparr>pools := AList.update runID p (pools r), objs := objs r @ [New capacity]\<rparr>, p))"

definition Registry_Get :: "Registry \<Rightarrow> string \<Rightarrow> pool_ref option" where
  "Registry_Get r runID = map_of (pools r) runID"

definition Registry_Remove :: "Registry \<Rightarrow> string \<Rightarrow> Registry \<times> effect list" where
  "Registry_Remove r runID =
     (case map_of (pools r) runID of
        None \<Rightarrow> (r, [])
      | Some p \<Rightarrow>
          (case Close (objs r ! p) of
             (pool', es) \<Rightarrow> (r\<lparr>pools := AList.delete runID (pools r), objs := (objs r)[p := pool']\<rparr>, es)))"

text \<open>\<^verbatim>\<open>Range\<close>, in some iteration order of the map; the callback returns whether to go on.\<close>

fun Range :: "(string \<times> pool_ref) list \<Rightarrow> (string \<Rightarrow> pool_ref \<Rightarrow> 's \<Rightarrow> bool \<times> 's) \<Rightarrow> 's \<Rightarrow> 's" where
  "Range [] fn s = s"
| "Range ((name, p) # order) fn s =
     (case fn name p s of (continue, s') \<Rightarrow> if continue then Range order fn s' else s')"

record AggregateStats =
  agg_ActivePools :: nat
  agg_GetHit :: nat
  agg_GetMiss :: nat
  agg_GetTimeout :: nat
  agg_RefillDemand :: nat
  agg_RefillSent :: nat

definition add_stats :: "Pool list \<Rightarrow> AggregateStats \<Rightarrow> string \<times> pool_ref \<Rightarrow> AggregateStats" where
  "add_stats ps out e =
     (let s = Pool_Stats (ps ! snd e)
      in out\<lparr>agg_GetHit := agg_GetHit out + stats_GetHit s,
             agg_GetMiss := agg_GetMiss out + stats_GetMiss s,
             agg_GetTimeout := agg_GetTimeout out + stats_GetTimeout s,
             agg_RefillDemand := agg_RefillDemand out + stats_RefillDemand s,
             agg_RefillSent := agg_RefillSent out + stats_RefillSent s\<rparr>)"

definition Registry_AggregateStats :: "Registry \<Rightarrow> AggregateStats" where
  "Registry_AggregateStats r =
     foldl (add_stats (objs r))
       \<lparr>agg_ActivePools = length (pools r), agg_GetHit = 0, agg_GetMiss = 0, agg_GetTimeout = 0,
        agg_RefillDemand = 0, agg_RefillSent = 0\<rparr> (pools r)"

section \<open>Invariant\<close>

definition registry_wf :: "Registry \<Rightarrow> bool" where
  "registry_wf r \<longleftrightarrow> distinct (map fst (pools r)) \<and> distinct (map snd (pools r)) \<and>
     (\<forall>p \<in> snd ` set (pools r). p < length (objs r))"

interpretation reg_table: key_table map_of AList.update AList.delete
  by unfold_locales (auto simp: update_conv' delete_conv')

lemma update_fresh: "map_of xs k = None \<Longrightarrow> AList.update k v xs = xs @ [(k, v)]"
  by (induction xs) (auto split: if_splits)

lemma registry_wf_New [wf_intros]: "registry_wf NewRegistry"
  by (simp add: registry_wf_def NewRegistry_def)

lemma registry_wf_GetOrCreate [wf_intros]: "registry_wf r \<Longrightarrow> registry_wf (fst (GetOrCreate r runID c))"
  by (fastforce simp: GetOrCreate_def registry_wf_def update_fresh Let_def map_of_eq_None_iff less_Suc_eq
      split: option.splits)

lemma registry_wf_Remove [wf_intros]:
  assumes "registry_wf r" shows "registry_wf (fst (Registry_Remove r runID))"
proof -
  have "AList.delete runID (pools r) = filter (\<lambda>e. fst e \<noteq> runID) (pools r)"
    by (auto simp: AList.delete_eq intro!: filter_cong)
  with assms show ?thesis
    by (auto simp: Registry_Remove_def registry_wf_def distinct_map_filter split: option.splits prod.splits)
qed

lemma registry_ref_less: "registry_wf r \<Longrightarrow> map_of (pools r) k = Some p \<Longrightarrow> p < length (objs r)"
  by (auto simp: registry_wf_def dest: map_of_SomeD)

lemma registry_ref_inj:
  "registry_wf r \<Longrightarrow> map_of (pools r) k = Some p \<Longrightarrow> map_of (pools r) k' = Some p \<Longrightarrow> k = k'"
  unfolding registry_wf_def by (metis distinct_map_eq_in map_of_SomeD prod.inject snd_conv)

section \<open>Properties\<close>

text \<open>
  \<^verbatim>\<open>GetOrCreate\<close> gives every run id one pool: an existing one is returned unchanged, whatever
  capacity is asked for; otherwise a fresh pool of that capacity, shared with no other run
  id, is created and every other entry and pool stays as it was. A following \<^verbatim>\<open>Get\<close> finds it.
\<close>

theorem GetOrCreate_one_pool:
  assumes "registry_wf r"
  shows "case GetOrCreate r runID capacity of (r', p) \<Rightarrow>
    registry_wf r' \<and> Registry_Get r' runID = Some p \<and> p < length (objs r') \<and>
    (\<forall>k. k \<noteq> runID \<longrightarrow> Registry_Get r' k = Registry_Get r k \<and> Registry_Get r' k \<noteq> Some p) \<and>
    (case Registry_Get r runID of
       Some q \<Rightarrow> r' = r \<and> p = q
     | None \<Rightarrow> objs r' = objs r @ [New capacity] \<and> objs r' ! p = New capacity)"
proof (cases "map_of (pools r) runID")
  case None
  have "registry_wf (fst (GetOrCreate r runID capacity))"
    using assms by (rule registry_wf_GetOrCreate)
  with None show ?thesis
    using registry_ref_less [OF assms] by (fastforce simp: GetOrCreate_def Registry_Get_def Let_def update_conv')
next
  case (Some p)
  with assms registry_ref_less registry_ref_inj show ?thesis
    by (auto simp: GetOrCreate_def Registry_Get_def)
qed

definition two_pools :: Registry where
  "two_pools = fst (GetOrCreate (fst (GetOrCreate NewRegistry ''r1'' [4])) ''r2'' [0])"

lemma two_pools: "two_pools = \<lparr>pools = [(''r1'', 0), (''r2'', 1)], objs = [New [4], New [0]]\<rparr>"
  by (simp add: two_pools_def GetOrCreate_def NewRegistry_def Let_def)

lemma two_pools_wf: "registry_wf two_pools"
  unfolding two_pools_def by (intro wf_intros)

theorem GetOrCreate_one_pool_witness:
  "Registry_Get (fst (GetOrCreate two_pools ''r3'' [9])) ''r3'' = Some 2"
  using GetOrCreate_one_pool [OF two_pools_wf, of "''r3''" "[9]"]
  by (simp add: two_pools GetOrCreate_def Let_def)

text \<open>
  \<^verbatim>\<open>Remove\<close> closes the pool of the run id and drops it from the registry: its idle
  connections are closed, a client that still holds it gets its offered connections closed instead
  of queued, other run ids keep their pools untouched, and a second \<^verbatim>\<open>Remove\<close> does nothing.
\<close>

theorem Registry_Remove_closes:
  assumes "registry_wf r" and "Registry_Get r runID = Some p"
  shows "case Registry_Remove r runID of (r', es) \<Rightarrow>
    registry_wf r' \<and> Registry_Get r' runID = None \<and> Registry_Remove r' runID = (r', []) \<and>
    (\<not> closedOnce (objs r ! p) \<longrightarrow> es = map ConnClose (buf (conns (objs r ! p))) \<and>
       (\<forall>c. Put (objs r' ! p) c = (objs r' ! p, [ConnClose c]))) \<and>
    (\<forall>k q. k \<noteq> runID \<longrightarrow> Registry_Get r k = Some q \<longrightarrow>
       Registry_Get r' k = Some q \<and> objs r' ! q = objs r ! q)"
proof -
  have less: "p < length (objs r)" and p: "map_of (pools r) runID = Some p"
    using assms registry_ref_less by (auto simp: Registry_Get_def)
  have wf: "registry_wf (fst (Registry_Remove r runID))"
    using assms by (intro wf_intros)
  have other: "k \<noteq> runID \<Longrightarrow> map_of (pools r) k = Some q \<Longrightarrow> q \<noteq> p" for k q
    using registry_ref_inj [OF assms(1) p] by auto
  show ?thesis
    using less p wf other
    by (auto simp: Registry_Remove_def Registry_Get_def delete_conv' Close_def Put_def split: prod.splits
        intro!: nth_list_update_neq)
qed

theorem Registry_Remove_closes_witness:
  "Registry_Get (fst (Registry_Remove two_pools ''r1'')) ''r1'' = None"
  using Registry_Remove_closes [OF two_pools_wf, of "''r1''" 0]
  by (simp add: two_pools Registry_Get_def split: prod.splits)

lemma add_stats_sum:
  "foldl (add_stats ps) out es =
     out\<lparr>agg_GetHit := agg_GetHit out + (\<Sum>e\<leftarrow>es. getHit (ps ! snd e)),
         agg_GetMiss := agg_GetMiss out + (\<Sum>e\<leftarrow>es. getMiss (ps ! snd e)),
         agg_GetTimeout := agg_GetTimeout out + (\<Sum>e\<leftarrow>es. getTimeout (ps ! snd e)),
         agg_RefillDemand := agg_RefillDemand out + (\<Sum>e\<leftarrow>es. refillDemand (ps ! snd e)),
         agg_RefillSent := agg_RefillSent out + (\<Sum>e\<leftarrow>es. refillSent (ps ! snd e))\<rparr>"
  by (induction es arbitrary: out) (simp_all add: add_stats_def Pool_Stats_def Let_def)

text \<open>
  \<^verbatim>\<open>AggregateStats\<close> does not depend on Go's map iteration order, and equals the field-wise sum
  over the registered pools, with their number.
\<close>

theorem AggregateStats_order_independent:
  assumes "mset order = mset (pools r)"
  shows "Registry_AggregateStats (r\<lparr>pools := order\<rparr>) = Registry_AggregateStats r
    \<and> agg_ActivePools (Registry_AggregateStats r) = length (pools r)
    \<and> agg_GetHit (Registry_AggregateStats r) = (\<Sum>e\<leftarrow>pools r. getHit (objs r ! snd e))"
proof -
  have "(\<Sum>e\<leftarrow>order. f e) = (\<Sum>e\<leftarrow>pools r. f e)" for f :: "string \<times> nat \<Rightarrow> nat"
    using assms by (metis mset_map sum_mset_sum_list)
  moreover have "length order = length (pools r)"
    using assms by (metis size_mset)
  ultimately show ?thesis
    by (simp add: Registry_AggregateStats_def add_stats_sum)
qed

theorem AggregateStats_order_independent_witness:
  "Registry_AggregateStats (two_pools\<lparr>pools := rev (pools two_pools)\<rparr>) = Registry_AggregateStats two_pools"
  using AggregateStats_order_independent [of "rev (pools two_pools)" two_pools] by simp

end
