(* ===== verification/Config.thy ===== *)
theory Config
  imports Go_Strings "HOL-Library.Word"
begin

text \<open>
  The configuration, \<^verbatim>\<open>internal/config/config.go\<close>, and its hand-over to yamux in
  \<^verbatim>\<open>cmd/drps/main.go\<close> (\<^verbatim>\<open>openYamuxSession\<close>). Defaults are overridden by command-line flags, those by
  environment variables. The options that \<^verbatim>\<open>flag.Parse\<close> recognised on the command line are the list
  of \<open>flag_set\<close> values, in order; the environment is the function \<^verbatim>\<open>os.Getenv\<close>, which
  gives the empty string for an unset variable.
\<close>

section \<open>Definitions\<close>

record Config =
  Token :: string
  FrpcAddr :: string
  HTTPAddr :: string
  PoolCapacity :: int
  ResponseTimeoutSec :: int
  YamuxAcceptBacklog :: int
  YamuxEnableKeepAlive :: bool
  YamuxKeepAliveSeconds :: int
  YamuxWriteTimeoutSec :: int
  YamuxMaxStreamWindow :: int

definition default_config :: Config where
  "default_config =
     \<lparr>Token = ''test-token'', FrpcAddr = '':17000'', HTTPAddr = '':18080'', PoolCapacity = 64,
      ResponseTimeoutSec = 0, YamuxAcceptBacklog = 256, YamuxEnableKeepAlive = True,
      YamuxKeepAliveSeconds = 30, YamuxWriteTimeoutSec = 10, YamuxMaxStreamWindow = 6 * 1024 * 1024\<rparr>"

datatype flag_set =
    FlagToken string | FlagFrpcAddr string | FlagHTTPAddr string | FlagPoolCapacity int
  | FlagResponseTimeoutSec int | FlagYamuxAcceptBacklog int | FlagYamuxKeepaliveEnable bool
  | FlagYamuxKeepaliveSec int | FlagYamuxWriteTimeoutSec int | FlagYamuxMaxStreamWindow int

fun set_flag :: "Config \<Rightarrow> flag_set \<Rightarrow> Config" where
  "set_flag c (FlagToken v) = c\<lparr>Token := v\<rparr>"
| "set_flag c (FlagFrpcAddr v) = c\<lparr>FrpcAddr := v\<rparr>"
| "set_flag c (FlagHTTPAddr v) = c\<lparr>HTTPAddr := v\<rparr>"
| "set_flag c (FlagPoolCapacity v) = c\<lparr>PoolCapacity := v\<rparr>"
| "set_flag c (FlagResponseTimeoutSec v) = c\<lparr>ResponseTimeoutSec := v\<rparr>"
| "set_flag c (FlagYamuxAcceptBacklog v) = c\<lparr>YamuxAcceptBacklog := v\<rparr>"
| "set_flag c (FlagYamuxKeepaliveEnable v) = c\<lparr>YamuxEnableKeepAlive := v\<rparr>"
| "set_flag c (FlagYamuxKeepaliveSec v) = c\<lparr>YamuxKeepAliveSeconds := v\<rparr>"
| "set_flag c (FlagYamuxWriteTimeoutSec v) = c\<lparr>YamuxWriteTimeoutSec := v\<rparr>"
| "set_flag c (FlagYamuxMaxStreamWindow v) = c\<lparr>YamuxMaxStreamWindow := v\<rparr>"

definition env_string :: "string \<Rightarrow> string \<Rightarrow> string" where
  "env_string v old = (if v \<noteq> [] then v else old)"

definition env_int :: "string \<Rightarrow> (int \<Rightarrow> bool) \<Rightarrow> int \<Rightarrow> int" where
  "env_int v ok old =
     (if v \<noteq> [] then (case strconv_Atoi v of Some n \<Rightarrow> if ok n then n else old | None \<Rightarrow> old) else old)"

definition env_bool :: "string \<Rightarrow> bool \<Rightarrow> bool" where
  "env_bool v old =
     (if v \<noteq> [] then (case strconv_ParseBool v of Some b \<Rightarrow> b | None \<Rightarrow> old) else old)"

definition Load :: "flag_set list \<Rightarrow> (string \<Rightarrow> string) \<Rightarrow> Config" where
  "Load flags getenv =
     (let c = foldl set_flag default_config flags
      in c\<lparr>Token := env_string (getenv ''DRPS_TOKEN'') (Token c),
           FrpcAddr := env_string (getenv ''DRPS_FRPC_ADDR'') (FrpcAddr c),
           HTTPAddr := env_string (getenv ''DRPS_HTTP_ADDR'') (HTTPAddr c),
           PoolCapacity := env_int (getenv ''DRPS_POOL_CAPACITY'') (\<lambda>n. n > 0) (PoolCapacity c),
           ResponseTimeoutSec := env_int (getenv ''DRPS_RESPONSE_TIMEOUT_SEC'') (\<lambda>n. n \<ge> 0) (ResponseTimeoutSec c),
           YamuxAcceptBacklog := env_int (getenv ''DRPS_YAMUX_ACCEPT_BACKLOG'') (\<lambda>n. n > 0) (YamuxAcceptBacklog c),
           YamuxEnableKeepAlive := env_bool (getenv ''DRPS_YAMUX_KEEPALIVE_ENABLE'') (YamuxEnableKeepAlive c),
           YamuxKeepAliveSeconds := env_int (getenv ''DRPS_YAMUX_KEEPALIVE_SEC'') (\<lambda>n. n > 0) (YamuxKeepAliveSeconds c),
           YamuxWriteTimeoutSec := env_int (getenv ''DRPS_YAMUX_WRITE_TIMEOUT_SEC'') (\<lambda>n. n > 0) (YamuxWriteTimeoutSec c),
           YamuxMaxStreamWindow := env_int (getenv ''DRPS_YAMUX_MAX_STREAM_WINDOW'') (\<lambda>n. n \<ge> 256 * 1024) (YamuxMaxStreamWindow c)\<rparr>)"

text \<open>
  The fields of \<^verbatim>\<open>yamux.Config\<close> that \<^verbatim>\<open>openYamuxSession\<close> sets; durations in nanoseconds are 64-bit, the
  window is converted to 32 bits.
\<close>

record yamux_config =
  MaxStreamWindowSize :: "32 word"
  AcceptBacklog :: int
  EnableKeepAlive :: bool
  KeepAliveInterval :: int
  ConnectionWriteTimeout :: int

definition int64_mul :: "int \<Rightarrow> int \<Rightarrow> int" where
  "int64_mul a b = sint (of_int (a * b) :: 64 word)"

definition yamux_settings :: "Config \<Rightarrow> yamux_config" where
  "yamux_settings c =
     \<lparr>MaxStreamWindowSize = of_int (YamuxMaxStreamWindow c), AcceptBacklog = YamuxAcceptBacklog c,
      EnableKeepAlive = YamuxEnableKeepAlive c,
      KeepAliveInterval = int64_mul (YamuxKeepAliveSeconds c) 1000000000,
      ConnectionWriteTimeout = int64_mul (YamuxWriteTimeoutSec c) 1000000000\<rparr>"

section \<open>Properties\<close>

definition config_ok :: "Config \<Rightarrow> bool" where
  "config_ok c \<longleftrightarrow> PoolCapacity c > 0 \<and> ResponseTimeoutSec c \<ge> 0 \<and> YamuxAcceptBacklog c > 0 \<and>
     YamuxKeepAliveSeconds c > 0 \<and> YamuxWriteTimeoutSec c > 0 \<and> YamuxMaxStreamWindow c \<ge> 256 * 1024"

lemma env_int_ok: "P old \<Longrightarrow> P (env_int v P old)"
  by (simp add: env_int_def split: option.split)

lemma env_int_Itoa: "- (2 ^ 63) \<le> n \<Longrightarrow> n < 2 ^ 63 \<Longrightarrow> P n \<Longrightarrow> env_int (strconv_Itoa n) P old = n"
proof -
  assume "- (2 ^ 63) \<le> n" "n < 2 ^ 63" "P n"
  moreover have "strconv_Itoa n \<noteq> []"
    by (simp add: strconv_Itoa_def)
  ultimately show ?thesis
    by (simp add: env_int_def strconv_Atoi_def ParseInt_Itoa)
qed

text \<open>
  Environment variables cannot break the configuration: whatever their values, a configuration
  whose flags are in range stays in range, an unset, malformed or out-of-range variable leaves
  the flag's value, and a decimal number in range is taken over exactly.
\<close>

theorem Load_validates:
  "(config_ok (foldl set_flag default_config flags) \<longrightarrow> config_ok (Load flags getenv))
   \<and> (getenv ''DRPS_POOL_CAPACITY'' = strconv_Itoa n \<and> n < 2 ^ 63 \<and> - (2 ^ 63) \<le> n \<longrightarrow>
        PoolCapacity (Load flags getenv) =
          (if n > 0 then n else PoolCapacity (foldl set_flag default_config flags)))
   \<and> (strconv_Atoi (getenv ''DRPS_POOL_CAPACITY'') = None \<longrightarrow>
        PoolCapacity (Load flags getenv) = PoolCapacity (foldl set_flag default_config flags))"
proof (intro conjI impI)
  let ?c = "foldl set_flag default_config flags"
  show "config_ok (Load flags getenv)" if "config_ok ?c"
    using that env_int_ok [of "\<lambda>n. n > 0"] env_int_ok [of "\<lambda>n. n \<ge> 0"] env_int_ok [of "\<lambda>n. n \<ge> 256 * 1024"]
    by (simp add: config_ok_def Load_def Let_def)
  show "PoolCapacity (Load flags getenv) = (if n > 0 then n else PoolCapacity ?c)"
    if *: "getenv ''DRPS_POOL_CAPACITY'' = strconv_Itoa n \<and> n < 2 ^ 63 \<and> - (2 ^ 63) \<le> n"
  proof (cases "n > 0")
    case True
    with * show ?thesis by (simp add: Load_def Let_def env_int_Itoa)
  next
    case False
    with * show ?thesis by (simp add: Load_def Let_def env_int_def strconv_Atoi_def ParseInt_Itoa)
  qed
  show "PoolCapacity (Load flags getenv) = PoolCapacity ?c" if "strconv_Atoi (getenv ''DRPS_POOL_CAPACITY'') = None"
    using that by (simp add: Load_def Let_def env_int_def)
qed

theorem Load_validates_witness:
  "config_ok (Load [FlagPoolCapacity 8] (\<lambda>v. if v = ''DRPS_POOL_CAPACITY'' then strconv_Itoa 12 else []))
   \<and> PoolCapacity (Load [FlagPoolCapacity 8] (\<lambda>v. if v = ''DRPS_POOL_CAPACITY'' then strconv_Itoa 12 else [])) = 12"
  using Load_validates [of "[FlagPoolCapacity 8]" "\<lambda>v. if v = ''DRPS_POOL_CAPACITY'' then strconv_Itoa 12 else []" 12]
  by (simp add: config_ok_def default_config_def)

text \<open>
  The stream window that yamux gets is the configured one only below \<open>2 ^ 32\<close>. The variable
  is checked against a lower bound alone, so a larger accepted value is truncated to 32 bits, and can
  become smaller than the minimum that the check is there to enforce, even 0.
\<close>

theorem stream_window_truncated:
  assumes "config_ok c"
  shows "uint (MaxStreamWindowSize (yamux_settings c)) = YamuxMaxStreamWindow c mod 2 ^ 32
    \<and> (YamuxMaxStreamWindow c < 2 ^ 32 \<longrightarrow>
        256 * 1024 \<le> uint (MaxStreamWindowSize (yamux_settings c)) \<and>
        uint (MaxStreamWindowSize (yamux_settings c)) = YamuxMaxStreamWindow c)
    \<and> (YamuxMaxStreamWindow c = 2 ^ 32 \<longrightarrow> MaxStreamWindowSize (yamux_settings c) = 0)"
proof -
  have u: "uint (of_int (YamuxMaxStreamWindow c) :: 32 word) = YamuxMaxStreamWindow c mod 2 ^ 32"
    by (simp add: uint_word_of_int)
  then show ?thesis
    using assms by (auto simp: yamux_settings_def config_ok_def)
qed

theorem stream_window_truncated_witness:
  "config_ok (Load [] (\<lambda>v. if v = ''DRPS_YAMUX_MAX_STREAM_WINDOW'' then strconv_Itoa (2 ^ 32) else [])) \<and>
   MaxStreamWindowSize (yamux_settings
     (Load [] (\<lambda>v. if v = ''DRPS_YAMUX_MAX_STREAM_WINDOW'' then strconv_Itoa (2 ^ 32) else []))) = 0"
proof -
  let ?c = "Load [] (\<lambda>v. if v = ''DRPS_YAMUX_MAX_STREAM_WINDOW'' then strconv_Itoa (2 ^ 32) else [])"
  have "YamuxMaxStreamWindow ?c = 2 ^ 32"
    using env_int_Itoa [of "2 ^ 32" "\<lambda>n. n \<ge> 256 * 1024"] by (simp add: Load_def Let_def)
  moreover have "config_ok ?c"
    using calculation by (simp add: config_ok_def Load_def Let_def env_int_def default_config_def)
  ultimately show ?thesis
    using stream_window_truncated [of ?c] by blast
qed

end
