(* ===== verification/Pool_Owner.thy ===== *)
theory Pool_Owner
  imports Sessions Registry Config
begin

text \<open>
  The work-connection pools as the program owns them (\<^verbatim>\<open>cmd/drps/main.go\<close>): the registry, the goroutines that are
  inside a pool's methods, and the closures that \<^verbatim>\<open>buildServerStack\<close> hands to the handler. Each pool takes part in its own
  protocol of \<open>Pool\<close>: \<open>pool_view\<close> picks out of the shared state what belongs to one pool, and the invariant
  \<open>pools_ok\<close> says that this is a reachable state of \<open>pool_step\<close>, so that the theorems about a single pool hold for every
  pool of the program. The interpretation \<open>stack\<close> discharges the contract of the handler's owner with it.
\<close>

section \<open>State and operations\<close>

text \<open>
  \<open>requestFns\<close> is the run id that the \<^verbatim>\<open>requestFn\<close> closure of each pool captured. \<open>pool_effects\<close> and \<open>work_conns\<close> are histories: what
  the methods of each pool did outside, and the work connections put into it, with the run id of their message.
\<close>

record stack_pools =
  registry :: Registry
  requestFns :: "string list"
  pool_threads :: "(pool_ref \<times> pc) multiset"
  pool_effects :: "(pool_ref \<times> effect) list"
  work_conns :: "(pool_ref \<times> conn \<times> string) list"

definition no_pools :: stack_pools where
  "no_pools = \<lparr>registry = NewRegistry, requestFns = [], pool_threads = {#}, pool_effects = [], work_conns = []\<rparr>"

text \<open>\<^verbatim>\<open>registry.GetOrCreate(m.RunID, h.ReqWorkConnFunc(m.RunID), cfg.PoolCapacity)\<close>.\<close>

definition get_pool :: "int \<Rightarrow> stack_pools \<Rightarrow> string \<Rightarrow> stack_pools \<times> pool_ref" where
  "get_pool capacity o1 rid =
     (case GetOrCreate (registry o1) rid [capacity] of
        (r, p) \<Rightarrow> (o1\<lparr>registry := r, requestFns := (if p < length (requestFns o1) then requestFns o1 else requestFns o1 @ [rid])\<rparr>, p))"

text \<open>The closure for \<^verbatim>\<open>OnWorkConn\<close>: the goroutine goes on in \<^verbatim>\<open>Put\<close>, which does not run under the registry's mutex.\<close>

definition put_work_conn :: "int \<Rightarrow> stack_pools \<Rightarrow> nat \<Rightarrow> NewWorkConn \<Rightarrow> stack_pools" where
  "put_work_conn capacity o1 c m =
     (case get_pool capacity o1 (newworkconn_RunID m) of
        (o2, p) \<Rightarrow>
          o2\<lparr>pool_threads := add_mset (p, PutLock c) (pool_threads o2),
             work_conns := work_conns o2 @ [(p, c, newworkconn_RunID m)]\<rparr>)"

text \<open>The closure for \<^verbatim>\<open>OnControlClose\<close>: \<^verbatim>\<open>Remove\<close> closes the pool under the registry's mutex.\<close>

definition close_session_pool :: "stack_pools \<Rightarrow> string \<Rightarrow> stack_pools" where
  "close_session_pool o1 rid =
     (case Registry_Remove (registry o1) rid of
        (r, es) \<Rightarrow> o1\<lparr>registry := r, pool_effects := pool_effects o1 @
            (case Registry_Get (registry o1) rid of None \<Rightarrow> [] | Some p \<Rightarrow> map (Pair p) es)\<rparr>)"

text \<open>
  What the HTTP side and the refill workers do: a \<^verbatim>\<open>Get\<close> is called on a pool, which may have left the registry since it was
  looked up; any goroutine inside a pool takes its next action.
\<close>

definition call_get :: "pool_ref \<Rightarrow> stack_pools \<Rightarrow> stack_pools" where
  "call_get p o1 = o1\<lparr>pool_threads := add_mset (p, GetLock) (pool_threads o1)\<rparr>"

definition pool_acts :: "pool_ref \<Rightarrow> (pool_ref \<times> pc) multiset \<Rightarrow> outcome \<Rightarrow> stack_pools \<Rightarrow> stack_pools" where
  "pool_acts p M x o1 =
     (case x of (p', es, ts) \<Rightarrow>
        o1\<lparr>registry := (registry o1)\<lparr>objs := (objs (registry o1))[p := p']\<rparr>, pool_threads := M + mset (map (Pair p) ts),
           pool_effects := pool_effects o1 @ map (Pair p) es\<rparr>)"

text \<open>A send on a closed channel panics, which ends the process.\<close>

definition crashed :: "stack_pools \<Rightarrow> bool" where
  "crashed o1 = list_ex (\<lambda>e. case snd e of SendPanic c \<Rightarrow> True | _ \<Rightarrow> False) (pool_effects o1)"

inductive pool_runs :: "stack_pools \<Rightarrow> stack_pools \<Rightarrow> bool" where
  "\<not> crashed o1 \<Longrightarrow> pool_threads o1 = add_mset (p, t) M \<Longrightarrow> x \<in> set (exec (objs (registry o1) ! p) t) \<Longrightarrow>
   pool_runs o1 (pool_acts p M x o1)"

inductive pool_moves :: "stack_pools \<Rightarrow> stack_pools \<Rightarrow> bool" where
  call: "p < length (objs (registry o1)) \<Longrightarrow> pool_moves o1 (call_get p o1)"
| run: "pool_runs o1 o2 \<Longrightarrow> pool_moves o1 o2"

section \<open>One pool of many\<close>

definition of_pool :: "pool_ref \<Rightarrow> (pool_ref \<times> 'a) list \<Rightarrow> 'a list" where
  "of_pool p xs = map snd (filter (\<lambda>x. fst x = p) xs)"

definition pool_view :: "stack_pools \<Rightarrow> pool_ref \<Rightarrow> pool_sys" where
  "pool_view o1 p =
     \<lparr>pool = objs (registry o1) ! p,
      threads = image_mset snd (filter_mset (\<lambda>t. fst t = p) (pool_threads o1)),
      effects = of_pool p (pool_effects o1),
      offered = mset (map fst (of_pool p (work_conns o1)))\<rparr>"

definition indices_ok :: "stack_pools \<Rightarrow> bool" where
  "indices_ok o1 \<longleftrightarrow> length (requestFns o1) = length (objs (registry o1)) \<and>
     (\<forall>x \<in># pool_threads o1. fst x < length (objs (registry o1))) \<and>
     (\<forall>x \<in> set (pool_effects o1). fst x < length (objs (registry o1))) \<and>
     (\<forall>x \<in> set (work_conns o1). fst x < length (objs (registry o1)))"

definition named_ok :: "stack_pools \<Rightarrow> bool" where
  "named_ok o1 \<longleftrightarrow> (\<forall>rid p. map_of (pools (registry o1)) rid = Some p \<longrightarrow> requestFns o1 ! p = rid) \<and>
     (\<forall>p c rid. (p, c, rid) \<in> set (work_conns o1) \<longrightarrow> requestFns o1 ! p = rid)"

definition pools_ok :: "int \<Rightarrow> stack_pools \<Rightarrow> bool" where
  "pools_ok capacity o1 \<longleftrightarrow> registry_wf (registry o1) \<and> indices_ok o1 \<and> named_ok o1 \<and>
     (\<not> crashed o1 \<longrightarrow> (\<forall>p < length (objs (registry o1)). reachable [capacity] (pool_view o1 p)))"

lemma of_pool_simps [simp]:
  "of_pool p [] = []" "of_pool p (xs @ ys) = of_pool p xs @ of_pool p ys"
  "of_pool p (map (Pair q) zs) = (if p = q then zs else [])"
  "of_pool p ((q, z) # xs) = (if p = q then z # of_pool p xs else of_pool p xs)"
  by (induction zs) (auto simp: of_pool_def)

lemma of_pool_none: "\<forall>x \<in> set xs. fst x < p \<Longrightarrow> of_pool p xs = []"
  by (auto simp: of_pool_def filter_empty_conv)

lemma filter_mset_pool [simp]:
  "image_mset snd (filter_mset (\<lambda>t. fst t = p) (image_mset (Pair q) M)) = (if p = q then M else {#})"
  by (induction M) auto

lemma pools_ok_None: "pools_ok capacity no_pools"
  by (simp add: pools_ok_def no_pools_def registry_wf_New indices_ok_def named_ok_def) (simp_all add: NewRegistry_def)

lemma crashed_iff: "crashed o1 \<longleftrightarrow> (\<exists>p c. (p, SendPanic c) \<in> set (pool_effects o1))"
proof -
  have "(case e of SendPanic c \<Rightarrow> True | _ \<Rightarrow> False) \<longleftrightarrow> (\<exists>c. e = SendPanic c)" for e
    by (cases e) simp_all
  then show ?thesis
    by (simp add: crashed_def list_ex_iff) (metis prod.collapse snd_conv)
qed

lemma crashed_grows: "pool_effects o2 = pool_effects o1 @ es \<Longrightarrow> \<not> crashed o2 \<Longrightarrow> \<not> crashed o1"
  by (auto simp: crashed_iff)

lemma view_alive: "\<not> crashed o1 \<Longrightarrow> alive (pool_view o1 p)"
  by (auto simp: alive_def crashed_iff pool_view_def of_pool_def)

lemma reachable_step: "reachable capacity s \<Longrightarrow> pool_step s s' \<Longrightarrow> reachable capacity s'"
  by (simp add: reachable_def rtranclp.rtrancl_into_rtrancl)

section \<open>The moves of the HTTP side\<close>

lemma pools_ok_call:
  assumes ok: "pools_ok capacity o1" and p: "p < length (objs (registry o1))"
  shows "pools_ok capacity (call_get p o1)"
proof -
  have idx: "indices_ok o1" "named_ok o1"
    using ok by (simp_all add: pools_ok_def)
  let ?v' = "(pool_view o1 p)\<lparr>threads := add_mset GetLock (threads (pool_view o1 p))\<rparr>"
  have view: "pool_view (call_get p o1) q = (if q = p then ?v' else pool_view o1 q)" for q
    by (simp add: pool_view_def call_get_def)
  have "reachable [capacity] ?v'" if "\<not> crashed o1"
    using ok p that by (intro reachable_step [OF _ pool_step.call_Get] view_alive) (simp_all add: pools_ok_def)
  moreover have "registry (call_get p o1) = registry o1" "crashed (call_get p o1) = crashed o1"
      "indices_ok (call_get p o1)" "named_ok (call_get p o1)"
    using idx p by (simp_all add: call_get_def indices_ok_def named_ok_def crashed_def)
  ultimately show ?thesis
    using ok by (simp add: pools_ok_def view)
qed

lemma registry_wf_objs:
  "registry_wf r \<Longrightarrow> length xs = length (objs r) \<Longrightarrow> registry_wf (r\<lparr>objs := xs\<rparr>)"
  by (simp add: registry_wf_def)

lemma pools_ok_runs:
  assumes ok: "pools_ok capacity o1" and "pool_runs o1 o2" shows "pools_ok capacity o2"
  using assms(2)
proof cases
  case (1 p t M x)
  obtain p' es ts where x: "x = (p', es, ts)" by (cases x)
  have idx: "indices_ok o1"
    using ok by (simp add: pools_ok_def)
  then have p: "p < length (objs (registry o1))"
    using 1(3) by (simp add: indices_ok_def)
  let ?v = "pool_view o1 p"
  let ?v' = "?v\<lparr>pool := p', threads := image_mset snd (filter_mset (\<lambda>t. fst t = p) M) + mset ts, effects := effects ?v @ es\<rparr>"
  have view: "pool_view o2 q = (if q = p then ?v' else pool_view o1 q)" for q
    using p 1 by (auto simp: pool_view_def pool_acts_def x)
  have "pool_step ?v ?v'"
    using 1 x by (intro pool_step.run_thread [OF view_alive, of o1 p t]) (simp_all add: pool_view_def)
  moreover have "reachable [capacity] ?v"
    using ok p 1(2) by (simp add: pools_ok_def)
  ultimately have "reachable [capacity] ?v'"
    using reachable_step by blast
  moreover have "registry_wf (registry o2)" "named_ok o2" "length (objs (registry o2)) = length (objs (registry o1))"
    using ok unfolding 1(1) by (simp_all add: pools_ok_def named_ok_def x pool_acts_def registry_wf_objs)
  moreover have "indices_ok o2"
    using idx p 1 x by (auto simp: indices_ok_def pool_acts_def)
  ultimately show ?thesis
    using ok 1(2) by (simp add: pools_ok_def view)
qed

lemma pools_ok_moves: "pools_ok capacity o1 \<Longrightarrow> pool_moves o1 o2 \<Longrightarrow> pools_ok capacity o2"
  by (auto elim!: pool_moves.cases intro: pools_ok_call pools_ok_runs)

section \<open>The callbacks\<close>

lemma get_pool_old: "Registry_Get (registry o1) rid = Some p \<Longrightarrow> pools_ok capacity o1 \<Longrightarrow> get_pool capacity o1 rid = (o1, p)"
  using registry_ref_less [of "registry o1" rid p]
  by (simp add: get_pool_def GetOrCreate_def Registry_Get_def pools_ok_def indices_ok_def)

lemma get_pool_new:
  assumes "Registry_Get (registry o1) rid = None" "pools_ok capacity o1"
  shows "get_pool capacity o1 rid =
    (o1\<lparr>registry := (registry o1)\<lparr>pools := pools (registry o1) @ [(rid, length (objs (registry o1)))], objs := objs (registry o1) @ [New [capacity]]\<rparr>,
        requestFns := requestFns o1 @ [rid]\<rparr>, length (objs (registry o1)))"
  using assms by (simp add: get_pool_def GetOrCreate_def Registry_Get_def pools_ok_def indices_ok_def update_fresh Let_def)

lemma pools_ok_get_pool:
  assumes ok: "pools_ok capacity o1" and get: "get_pool capacity o1 rid = (o2, p)"
  shows "pools_ok capacity o2 \<and> p < length (objs (registry o2)) \<and> requestFns o2 ! p = rid"
proof (cases "Registry_Get (registry o1) rid")
  case (Some q)
  with get_pool_old [OF Some ok] get have "o2 = o1" "q = p" by simp_all
  with ok Some registry_ref_less [of "registry o1" rid p] show ?thesis
    by (simp add: pools_ok_def named_ok_def Registry_Get_def)
next
  case None
  let ?n = "length (objs (registry o1))"
  have o2: "o2 = o1\<lparr>registry := (registry o1)\<lparr>pools := pools (registry o1) @ [(rid, ?n)], objs := objs (registry o1) @ [New [capacity]]\<rparr>,
        requestFns := requestFns o1 @ [rid]\<rparr>" "p = ?n"
    using get_pool_new [OF None ok] get by simp_all
  have idx: "indices_ok o1" "named_ok o1" and wf: "registry_wf (registry o1)"
    using ok by (simp_all add: pools_ok_def)
  have "registry_wf (registry o2)"
    using registry_wf_GetOrCreate [OF wf, of rid "[capacity]"] None
    by (simp add: o2 GetOrCreate_def Registry_Get_def update_fresh Let_def)
  moreover have "indices_ok o2"
    using idx(1) by (fastforce simp: indices_ok_def o2)
  moreover have "named_ok o2"
    using idx None registry_ref_less [OF wf] unfolding named_ok_def indices_ok_def
    by (fastforce simp: o2 nth_append Registry_Get_def map_of_eq_None_iff map_add_Some_iff split: if_splits)
  moreover have "reachable [capacity] (pool_view o2 q)" if "q < Suc ?n" "\<not> crashed o2" for q
  proof (cases "q = ?n")
    case True
    have "filter_mset (\<lambda>t. fst t = ?n) (pool_threads o1) = {#}"
      using idx(1) by (fastforce simp: indices_ok_def)
    with True idx(1) have "pool_view o2 q = init_sys [capacity]"
      by (simp add: pool_view_def o2 init_sys_def of_pool_none indices_ok_def)
    then show ?thesis
      by (simp add: reachable_def)
  next
    case False
    with that have "pool_view o2 q = pool_view o1 q"
      by (simp add: pool_view_def o2 nth_append)
    with that False ok show ?thesis by (simp add: pools_ok_def crashed_def o2)
  qed
  moreover have "length (objs (registry o2)) = Suc ?n" "requestFns o2 ! ?n = rid"
    using idx(1) by (simp_all add: o2 indices_ok_def nth_append)
  ultimately show ?thesis
    by (simp add: pools_ok_def o2(2))
qed

lemma pools_ok_put: "pools_ok capacity o1 \<Longrightarrow> pools_ok capacity (put_work_conn capacity o1 c m)"
proof -
  assume ok1: "pools_ok capacity o1"
  obtain o2 p where get: "get_pool capacity o1 (newworkconn_RunID m) = (o2, p)" by fastforce
  from pools_ok_get_pool [OF ok1 get] have ok: "pools_ok capacity o2" and p: "p < length (objs (registry o2))"
    and rid: "requestFns o2 ! p = newworkconn_RunID m" by simp_all
  let ?v = "pool_view o2 p" and ?o3 = "put_work_conn capacity o1 c m"
  let ?v' = "?v\<lparr>threads := add_mset (PutLock c) (threads ?v), offered := add_mset c (offered ?v)\<rparr>"
  have o3: "?o3 = o2\<lparr>pool_threads := add_mset (p, PutLock c) (pool_threads o2),
      work_conns := work_conns o2 @ [(p, c, newworkconn_RunID m)]\<rparr>"
    by (simp add: put_work_conn_def get)
  have idx: "indices_ok o2" "named_ok o2"
    using ok by (simp_all add: pools_ok_def)
  have view: "pool_view ?o3 r = (if r = p then ?v' else pool_view o2 r)" for r
    using p by (simp add: o3 pool_view_def)
  have "reachable [capacity] ?v'" if "\<not> crashed o2"
    using ok p that by (intro reachable_step [OF _ pool_step.call_Put] view_alive) (simp_all add: pools_ok_def)
  moreover have "registry ?o3 = registry o2" "crashed ?o3 = crashed o2" "indices_ok ?o3" "named_ok ?o3"
    using idx p rid by (auto simp: o3 indices_ok_def named_ok_def crashed_def)
  ultimately show ?thesis
    using ok by (simp add: pools_ok_def view)
qed

text \<open>A call of \<^verbatim>\<open>Close\<close> is a run of the pool's protocol.\<close>

lemma Close_reachable:
  assumes "reachable capacity s" "alive s"
  shows "reachable capacity (s\<lparr>pool := fst (Close (pool s)), effects := effects s @ snd (Close (pool s))\<rparr>)"
proof -
  let ?s = "s\<lparr>threads := add_mset CloseOnce (threads s)\<rparr>"
  have "reachable capacity ?s"
    by (rule reachable_step [OF assms(1) pool_step.call_Close]) fact
  from thread_steps_reachable [OF this Close_run [of ?s "threads s"]] assms(2) show ?thesis
    by (simp add: alive_def)
qed

lemma close_session_pool_eq:
  assumes "Registry_Get (registry o1) rid = Some p"
  shows "close_session_pool o1 rid =
    o1\<lparr>registry := (registry o1)\<lparr>pools := AList.delete rid (pools (registry o1)),
                                objs := (objs (registry o1))[p := fst (Close (objs (registry o1) ! p))]\<rparr>,
       pool_effects := pool_effects o1 @ map (Pair p) (snd (Close (objs (registry o1) ! p)))\<rparr>"
  using assms by (simp add: close_session_pool_def Registry_Remove_def Registry_Get_def prod.case_eq_if)

lemma pools_ok_close: "pools_ok capacity o1 \<Longrightarrow> pools_ok capacity (close_session_pool o1 rid)"
proof (cases "Registry_Get (registry o1) rid")
  case None
  assume "pools_ok capacity o1"
  with None show ?thesis
    by (simp add: close_session_pool_def Registry_Remove_def Registry_Get_def)
next
  case (Some p)
  assume ok: "pools_ok capacity o1"
  then have p: "p < length (objs (registry o1))"
    using Some registry_ref_less by (simp add: pools_ok_def Registry_Get_def)
  let ?q = "objs (registry o1) ! p" and ?v = "pool_view o1 p" and ?o2 = "close_session_pool o1 rid"
  let ?v' = "?v\<lparr>pool := fst (Close ?q), effects := effects ?v @ snd (Close ?q)\<rparr>"
  note o2 = close_session_pool_eq [OF Some]
  have idx: "indices_ok o1" "named_ok o1"
    using ok by (simp_all add: pools_ok_def)
  have view: "pool_view ?o2 r = (if r = p then ?v' else pool_view o1 r)" for r
    using p by (simp add: o2 pool_view_def)
  have calm: "crashed ?o2 = crashed o1"
    by (auto simp: o2 crashed_iff Close_def)
  have "reachable [capacity] ?v'" if "\<not> crashed o1"
    using Close_reachable [OF _ view_alive [OF that], of "[capacity]" p] ok p that by (simp add: pools_ok_def pool_view_def)
  moreover have "registry_wf (registry ?o2)"
    using registry_wf_Remove [of "registry o1" rid] ok Some
    by (simp add: o2 pools_ok_def Registry_Remove_def Registry_Get_def prod.case_eq_if)
  moreover have "indices_ok ?o2" "named_ok ?o2" "length (objs (registry ?o2)) = length (objs (registry o1))"
    using idx p by (auto simp: o2 indices_ok_def named_ok_def delete_conv' split: if_splits)
  ultimately show ?thesis
    using ok by (simp add: pools_ok_def view calm)
qed

text \<open>A \<^verbatim>\<open>Put\<close> that nobody disturbs, on an open pool with room.\<close>

lemma put_runs:
  assumes "\<not> crashed o1" "pool_threads o1 = add_mset (p, PutLock c) M" "p < length (objs (registry o1))"
    and "\<not> Pool.closed (objs (registry o1) ! p)" "chan_send (conns (objs (registry o1) ! p)) c = Sent ch"
  shows "pool_runs\<^sup>*\<^sup>* o1 (o1\<lparr>registry := (registry o1)\<lparr>objs := (objs (registry o1))[p := (objs (registry o1) ! p)\<lparr>conns := ch\<rparr>]\<rparr>,
      pool_threads := M\<rparr>)"
proof -
  let ?q = "objs (registry o1) ! p"
  have "pool_runs o1 (pool_acts p M (?q, [], [PutSend c]) o1)"
    using assms by (intro pool_runs.intros [of _ p "PutLock c"]) (simp_all add: exec_def)
  moreover have "pool_acts p M (?q, [], [PutSend c]) o1 = o1\<lparr>pool_threads := add_mset (p, PutSend c) M\<rparr>"
    by (simp add: pool_acts_def)
  moreover have "pool_runs (o1\<lparr>pool_threads := add_mset (p, PutSend c) M\<rparr>)
      (pool_acts p M (?q\<lparr>conns := ch\<rparr>, [], []) (o1\<lparr>pool_threads := add_mset (p, PutSend c) M\<rparr>))"
    using assms by (intro pool_runs.intros [of _ p "PutSend c"]) (simp_all add: exec_def crashed_def)
  ultimately show ?thesis
    using converse_rtranclp_into_rtranclp [of pool_runs, OF _ r_into_rtranclp] by (simp add: pool_acts_def)
qed

text \<open>A schedule of goroutines, each taking its first outcome.\<close>

fun sched_pools :: "(pool_ref \<times> pc) list \<Rightarrow> stack_pools \<Rightarrow> stack_pools option" where
  "sched_pools [] o1 = Some o1"
| "sched_pools (t # ts) o1 =
     (if \<not> crashed o1 \<and> t \<in># pool_threads o1 \<and> exec (objs (registry o1) ! fst t) (snd t) \<noteq> []
      then sched_pools ts (pool_acts (fst t) (pool_threads o1 - {#t#}) (hd (exec (objs (registry o1) ! fst t) (snd t))) o1)
      else None)"

lemma sched_pools_runs: "sched_pools ts o1 = Some o2 \<Longrightarrow> pool_runs\<^sup>*\<^sup>* o1 o2"
proof (induction ts arbitrary: o1)
  case (Cons t ts)
  let ?x = "hd (exec (objs (registry o1) ! fst t) (snd t))"
  have t: "\<not> crashed o1" "t \<in># pool_threads o1" "exec (objs (registry o1) ! fst t) (snd t) \<noteq> []"
    using Cons.prems by (auto split: if_splits)
  then have "pool_runs o1 (pool_acts (fst t) (pool_threads o1 - {#t#}) ?x o1)"
    by (intro pool_runs.intros [of _ "fst t" "snd t"]) simp_all
  moreover have "pool_runs\<^sup>*\<^sup>* (pool_acts (fst t) (pool_threads o1 - {#t#}) ?x o1) o2"
    using Cons t by (intro Cons.IH) simp
  ultimately show ?case by (rule converse_rtranclp_into_rtranclp)
qed simp

interpretation stack: handler_owner "put_work_conn capacity" close_session_pool pool_moves "pools_ok capacity"
  by unfold_locales (fact pools_ok_put pools_ok_close pools_ok_moves)+

end
