(* ===== verification/Snappy.thy ===== *)
theory Snappy
  imports Crypto "HOL-Library.Sublist"
begin

text \<open>
  The compressing layer, \<^verbatim>\<open>internal/crypto/snappy.go\<close>: a \<^verbatim>\<open>snappy.Writer\<close> that is flushed after every \<^verbatim>\<open>Write\<close>.
  The package \<^verbatim>\<open>github.com/golang/snappy\<close> is not in the repository: its operations are the fields of
  \<open>snappy_package\<close>, an argument of the definitions. What its documentation promises about them is \<open>snappy_ok\<close>,
  a hypothesis of the property, for two views of a writer: \<open>emitted\<close> is what it has handed to the connection below, and
  \<open>buffered\<close> what it has accepted and still keeps.
\<close>

section \<open>The writer\<close>

record ('w, 's, 'e) snappy_package =
  NewBufferedWriter :: "'w \<Rightarrow> 's"
  Writer_Write :: "'s \<Rightarrow> bytes \<Rightarrow> 's \<times> nat \<times> 'e option"
  Writer_Flush :: "'s \<Rightarrow> 's \<times> 'e option"
  Writer_Close :: "'s \<Rightarrow> 's \<times> 'e option"
  snappy_NewReader :: "bytes \<Rightarrow> bytes"

definition NewSnappyWriter :: "('w, 's, 'e) snappy_package \<Rightarrow> 'w \<Rightarrow> 's" where
  "NewSnappyWriter snappy w = NewBufferedWriter snappy w"

definition autoFlush_Write :: "('w, 's, 'e) snappy_package \<Rightarrow> 's \<Rightarrow> bytes \<Rightarrow> 's \<times> nat \<times> 'e option" where
  "autoFlush_Write snappy s p =
     (case Writer_Write snappy s p of
        (s1, n, Some err) \<Rightarrow> (s1, n, Some err)
      | (s1, n, None) \<Rightarrow>
          (case Writer_Flush snappy s1 of
             (s2, Some err) \<Rightarrow> (s2, n, Some err)
           | (s2, None) \<Rightarrow> (s2, n, None)))"

definition autoFlush_Close :: "('w, 's, 'e) snappy_package \<Rightarrow> 's \<Rightarrow> 's \<times> 'e option" where
  "autoFlush_Close snappy s = Writer_Close snappy s"

text \<open>The reader, on the whole stream that comes in.\<close>

definition NewSnappyReader :: "('w, 's, 'e) snappy_package \<Rightarrow> bytes \<Rightarrow> bytes" where
  "NewSnappyReader snappy r = snappy_NewReader snappy r"

text \<open>A caller that writes \<open>ps\<close> one after another and gives up at the first error: the messages that got through, and the error.\<close>

fun autoFlush_writes :: "('w, 's, 'e) snappy_package \<Rightarrow> 's \<Rightarrow> bytes list \<Rightarrow> 's \<times> bytes list \<times> 'e option" where
  "autoFlush_writes snappy s [] = (s, [], None)"
| "autoFlush_writes snappy s (p # ps) =
     (case autoFlush_Write snappy s p of
        (s1, n, Some err) \<Rightarrow> (s1, [], Some err)
      | (s1, n, None) \<Rightarrow>
          (case autoFlush_writes snappy s1 ps of (s2, sent, err) \<Rightarrow> (s2, p # sent, err)))"

section \<open>What the package promises\<close>

definition write_ok :: "(bytes \<Rightarrow> bytes) \<Rightarrow> ('s \<Rightarrow> bytes) \<Rightarrow> ('s \<Rightarrow> bytes) \<Rightarrow> 's \<Rightarrow> bytes \<Rightarrow> 's \<times> nat \<times> 'e option \<Rightarrow> bool" where
  "write_ok decode emitted buffered s p r \<longleftrightarrow>
     (case r of (s', n, err) \<Rightarrow>
        n \<le> length p \<and> prefix (decode (emitted s')) (decode (emitted s) @ buffered s @ p) \<and>
        (err = None \<longrightarrow> n = length p \<and> decode (emitted s') @ buffered s' = decode (emitted s) @ buffered s @ p))"

definition flush_ok :: "(bytes \<Rightarrow> bytes) \<Rightarrow> ('s \<Rightarrow> bytes) \<Rightarrow> ('s \<Rightarrow> bytes) \<Rightarrow> 's \<Rightarrow> 's \<times> 'e option \<Rightarrow> bool" where
  "flush_ok decode emitted buffered s r \<longleftrightarrow>
     (case r of (s', err) \<Rightarrow>
        prefix (decode (emitted s')) (decode (emitted s) @ buffered s) \<and>
        (err = None \<longrightarrow> buffered s' = [] \<and> decode (emitted s') = decode (emitted s) @ buffered s))"

definition snappy_ok :: "('w, 's, 'e) snappy_package \<Rightarrow> ('s \<Rightarrow> bytes) \<Rightarrow> ('s \<Rightarrow> bytes) \<Rightarrow> bool" where
  "snappy_ok snappy emitted buffered \<longleftrightarrow>
     (\<forall>w. snappy_NewReader snappy (emitted (NewBufferedWriter snappy w)) = [] \<and> buffered (NewBufferedWriter snappy w) = []) \<and>
     (\<forall>s p. write_ok (snappy_NewReader snappy) emitted buffered s p (Writer_Write snappy s p)) \<and>
     (\<forall>s. flush_ok (snappy_NewReader snappy) emitted buffered s (Writer_Flush snappy s))"

lemma autoFlush_Write_ok:
  assumes ok: "snappy_ok snappy emitted buffered" and w: "autoFlush_Write snappy s p = (s', n, err)"
  shows "err = None \<Longrightarrow> buffered s = [] \<Longrightarrow> n = length p \<and> buffered s' = [] \<and>
      NewSnappyReader snappy (emitted s') = NewSnappyReader snappy (emitted s) @ p"
    and "prefix (NewSnappyReader snappy (emitted s')) (NewSnappyReader snappy (emitted s) @ buffered s @ p)"
proof -
  obtain s1 n1 e1 where 1: "Writer_Write snappy s p = (s1, n1, e1)" by (cases "Writer_Write snappy s p")
  obtain s2 e2 where 2: "Writer_Flush snappy s1 = (s2, e2)" by (cases "Writer_Flush snappy s1")
  have "write_ok (snappy_NewReader snappy) emitted buffered s p (s1, n1, e1)"
    "flush_ok (snappy_NewReader snappy) emitted buffered s1 (s2, e2)"
    using ok unfolding snappy_ok_def 1 [symmetric] 2 [symmetric] by blast+
  then show "err = None \<Longrightarrow> buffered s = [] \<Longrightarrow> n = length p \<and> buffered s' = [] \<and>
      NewSnappyReader snappy (emitted s') = NewSnappyReader snappy (emitted s) @ p"
    "prefix (NewSnappyReader snappy (emitted s')) (NewSnappyReader snappy (emitted s) @ buffered s @ p)"
    using w 1 2
    by (auto simp: autoFlush_Write_def write_ok_def flush_ok_def NewSnappyReader_def split: option.splits)
qed

lemma autoFlush_writes_ok:
  assumes "snappy_ok snappy emitted buffered" "autoFlush_writes snappy s ps = (s', sent, err)" "buffered s = []"
  shows "(err = None \<longrightarrow> sent = ps \<and> buffered s' = [] \<and>
       NewSnappyReader snappy (emitted s') = NewSnappyReader snappy (emitted s) @ concat ps) \<and>
    (\<forall>e. err = Some e \<longrightarrow> (\<exists>p rest. ps = sent @ p # rest \<and>
       prefix (NewSnappyReader snappy (emitted s')) (NewSnappyReader snappy (emitted s) @ concat sent @ p)))"
  using assms(2,3)
proof (induction ps arbitrary: s s' sent err)
  case (Cons p ps)
  obtain s1 n e1 where 1: "autoFlush_Write snappy s p = (s1, n, e1)" by (cases "autoFlush_Write snappy s p")
  note w = autoFlush_Write_ok [OF assms(1) 1]
  show ?case
  proof (cases e1)
    case None
    obtain s2 sent2 e2 where 2: "autoFlush_writes snappy s1 ps = (s2, sent2, e2)"
      by (cases "autoFlush_writes snappy s1 ps")
    from None 1 2 Cons.prems have "s' = s2" "sent = p # sent2" "err = e2" by simp_all
    with Cons.IH [OF 2] w(1) [OF None Cons.prems(2)] show ?thesis
      by (cases e2) auto
  next
    case (Some e)
    with 1 w(2) Cons.prems show ?thesis by auto
  qed
qed simp

section \<open>Property\<close>

text \<open>A package that stores: it buffers up to \<open>cap\<close> bytes and fails when the connection takes no more than \<open>quota\<close>.\<close>

record store_writer =
  st_emitted :: bytes
  st_buffered :: bytes
  st_quota :: "nat option"

definition store_Flush :: "store_writer \<Rightarrow> store_writer \<times> unit option" where
  "store_Flush s =
     (case st_quota s of
        None \<Rightarrow> (s\<lparr>st_emitted := st_emitted s @ st_buffered s, st_buffered := []\<rparr>, None)
      | Some q \<Rightarrow>
          if length (st_buffered s) \<le> q
          then (s\<lparr>st_emitted := st_emitted s @ st_buffered s, st_buffered := [], st_quota := Some (q - length (st_buffered s))\<rparr>, None)
          else (s\<lparr>st_emitted := st_emitted s @ take q (st_buffered s), st_buffered := [], st_quota := Some 0\<rparr>, Some ()))"

definition store_Write :: "nat \<Rightarrow> store_writer \<Rightarrow> bytes \<Rightarrow> store_writer \<times> nat \<times> unit option" where
  "store_Write cap s p =
     (let s1 = s\<lparr>st_buffered := st_buffered s @ p\<rparr>
      in if length (st_buffered s1) \<le> cap then (s1, length p, None)
         else (case store_Flush s1 of (s2, err) \<Rightarrow> (s2, length p, err)))"

definition store_package :: "nat \<Rightarrow> (nat option, store_writer, unit) snappy_package" where
  "store_package cap =
     \<lparr>NewBufferedWriter = (\<lambda>q. \<lparr>st_emitted = [], st_buffered = [], st_quota = q\<rparr>), Writer_Write = store_Write cap,
      Writer_Flush = store_Flush, Writer_Close = store_Flush, snappy_NewReader = (\<lambda>b. b)\<rparr>"

lemma store_Flush_ok: "flush_ok (\<lambda>b. b) st_emitted st_buffered s (store_Flush s)"
  by (auto simp: flush_ok_def store_Flush_def take_is_prefix split: option.split)

lemma store_Write_ok: "write_ok (\<lambda>b. b) st_emitted st_buffered s p (store_Write cap s p)"
proof -
  let ?s = "s\<lparr>st_buffered := st_buffered s @ p\<rparr>"
  show ?thesis
    using store_Flush_ok [of ?s]
    by (cases "store_Flush ?s") (auto simp: write_ok_def flush_ok_def store_Write_def Let_def prefix_def)
qed

lemma store_package_ok: "snappy_ok (store_package cap) st_emitted st_buffered"
  by (simp add: snappy_ok_def store_package_def store_Write_ok store_Flush_ok)

text \<open>
  C39: A compressed connection never holds bytes back. As long as the writes succeed, after each of them the peer's
  reader can already decode everything that was written so far, whatever the package buffers internally, so the two ends of a
  request-response exchange do not wait for each other; each successful \<^verbatim>\<open>Write\<close> reports the whole length. The first
  failing write or flush is reported by the \<^verbatim>\<open>Write\<close> in which it happens, and what the peer can decode
  then is a prefix of what was written. The hypothesis is what snappy documents of \<^verbatim>\<open>Write\<close> and \<^verbatim>\<open>Flush\<close>.
\<close>

theorem snappy_never_holds_back:
  assumes "snappy_ok snappy emitted buffered"
    and "autoFlush_writes snappy (NewSnappyWriter snappy w) ps = (s, sent, err)"
  shows "(err = None \<longrightarrow> sent = ps \<and> buffered s = [] \<and> NewSnappyReader snappy (emitted s) = concat ps \<and>
       (\<forall>p. snd (snd (autoFlush_Write snappy s p)) = None \<longrightarrow>
            NewSnappyReader snappy (emitted (fst (autoFlush_Write snappy s p))) = concat ps @ p \<and>
            fst (snd (autoFlush_Write snappy s p)) = length p)) \<and>
    (\<forall>e. err = Some e \<longrightarrow> (\<exists>p rest. ps = sent @ p # rest \<and>
       prefix (NewSnappyReader snappy (emitted s)) (concat sent @ p)))"
proof -
  have new: "buffered (NewSnappyWriter snappy w) = []" "NewSnappyReader snappy (emitted (NewSnappyWriter snappy w)) = []"
    using assms(1) by (simp_all add: snappy_ok_def NewSnappyWriter_def NewSnappyReader_def)
  have "NewSnappyReader snappy (emitted (fst (autoFlush_Write snappy s p))) = NewSnappyReader snappy (emitted s) @ p \<and>
      fst (snd (autoFlush_Write snappy s p)) = length p"
    if "snd (snd (autoFlush_Write snappy s p)) = None" "buffered s = []" for p
    using autoFlush_Write_ok(1) [OF assms(1), of s p "fst (autoFlush_Write snappy s p)"] that by (metis prod.collapse)
  with autoFlush_writes_ok [OF assms new(1)] new(2) show ?thesis by simp
qed

theorem snappy_never_holds_back_witness:
  "\<exists>s. autoFlush_writes (store_package 65536) (NewSnappyWriter (store_package 65536) None) [[1, 2], [3]] = (s, [[1, 2], [3]], None) \<and>
     NewSnappyReader (store_package 65536) (st_emitted s) = [1, 2, 3]"
proof -
  obtain s sent err where s: "autoFlush_writes (store_package 65536) (NewSnappyWriter (store_package 65536) None) [[1, 2], [3]] = (s, sent, err)"
    by (cases "autoFlush_writes (store_package 65536) (NewSnappyWriter (store_package 65536) None) [[1, 2], [3]]")
  then have "err = None"
    by (auto simp: store_package_def NewSnappyWriter_def autoFlush_Write_def store_Write_def store_Flush_def Let_def)
  with s snappy_never_holds_back [OF store_package_ok s] show ?thesis by auto
qed

end
