(* ===== verification/Wrap.thy ===== *)
theory Wrap
  imports Snappy
begin

text \<open>
  The layers of a work connection, \<^verbatim>\<open>internal/wrap/wrap.go\<close>: after a
  plain \<^verbatim>\<open>StartWorkConn\<close> the connection is used as it is, or behind AES-CFB, snappy, or both
  (\<^verbatim>\<open>conn -> AES -> snappy -> HTTP\<close>). Snappy is not in the repository: \<open>snappy_chunk\<close> is what a flushed
  \<^verbatim>\<open>Write\<close> of \<^verbatim>\<open>snappy.Writer\<close> emits, given the earlier ones, and \<open>snappy_decode\<close> what
  \<^verbatim>\<open>snappy.Reader\<close> makes of a stream; \<open>flushed_chunk\<close> derives them from the operations of a package as in \<open>Snappy\<close>.
  The inbound direction of the connection is the stream of bytes still to come.
\<close>

section \<open>Connections\<close>

datatype closer = CloseConn | CloseSnappyThenConn

text \<open>
  \<open>wrappedConn\<close>: \<open>wc_w\<close> is the connection that is written to, \<open>wc_enc\<close> the cipher stream of
  the writer, \<open>wc_comp\<close> the history of the compressor, \<open>wc_r\<close> the inbound bytes with the cipher
  stream of the reader. Without any layer the raw connection is returned instead.
\<close>

record 'w wrappedConn =
  wc_w :: 'w
  wc_enc :: "cfb option"
  wc_comp :: "bytes list option"
  wc_r :: bytes
  wc_dec :: "cfb option"
  wc_c :: closer
  wc_raw :: bool

datatype 'e wrap_error = StartError 'e | CryptoWriterError "'e crypto_error" | CryptoReaderError "'e crypto_error"

definition start_work_conn :: "string \<Rightarrow> Message" where
  "start_work_conn proxyName = StartWorkConn
     \<lparr>startworkconn_ProxyName = proxyName, startworkconn_SrcAddr = [], startworkconn_DstAddr = [],
      startworkconn_SrcPort = 0, startworkconn_DstPort = 0, startworkconn_Error = []\<rparr>"

text \<open>\<open>write\<close> is the \<^verbatim>\<open>Write\<close> of the connection, \<open>iv\<close> what \<^verbatim>\<open>rand.Read\<close> delivers.\<close>

definition Wrap ::
  "('w \<Rightarrow> bytes \<Rightarrow> 'w \<times> 'e option) \<Rightarrow> bytes option \<Rightarrow> 'w \<Rightarrow> bytes \<Rightarrow> bytes \<Rightarrow> string \<Rightarrow> bool \<Rightarrow> bool \<Rightarrow>
   'w \<times> ('e wrap_error + 'w wrappedConn)" where
  "Wrap write iv conn inbound aesKey proxyName enc compr =
     (case WriteMsg write conn (start_work_conn proxyName) of
        (w1, Some e) \<Rightarrow> (w1, Inl (StartError e))
      | (w1, None) \<Rightarrow>
          if \<not> enc \<and> \<not> compr then
            (w1, Inr \<lparr>wc_w = w1, wc_enc = None, wc_comp = None, wc_r = inbound, wc_dec = None,
                      wc_c = CloseConn, wc_raw = True\<rparr>)
          else
            let layer = (\<lambda>w ew r dr.
                  (w, Inr \<lparr>wc_w = w, wc_enc = ew, wc_comp = (if compr then Some [] else None), wc_r = r, wc_dec = dr,
                           wc_c = (if compr then CloseSnappyThenConn else CloseConn), wc_raw = False\<rparr>))
            in if enc then
                 (case NewCryptoWriter write iv w1 aesKey of
                    (w2, Inl e) \<Rightarrow> (w2, Inl (CryptoWriterError e))
                  | (w2, Inr ew) \<Rightarrow>
                      (case NewCryptoReader inbound aesKey of
                         Inl e \<Rightarrow> (w2, Inl (CryptoReaderError e))
                       | Inr (r, dr) \<Rightarrow> layer w2 (Some ew) r (Some dr)))
               else layer w1 None inbound None)"

text \<open>\<^verbatim>\<open>wrappedConn.Write\<close> with the auto-flushing snappy writer on top of the cipher stream.\<close>

definition wrapped_Write ::
  "(bytes list \<Rightarrow> bytes \<Rightarrow> bytes) \<Rightarrow> ('w \<Rightarrow> bytes \<Rightarrow> 'w \<times> 'e option) \<Rightarrow> 'w wrappedConn \<Rightarrow> bytes \<Rightarrow>
   'w wrappedConn \<times> 'e option" where
  "wrapped_Write snappy_chunk write c p =
     (let (compr', q) = (case wc_comp c of None \<Rightarrow> (None, p) | Some h \<Rightarrow> (Some (h @ [p]), snappy_chunk h p))
      in case wc_enc c of
           None \<Rightarrow> (case write (wc_w c) q of (w', e) \<Rightarrow> (c\<lparr>wc_w := w', wc_comp := compr'\<rparr>, e))
         | Some x \<Rightarrow>
             (case StreamWriter_Write write (wc_w c, x) q of
                ((w', x'), e) \<Rightarrow> (c\<lparr>wc_w := w', wc_enc := Some x', wc_comp := compr'\<rparr>, e)))"

text \<open>Everything a reader of the connection gets when the inbound stream is read to its end.\<close>

definition wrapped_ReadAll :: "(bytes \<Rightarrow> bytes) \<Rightarrow> 'w wrappedConn \<Rightarrow> bytes" where
  "wrapped_ReadAll snappy_decode c =
     (let q = (case wc_dec c of None \<Rightarrow> wc_r c | Some x \<Rightarrow> snd (XORKeyStream True x (wc_r c)))
      in if wc_comp c = None then q else snappy_decode q)"

text \<open>\<^verbatim>\<open>Close\<close>: what is closed, in order.\<close>

datatype closed_part = ClosedSnappy | ClosedConn

fun closer_Close :: "closer \<Rightarrow> closed_part list" where
  "closer_Close CloseConn = [ClosedConn]"
| "closer_Close CloseSnappyThenConn = [ClosedSnappy, ClosedConn]"

definition wrapped_Close :: "'w wrappedConn \<Rightarrow> closed_part list" where
  "wrapped_Close c = closer_Close (wc_c c)"

text \<open>The methods that go to the connection below, whatever the layers; \<open>op\<close> is the connection's own.\<close>

definition wrapped_LocalAddr :: "('w \<Rightarrow> 'a) \<Rightarrow> 'w wrappedConn \<Rightarrow> 'a" where
  "wrapped_LocalAddr op c = op (wc_w c)"

definition wrapped_RemoteAddr :: "('w \<Rightarrow> 'a) \<Rightarrow> 'w wrappedConn \<Rightarrow> 'a" where
  "wrapped_RemoteAddr op c = op (wc_w c)"

definition wrapped_SetDeadline :: "('w \<Rightarrow> 't \<Rightarrow> 'w \<times> 'e option) \<Rightarrow> 'w wrappedConn \<Rightarrow> 't \<Rightarrow> 'w wrappedConn \<times> 'e option" where
  "wrapped_SetDeadline op c t = (case op (wc_w c) t of (w, e) \<Rightarrow> (c\<lparr>wc_w := w\<rparr>, e))"

definition wrapped_SetReadDeadline :: "('w \<Rightarrow> 't \<Rightarrow> 'w \<times> 'e option) \<Rightarrow> 'w wrappedConn \<Rightarrow> 't \<Rightarrow> 'w wrappedConn \<times> 'e option" where
  "wrapped_SetReadDeadline op c t = (case op (wc_w c) t of (w, e) \<Rightarrow> (c\<lparr>wc_w := w\<rparr>, e))"

definition wrapped_SetWriteDeadline :: "('w \<Rightarrow> 't \<Rightarrow> 'w \<times> 'e option) \<Rightarrow> 'w wrappedConn \<Rightarrow> 't \<Rightarrow> 'w wrappedConn \<times> 'e option" where
  "wrapped_SetWriteDeadline op c t = (case op (wc_w c) t of (w, e) \<Rightarrow> (c\<lparr>wc_w := w\<rparr>, e))"

section \<open>The outbound stream\<close>

fun snappy_out :: "(bytes list \<Rightarrow> bytes \<Rightarrow> bytes) \<Rightarrow> bytes list \<Rightarrow> bytes list \<Rightarrow> bytes" where
  "snappy_out snappy_chunk h [] = []"
| "snappy_out snappy_chunk h (p # ps) = snappy_chunk h p @ snappy_out snappy_chunk (h @ [p]) ps"

abbreviation append_write :: "bytes \<Rightarrow> bytes \<Rightarrow> bytes \<times> unit option" where
  "append_write \<equiv> \<lambda>w b. (w @ b, None)"

fun wrapped_writes :: "(bytes list \<Rightarrow> bytes \<Rightarrow> bytes) \<Rightarrow> bytes wrappedConn \<Rightarrow> bytes list \<Rightarrow> bytes wrappedConn" where
  "wrapped_writes snappy_chunk c [] = c"
| "wrapped_writes snappy_chunk c (p # ps) =
     wrapped_writes snappy_chunk (fst (wrapped_Write snappy_chunk append_write c p)) ps"

text \<open>The bytes below the compressor and the bytes below the cipher.\<close>

definition layer_out :: "(bytes list \<Rightarrow> bytes \<Rightarrow> bytes) \<Rightarrow> bytes list option \<Rightarrow> bytes list \<Rightarrow> bytes" where
  "layer_out snappy_chunk compr ps = (case compr of None \<Rightarrow> concat ps | Some h \<Rightarrow> snappy_out snappy_chunk h ps)"

definition cipher_out :: "cfb option \<Rightarrow> bytes \<Rightarrow> bytes" where
  "cipher_out x q = (case x of None \<Rightarrow> q | Some x \<Rightarrow> snd (XORKeyStream False x q))"

lemma wrapped_writes_out:
  "wc_w (wrapped_writes sc c ps) = wc_w c @ cipher_out (wc_enc c) (layer_out sc (wc_comp c) ps)"
proof (induction ps arbitrary: c)
  case Nil
  then show ?case
    by (simp add: layer_out_def cipher_out_def XORKeyStream_def split: option.split)
next
  case (Cons p ps)
  then show ?case
    by (cases "wc_comp c"; cases "wc_enc c")
      (simp_all add: wrapped_Write_def StreamWriter_Write_def XORKeyStream_def layer_out_def cipher_out_def
        xor_stream_append split: prod.splits)
qed

lemma cipher_out_pair: "snd (XORKeyStream True x (cipher_out (Some x) q)) = q"
proof -
  obtain x' c where e: "xor_stream (cfb_byte False) x q = (x', c)" by fastforce
  from cfb.stream_in_step [OF this] show ?thesis
    using e by (simp add: cipher_out_def XORKeyStream_def)
qed

text \<open>
  The chunks of a package that keeps the promises of \<open>Snappy\<close> and does not fail: what one flushed write adds to the emitted
  stream. Written one after another they make up the stream, so that the reader gets what was written.
\<close>

definition flushed_chunk :: "('x, 's, 'e) snappy_package \<Rightarrow> ('s \<Rightarrow> bytes) \<Rightarrow> 's \<Rightarrow> bytes list \<Rightarrow> bytes \<Rightarrow> bytes" where
  "flushed_chunk snappy emitted s h p =
     (let s1 = fst (autoFlush_writes snappy s h)
      in drop (length (emitted s1)) (emitted (fst (autoFlush_Write snappy s1 p))))"

lemma autoFlush_writes_snoc:
  assumes "\<And>s p. snd (snd (autoFlush_Write snappy s p)) = None"
  shows "autoFlush_writes snappy s (h @ [p]) =
      (fst (autoFlush_Write snappy (fst (autoFlush_writes snappy s h)) p), h @ [p], None)"
proof (induction h arbitrary: s)
  case Nil
  then show ?case using assms [of s p] by (cases "autoFlush_Write snappy s p") simp
next
  case (Cons q h)
  then show ?case
    using assms [of s q] by (cases "autoFlush_Write snappy s q"; cases "autoFlush_writes snappy (fst (autoFlush_Write snappy s q)) h") simp
qed

lemma flushed_chunks:
  assumes "\<And>s p. snd (snd (autoFlush_Write snappy s p)) = None"
    and "\<And>s p. prefix (emitted s) (emitted (fst (autoFlush_Write snappy s p)))"
  shows "emitted (fst (autoFlush_writes snappy s h)) @ snappy_out (flushed_chunk snappy emitted s) h ps =
      emitted (fst (autoFlush_writes snappy s (h @ ps)))"
proof (induction ps arbitrary: h)
  case (Cons p ps)
  let ?s1 = "fst (autoFlush_writes snappy s h)"
  have "emitted ?s1 @ flushed_chunk snappy emitted s h p = emitted (fst (autoFlush_writes snappy s (h @ [p])))"
    using assms(2) [of ?s1 p] by (auto simp: flushed_chunk_def Let_def autoFlush_writes_snoc [OF assms(1)] prefix_def)
  with Cons [of "h @ [p]"] show ?case by (metis append.assoc append_Cons append_Nil snappy_out.simps(2))
qed simp

lemma flushed_chunks_decode:
  assumes "snappy_ok snappy emitted buffered" "\<And>s p. snd (snd (autoFlush_Write snappy s p)) = None"
    and "\<And>s p. prefix (emitted s) (emitted (fst (autoFlush_Write snappy s p)))"
    and "emitted (NewSnappyWriter snappy w) = []"
  shows "NewSnappyReader snappy (snappy_out (flushed_chunk snappy emitted (NewSnappyWriter snappy w)) [] ps) = concat ps"
proof -
  let ?s = "NewSnappyWriter snappy w"
  have "snd (snd (autoFlush_writes snappy ?s ps)) = None"
    using autoFlush_writes_snoc [OF assms(2), where s = ?s] by (cases ps rule: rev_cases) simp_all
  moreover have "buffered ?s = []" "NewSnappyReader snappy (emitted ?s) = []"
    using assms(1) by (simp_all add: snappy_ok_def NewSnappyWriter_def NewSnappyReader_def)
  ultimately have "NewSnappyReader snappy (emitted (fst (autoFlush_writes snappy ?s ps))) = concat ps"
    using autoFlush_writes_ok [OF assms(1)] by (metis append_Nil prod.collapse)
  with flushed_chunks [of snappy emitted ?s "[]" ps] assms(2-4) show ?thesis by simp
qed

section \<open>Properties\<close>

text \<open>
  C22: A wrapped work connection is transparent in each of the four modes. On a connection that
  accepts every byte, the wrapping succeeds; what it puts out is the \<^verbatim>\<open>StartWorkConn\<close> frame,
  which \<^verbatim>\<open>ReadMsg\<close> reads back, then the initial vector if there is encryption, then the body; and
  a peer that opens its end with the same key and modes reads exactly what was written. The
  hypotheses on snappy and on the key state that snappy decodes what it encoded and that the key
  has a length AES accepts.
\<close>

theorem Wrap_transparent:
  assumes snappy: "\<And>ps. snappy_decode (snappy_out snappy_chunk [] ps) = concat ps"
    and "length key \<in> {16, 24, 32}" "length iv = 16" "length peer_iv = 16"
    and "utf8_valid proxyName" "length (json_Marshal (start_work_conn proxyName)) \<le> MaxBodySize"
  shows "\<exists>w c body. Wrap append_write (Some iv) [] (if enc then peer_iv else []) key proxyName enc compr = (w, Inr c) \<and>
    wc_w (wrapped_writes snappy_chunk c ps) = frame (start_work_conn proxyName) @ (if enc then iv else []) @ body \<and>
    ReadMsg (frame (start_work_conn proxyName) @ (if enc then iv else []) @ body) =
      Inr (start_work_conn proxyName, (if enc then iv else []) @ body) \<and>
    (\<exists>w' peer. Wrap append_write (Some peer_iv) [] ((if enc then iv else []) @ body) key proxyName enc compr = (w', Inr peer) \<and>
       wrapped_ReadAll snappy_decode peer = concat ps)"
proof -
  let ?f = "frame (start_work_conn proxyName)" and ?compr = "if compr then Some [] else None"
  let ?x = "if enc then Some (newCFB key iv) else None"
  let ?body = "cipher_out ?x (layer_out snappy_chunk ?compr ps)"
  have read: "ReadMsg (?f @ r) = Inr (start_work_conn proxyName, r)" for r
    using assms by (intro ReadMsg_frame) (simp_all add: msg_wf_def start_work_conn_def)
  have wrap: "\<exists>w c. Wrap append_write (Some v) [] ((if enc then u else []) @ r) key proxyName enc compr = (w, Inr c) \<and>
      wc_w c = ?f @ (if enc then v else []) \<and> wc_enc c = (if enc then Some (newCFB key v) else None) \<and>
      wc_comp c = ?compr \<and> wc_r c = r \<and> wc_dec c = (if enc then Some (newCFB key u) else None)"
    if "length u = 16" for u v r
    using assms(2) that
    by (auto simp: Wrap_def WriteMsg_def NewCryptoWriter_def NewCryptoReader_def aes_NewCipher_def io_ReadFull_def
        aes_BlockSize_def Let_def)
  obtain w c where c: "Wrap append_write (Some iv) [] (if enc then peer_iv else []) key proxyName enc compr = (w, Inr c)"
      "wc_w c = ?f @ (if enc then iv else [])" "wc_enc c = ?x" "wc_comp c = ?compr"
    using wrap [OF assms(4), of iv "[]"] by auto
  obtain w' peer where p: "Wrap append_write (Some peer_iv) [] ((if enc then iv else []) @ ?body) key proxyName enc compr = (w', Inr peer)"
      "wc_comp peer = ?compr" "wc_r peer = ?body" "wc_dec peer = ?x"
    using wrap [OF assms(3), of peer_iv ?body] by auto
  have "wrapped_ReadAll snappy_decode peer = concat ps"
    using p(2-4) snappy cipher_out_pair [of "newCFB key iv"]
    by (auto simp: wrapped_ReadAll_def layer_out_def Let_def cipher_out_def [of None])
  moreover have "wc_w (wrapped_writes snappy_chunk c ps) = ?f @ (if enc then iv else []) @ ?body"
    by (simp add: wrapped_writes_out c)
  ultimately show ?thesis
    using c(1) p(1) read by blast
qed

text \<open>A compressor that stores its input, for a concrete instance.\<close>

lemma snappy_out_store: "snappy_out (\<lambda>h p. p) h ps = concat ps"
  by (induction ps arbitrary: h) simp_all

theorem Wrap_transparent_witness:
  "\<exists>w c. Wrap append_write (Some (replicate 16 1)) [] (replicate 16 2) (replicate 16 3) ''web'' True True = (w, Inr c)"
proof -
  have "length (json_Marshal (start_work_conn ''web'')) \<le> MaxBodySize"
    by (simp add: start_work_conn_def marshal_eval MaxBodySize_def)
  then show ?thesis
    using Wrap_transparent [of "\<lambda>b. b" "\<lambda>h p. p" "replicate 16 3" "replicate 16 1" "replicate 16 2" "''web''" True True "[]"]
    by (auto simp: snappy_out_store)
qed

end
