(* ===== verification/Http.thy ===== *)
theory Http
  imports Go_Strings
begin

text \<open>
  The parts of \<^verbatim>\<open>net/http\<close> that the proxy uses on a request: header maps with canonical keys, and
  basic authentication with \<^verbatim>\<open>base64.StdEncoding\<close>. Main result: decoding inverts encoding, so the
  credentials that a client sends are the ones the proxy compares.
\<close>

section \<open>Headers\<close>

type_synonym header = "string \<rightharpoonup> string list"

definition token_char :: "char \<Rightarrow> bool" where
  "token_char c \<longleftrightarrow> (let n = of_char c :: nat in
     48 \<le> n \<and> n \<le> 57 \<or> 65 \<le> n \<and> n \<le> 90 \<or> 97 \<le> n \<and> n \<le> 122 \<or>
     n \<in> {33, 35, 36, 37, 38, 39, 42, 43, 45, 46, 94, 95, 96, 124, 126})"

definition to_upper :: "char \<Rightarrow> char" where
  "to_upper c = (if 97 \<le> (of_char c :: nat) \<and> (of_char c :: nat) \<le> 122 then char_of ((of_char c :: nat) - 32) else c)"

definition to_lower :: "char \<Rightarrow> char" where
  "to_lower c = (if 65 \<le> (of_char c :: nat) \<and> (of_char c :: nat) \<le> 90 then char_of ((of_char c :: nat) + 32) else c)"

fun canon_from :: "bool \<Rightarrow> string \<Rightarrow> string" where
  "canon_from up [] = []"
| "canon_from up (c # cs) =
     (let c' = (if up then to_upper c else to_lower c) in c' # canon_from (c' = CHR ''-'') cs)"

definition CanonicalMIMEHeaderKey :: "string \<Rightarrow> string" where
  "CanonicalMIMEHeaderKey s = (if list_all token_char s then canon_from True s else s)"

definition Header_Set :: "header \<Rightarrow> string \<Rightarrow> string \<Rightarrow> header" where
  "Header_Set h k v = h(CanonicalMIMEHeaderKey k \<mapsto> [v])"

definition Header_Get :: "header \<Rightarrow> string \<Rightarrow> string" where
  "Header_Get h k = (case h (CanonicalMIMEHeaderKey k) of Some (v # _) \<Rightarrow> v | _ \<Rightarrow> [])"

section \<open>Base64\<close>

definition b64_char :: "nat \<Rightarrow> char" where
  "b64_char n =
     (if n < 26 then char_of (65 + n) else if n < 52 then char_of (71 + n)
      else if n < 62 then char_of (n - 4) else if n = 62 then CHR ''+'' else CHR ''/'')"

definition b64_val :: "char \<Rightarrow> nat option" where
  "b64_val c =
     (let n = of_char c in
      if 65 \<le> n \<and> n \<le> 90 then Some (n - 65) else if 97 \<le> n \<and> n \<le> 122 then Some (n - 71)
      else if 48 \<le> n \<and> n \<le> 57 then Some (n + 4)
      else if c = CHR ''+'' then Some 62 else if c = CHR ''/'' then Some 63 else None)"

abbreviation ordc :: "char \<Rightarrow> nat" where "ordc c \<equiv> of_char c"
abbreviation PAD :: char where "PAD \<equiv> CHR ''=''"

fun b64_encode :: "string \<Rightarrow> string" where
  "b64_encode (a # b # c # rest) =
     [b64_char (ordc a div 4), b64_char (ordc a mod 4 * 16 + ordc b div 16),
      b64_char (ordc b mod 16 * 4 + ordc c div 64), b64_char (ordc c mod 64)] @ b64_encode rest"
| "b64_encode [a, b] =
     [b64_char (ordc a div 4), b64_char (ordc a mod 4 * 16 + ordc b div 16), b64_char (ordc b mod 16 * 4), PAD]"
| "b64_encode [a] = [b64_char (ordc a div 4), b64_char (ordc a mod 4 * 16), PAD, PAD]"
| "b64_encode [] = []"

text \<open>Quads of the alphabet, with padding in the last one only.\<close>

fun b64_quads :: "string \<Rightarrow> string option" where
  "b64_quads [] = Some []"
| "b64_quads (a # b # c # d # rest) =
     (case (b64_val a, b64_val b) of
        (Some x, Some y) \<Rightarrow>
          (let c1 = char_of (x * 4 + y div 16) in
           if c = PAD then (if d = PAD \<and> rest = [] then Some [c1] else None)
           else case b64_val c of
                  None \<Rightarrow> None
                | Some z \<Rightarrow>
                    (let c2 = char_of (y mod 16 * 16 + z div 4) in
                     if d = PAD then (if rest = [] then Some [c1, c2] else None)
                     else case b64_val d of
                            None \<Rightarrow> None
                          | Some u \<Rightarrow> map_option (\<lambda>r. c1 # c2 # char_of (z mod 4 * 64 + u) # r) (b64_quads rest)))
      | _ \<Rightarrow> None)"
| "b64_quads _ = None"

text \<open>The decoder skips carriage returns and line feeds.\<close>

definition base64_DecodeString :: "string \<Rightarrow> string option" where
  "base64_DecodeString s = b64_quads (filter (\<lambda>c. c \<noteq> CHR 0x0D \<and> c \<noteq> CHR 0x0A) s)"

section \<open>Basic authentication\<close>

definition ascii_EqualFold :: "string \<Rightarrow> string \<Rightarrow> bool" where
  "ascii_EqualFold s t \<longleftrightarrow> map to_lower s = map to_lower t"

definition strings_Cut :: "string \<Rightarrow> char \<Rightarrow> (string \<times> string) option" where
  "strings_Cut s c = (if c \<in> set s then Some (takeWhile ((\<noteq>) c) s, tl (dropWhile ((\<noteq>) c) s)) else None)"

definition basic_prefix :: string where "basic_prefix = ''Basic ''"

definition parseBasicAuth :: "string \<Rightarrow> (string \<times> string) option" where
  "parseBasicAuth auth =
     (if length auth < length basic_prefix \<or> \<not> ascii_EqualFold (take (length basic_prefix) auth) basic_prefix then None
      else case base64_DecodeString (drop (length basic_prefix) auth) of
             None \<Rightarrow> None
           | Some cs \<Rightarrow> strings_Cut cs CHR '':'')"

definition BasicAuth :: "header \<Rightarrow> (string \<times> string) option" where
  "BasicAuth h =
     (let auth = Header_Get h ''Authorization'' in if auth = [] then None else parseBasicAuth auth)"

text \<open>What a client sends (\<^verbatim>\<open>Request.SetBasicAuth\<close>).\<close>

definition SetBasicAuth :: "header \<Rightarrow> string \<Rightarrow> string \<Rightarrow> header" where
  "SetBasicAuth h user pass = Header_Set h ''Authorization'' (basic_prefix @ b64_encode (user @ [CHR '':''] @ pass))"

section \<open>Decoding inverts encoding\<close>

lemma b64_char_ord:
  "n < 64 \<Longrightarrow> ordc (b64_char n) = (if n < 26 then 65 + n else if n < 52 then 71 + n else if n < 62 then n - 4
     else if n = 62 then 43 else 47)"
  by (auto simp: b64_char_def)

lemma b64_char_no: "n < 64 \<Longrightarrow> b64_char n \<noteq> PAD \<and> b64_char n \<noteq> CHR 0x0D \<and> b64_char n \<noteq> CHR 0x0A"
  using b64_char_ord [of n] by (auto split: if_splits)

lemma b64_val_char: "n < 64 \<Longrightarrow> b64_val (b64_char n) = Some n"
proof (cases "n < 62")
  case True
  then show ?thesis
    using b64_char_ord [of n] by (auto simp: b64_val_def Let_def)
next
  case False
  assume "n < 64"
  with False have "n = 62 \<or> n = 63" by auto
  then show ?thesis by (auto simp: b64_val_def b64_char_def)
qed

lemma ordc_less: "ordc c < 256"
  using nat_of_char_less_256 by simp

lemma six_bits: "ordc a div 4 < 64" "ordc a mod 4 * 16 + ordc b div 16 < 64" "ordc b mod 16 * 4 + ordc c div 64 < 64"
  "ordc c mod 64 < 64" "ordc a mod 4 * 16 < 64" "ordc b mod 16 * 4 < 64"
proof -
  have "ordc a mod 4 < 4" "ordc b mod 16 < 16" "ordc b div 16 < 16" "ordc c div 64 < 4"
    using ordc_less [of b] ordc_less [of c] by linarith+
  then show "ordc a mod 4 * 16 + ordc b div 16 < 64" "ordc b mod 16 * 4 + ordc c div 64 < 64"
    "ordc a mod 4 * 16 < 64" "ordc b mod 16 * 4 < 64" by linarith+
qed (use ordc_less [of a] in linarith, simp)

lemma join_bits:
  "ordc a div 4 * 4 + (ordc a mod 4 * 16 + ordc b div 16) div 16 = ordc a"
  "(ordc a mod 4 * 16 + ordc b div 16) mod 16 * 16 + (ordc b mod 16 * 4 + ordc c div 64) div 4 = ordc b"
  "(ordc b mod 16 * 4 + ordc c div 64) mod 4 * 64 + ordc c mod 64 = ordc c"
  "ordc a div 4 * 4 + ordc a mod 4 * 16 div 16 = ordc a"
  "(ordc a mod 4 * 16 + ordc b div 16) mod 16 * 16 + ordc b mod 16 * 4 div 4 = ordc b"
proof -
  have "ordc b div 16 < 16" "ordc c div 64 < 4"
    using ordc_less [of b] ordc_less [of c] by linarith+
  then show "ordc a div 4 * 4 + (ordc a mod 4 * 16 + ordc b div 16) div 16 = ordc a"
    "(ordc a mod 4 * 16 + ordc b div 16) mod 16 * 16 + (ordc b mod 16 * 4 + ordc c div 64) div 4 = ordc b"
    "(ordc b mod 16 * 4 + ordc c div 64) mod 4 * 64 + ordc c mod 64 = ordc c"
    "(ordc a mod 4 * 16 + ordc b div 16) mod 16 * 16 + ordc b mod 16 * 4 div 4 = ordc b"
    by (simp_all add: div_mult_mod_eq)
qed simp

lemma quad_full:
  assumes "b64_val ca = Some x" "b64_val cb = Some y" "b64_val cc = Some z" "b64_val cd = Some u" "cc \<noteq> PAD" "cd \<noteq> PAD"
  shows "b64_quads (ca # cb # cc # cd # rest) = map_option
    (\<lambda>r. char_of (x * 4 + y div 16) # char_of (y mod 16 * 16 + z div 4) # char_of (z mod 4 * 64 + u) # r) (b64_quads rest)"
  using assms by (simp add: Let_def)

lemma quad_two:
  assumes "b64_val ca = Some x" "b64_val cb = Some y" "b64_val cc = Some z" "cc \<noteq> PAD"
  shows "b64_quads [ca, cb, cc, PAD] = Some [char_of (x * 4 + y div 16), char_of (y mod 16 * 16 + z div 4)]"
  using assms by (simp add: Let_def)

lemma quad_one:
  assumes "b64_val ca = Some x" "b64_val cb = Some y"
  shows "b64_quads [ca, cb, PAD, PAD] = Some [char_of (x * 4 + y div 16)]"
  using assms by (simp add: Let_def)

lemma b64_quads_encode: "b64_quads (b64_encode s) = Some s"
proof (induction s rule: b64_encode.induct)
  case (1 a b c rest)
  have "b64_char (ordc b mod 16 * 4 + ordc c div 64) \<noteq> PAD" "b64_char (ordc c mod 64) \<noteq> PAD"
    using b64_char_no six_bits by blast+
  from quad_full [OF b64_val_char b64_val_char b64_val_char b64_val_char this, OF six_bits(1-4), of a]
  show ?case
    by (simp only: b64_encode.simps append.simps 1 option.map join_bits char_of_char)
next
  case (2 a b)
  have "b64_char (ordc b mod 16 * 4) \<noteq> PAD"
    using b64_char_no six_bits by blast
  from quad_two [OF b64_val_char b64_val_char b64_val_char this, OF six_bits(1,2,6), of a]
  show ?case
    by (simp only: b64_encode.simps join_bits char_of_char)
next
  case (3 a)
  from quad_one [OF b64_val_char b64_val_char, OF six_bits(1,5), of a a]
  show ?case
    by (simp only: b64_encode.simps join_bits char_of_char)
qed simp

lemma b64_encode_clean: "c \<in> set (b64_encode s) \<Longrightarrow> c \<noteq> CHR 0x0D \<and> c \<noteq> CHR 0x0A"
  by (induction s rule: b64_encode.induct) (auto simp: b64_char_no six_bits)

lemma base64_Decode_encode: "base64_DecodeString (b64_encode s) = Some s"
proof -
  have "filter (\<lambda>c. c \<noteq> CHR 0x0D \<and> c \<noteq> CHR 0x0A) (b64_encode s) = b64_encode s"
    using b64_encode_clean by (simp add: filter_id_conv)
  then show ?thesis
    by (simp add: base64_DecodeString_def b64_quads_encode)
qed

lemma Cut_colon: "CHR '':'' \<notin> set user \<Longrightarrow> strings_Cut (user @ [CHR '':''] @ pass) (CHR '':'') = Some (user, pass)"
  by (induction user) (auto simp: strings_Cut_def)

lemma Cut_no_sep: "strings_Cut s c = Some (u, p) \<Longrightarrow> c \<notin> set u"
  by (auto simp: strings_Cut_def dest: set_takeWhileD split: if_splits)

lemma BasicAuth_SetBasicAuth:
  assumes "CHR '':'' \<notin> set user"
  shows "BasicAuth (SetBasicAuth h user pass) = Some (user, pass)"
proof -
  have "Header_Get (SetBasicAuth h user pass) ''Authorization'' = basic_prefix @ b64_encode (user @ [CHR '':''] @ pass)"
    by (simp add: SetBasicAuth_def Header_Set_def Header_Get_def)
  then show ?thesis
    using assms Cut_colon [OF assms, of pass]
    by (simp add: BasicAuth_def parseBasicAuth_def Let_def ascii_EqualFold_def base64_Decode_encode basic_prefix_def)
qed

lemma BasicAuth_user: "BasicAuth h = Some (u, p) \<Longrightarrow> CHR '':'' \<notin> set u"
  by (auto simp: BasicAuth_def parseBasicAuth_def Let_def dest: Cut_no_sep split: if_splits option.splits)

end
