(* ===== verification/Proxy.thy ===== *)
theory Proxy
  imports Router Registry Wrap Http
begin

text \<open>
  The HTTP data path, \<^verbatim>\<open>internal/proxy/proxy.go\<close>: the routing and basic-auth gate \<open>ServeHTTP\<close>, the
  reverse-proxy hooks \<open>rewriteRequest\<close>, \<open>applyResponseHeaders\<close> and \<open>proxyErrorHandler\<close>, the key
  \<open>routeDialKey\<close> under which the transport pools idle connections, and \<open>dialWorkConn\<close>. The Go map of
  extra headers is iterated in an arbitrary order, which is an argument. The copying of bodies
  by \<^verbatim>\<open>httputil.ReverseProxy\<close> and the h2c upgrade are library code that the hooks are handed to.
\<close>

section \<open>The gate\<close>

record request =
  Host :: string
  URL_Path :: string
  req_header :: header

datatype serve_result = Reply nat header string | Proxied RouteConfig

text \<open>\<^verbatim>\<open>http.Error\<close>.\<close>

definition http_Error :: "header \<Rightarrow> string \<Rightarrow> nat \<Rightarrow> serve_result" where
  "http_Error h msg code =
     Reply code
       (Header_Set (Header_Set (h(''Content-Length'' := None)) ''Content-Type'' ''text/plain; charset=utf-8'')
          ''X-Content-Type-Options'' ''nosniff'')
       (msg @ [CHR 0x0A])"

definition ServeHTTP :: "Router \<Rightarrow> request \<Rightarrow> serve_result" where
  "ServeHTTP router r =
     (case Lookup router (Host r) (URL_Path r) of
        None \<Rightarrow> http_Error Map.empty ''not found'' 404
      | Some cfg \<Rightarrow>
          if HTTPUser cfg \<noteq> [] \<and>
             (case BasicAuth (req_header r) of
                None \<Rightarrow> True
              | Some (user, pass) \<Rightarrow> user \<noteq> HTTPUser cfg \<or> pass \<noteq> HTTPPwd cfg)
          then http_Error (Header_Set Map.empty ''WWW-Authenticate'' ''Basic realm=\"Authorization Required\"'')
                 ''Unauthorized'' 401
          else Proxied cfg)"

section \<open>The hooks\<close>

definition routeDialKey :: "RouteConfig \<Rightarrow> string" where
  "routeDialKey cfg = Domain cfg @ ''.'' @ Location cfg @ ''.'' @ ProxyName cfg @ ''.drps''"

record out_request =
  out_Scheme :: string
  out_URL_Host :: string
  out_Host :: string
  out_Header :: header

definition set_all :: "(string \<times> string) list \<Rightarrow> header \<Rightarrow> header" where
  "set_all kvs h = foldl (\<lambda>h (k, v). Header_Set h k v) h kvs"

text \<open>\<open>order\<close> lists the entries of the map in the order of the iteration.\<close>

definition rewriteRequest :: "(string \<times> string) list \<Rightarrow> RouteConfig \<Rightarrow> out_request \<Rightarrow> out_request" where
  "rewriteRequest order cfg r =
     (let r1 = r\<lparr>out_Scheme := ''http'', out_URL_Host := routeDialKey cfg\<rparr>;
          r2 = (if HostHeaderRewrite cfg \<noteq> [] then r1\<lparr>out_Host := HostHeaderRewrite cfg\<rparr> else r1)
      in r2\<lparr>out_Header := set_all order (out_Header r2)\<rparr>)"

definition applyResponseHeaders :: "(string \<times> string) list \<Rightarrow> header \<Rightarrow> header" where
  "applyResponseHeaders order h = set_all order h"

section \<open>Dialling\<close>

text \<open>
  The errors that reach the error handler. A \<^verbatim>\<open>*net.OpError\<close> is a \<^verbatim>\<open>net.Error\<close>; its
  \<^verbatim>\<open>Timeout\<close> asks the error inside, which an error made by \<^verbatim>\<open>fmt.Errorf\<close> or \<^verbatim>\<open>errors.New\<close> does not answer. \<open>'e\<close> is the
  error type of the connection.
\<close>

datatype 'e dial_cause = PoolNotFound string | PoolGet get_error | WrapFailed "'e wrap_error"

datatype 'e proxy_error = DialOpError "'e dial_cause" | TransportError 'e

text \<open>\<open>conn_timeout\<close> tells whether an error of the connection is a \<^verbatim>\<open>net.Error\<close> with \<^verbatim>\<open>Timeout\<close>; the errors of
  \<^verbatim>\<open>NewCryptoWriter\<close> and \<^verbatim>\<open>NewCryptoReader\<close> are wrapped by \<^verbatim>\<open>fmt.Errorf\<close>, which hides it.\<close>

fun is_timeout :: "('e \<Rightarrow> bool) \<Rightarrow> 'e proxy_error \<Rightarrow> bool" where
  "is_timeout conn_timeout (DialOpError (WrapFailed (StartError e))) = conn_timeout e"
| "is_timeout conn_timeout (DialOpError c) = False"
| "is_timeout conn_timeout (TransportError e) = conn_timeout e"

definition proxyErrorHandler :: "('e \<Rightarrow> bool) \<Rightarrow> 'e proxy_error \<Rightarrow> serve_result" where
  "proxyErrorHandler conn_timeout err =
     (if is_timeout conn_timeout err then http_Error Map.empty ''gateway timeout'' 504
      else http_Error Map.empty ''bad gateway'' 502)"

datatype dial_effect = WorkConnClosed conn | DeadlineSet int

text \<open>
  \<open>get p\<close> is what \<^verbatim>\<open>Get\<close> of the pool returns; \<open>write\<close>, \<open>iv\<close> and \<open>state\<close> are the connection's
  \<^verbatim>\<open>Write\<close>, the random initial vector, and the connection's outbound state and inbound bytes.
\<close>

definition dialWorkConn ::
  "Registry \<Rightarrow> (pool_ref \<Rightarrow> get_error + conn) \<Rightarrow> ('w \<Rightarrow> bytes \<Rightarrow> 'w \<times> 'e option) \<Rightarrow> bytes option \<Rightarrow>
   (conn \<Rightarrow> 'w \<times> bytes) \<Rightarrow> bytes \<Rightarrow> int \<Rightarrow> RouteConfig \<Rightarrow>
   dial_effect list \<times> ('e proxy_error + conn \<times> 'w wrappedConn)" where
  "dialWorkConn registry get write iv state aesKey responseTimeout cfg =
     (case Registry_Get registry (RunID cfg) of
        None \<Rightarrow> ([], Inl (DialOpError (PoolNotFound (RunID cfg))))
      | Some p \<Rightarrow>
          (case get p of
             Inl e \<Rightarrow> ([], Inl (DialOpError (PoolGet e)))
           | Inr workConn \<Rightarrow>
               (case snd (Wrap write iv (fst (state workConn)) (snd (state workConn)) aesKey
                       (ProxyName cfg) (UseEncryption cfg) (UseCompression cfg)) of
                  Inl e \<Rightarrow> ([WorkConnClosed workConn], Inl (DialOpError (WrapFailed e)))
                | Inr wrapped \<Rightarrow>
                    (if responseTimeout > 0 then [DeadlineSet responseTimeout] else [], Inr (workConn, wrapped)))))"

section \<open>Lemmas\<close>

lemma set_all_lookup:
  "distinct (map (CanonicalMIMEHeaderKey \<circ> fst) kvs) \<Longrightarrow>
   set_all kvs h key =
     (case find (\<lambda>kv. CanonicalMIMEHeaderKey (fst kv) = key) kvs of Some kv \<Rightarrow> Some [snd kv] | None \<Rightarrow> h key)"
proof (induction kvs arbitrary: h)
  case (Cons kv kvs)
  obtain k v where [simp]: "kv = (k, v)" by (cases kv)
  have "find (\<lambda>kv. CanonicalMIMEHeaderKey (fst kv) = CanonicalMIMEHeaderKey k) kvs = None"
    using Cons.prems by (force simp: find_None_iff)
  with Cons show ?case
    by (auto simp: set_all_def Header_Set_def split: option.splits)
qed (simp add: set_all_def)

lemma set_all_order:
  assumes "mset order = mset kvs" "distinct (map (CanonicalMIMEHeaderKey \<circ> fst) kvs)"
  shows "set_all order h = set_all kvs h"
proof
  fix key
  have "distinct (map (CanonicalMIMEHeaderKey \<circ> fst) order)"
    using assms mset_eq_distinct_map by metis
  moreover have "find (\<lambda>kv. (CanonicalMIMEHeaderKey \<circ> fst) kv = key) order =
      find (\<lambda>kv. (CanonicalMIMEHeaderKey \<circ> fst) kv = key) kvs"
    using assms calculation by (intro find_key_perm)
  ultimately show "set_all order h key = set_all kvs h key"
    using assms by (simp add: set_all_lookup comp_def)
qed

lemma last_dot_split:
  assumes "a @ CHR ''.'' # b = a' @ CHR ''.'' # b'" "CHR ''.'' \<notin> set b" "CHR ''.'' \<notin> set b'"
  shows "a = a' \<and> b = b'"
proof -
  have "rev b @ CHR ''.'' # rev a = rev b' @ CHR ''.'' # rev a'"
    using arg_cong [OF assms(1), of rev] by simp
  moreover have "takeWhile (\<lambda>c. c \<noteq> CHR ''.'') (rev x @ CHR ''.'' # y) = rev x" if "CHR ''.'' \<notin> set x" for x y
    using that by (subst takeWhile_append2) auto
  ultimately have "rev b = rev b'"
    using assms(2,3) by metis
  with assms(1) show ?thesis by simp
qed

section \<open>Properties\<close>

text \<open>
  C21: The gate decides by the routing contract and the credentials alone: a request is proxied with
  a route exactly when that route is the one the table prescribes for its host and path and the
  route asks for no user or the request carries exactly its user and password; it is answered with
  404 exactly when the table has no route, and with 401 and a challenge otherwise.
\<close>

theorem ServeHTTP_gate:
  assumes "router_wf router"
  shows "(ServeHTTP router r = Proxied cfg \<longleftrightarrow>
      table_lookup (routes_of router) (Host r) (URL_Path r) (Some cfg) \<and>
      (HTTPUser cfg = [] \<or> BasicAuth (req_header r) = Some (HTTPUser cfg, HTTPPwd cfg)))
    \<and> ((\<exists>h b. ServeHTTP router r = Reply 404 h b) \<longleftrightarrow> table_lookup (routes_of router) (Host r) (URL_Path r) None)
    \<and> ((\<exists>h b. ServeHTTP router r = Reply 401 h b \<and> Header_Get h ''WWW-Authenticate'' \<noteq> []) \<longleftrightarrow>
        (\<exists>c. table_lookup (routes_of router) (Host r) (URL_Path r) (Some c) \<and> HTTPUser c \<noteq> [] \<and>
             BasicAuth (req_header r) \<noteq> Some (HTTPUser c, HTTPPwd c)))"
proof -
  have keys: "CanonicalMIMEHeaderKey ''WWW-Authenticate'' = ''Www-Authenticate''"
    "CanonicalMIMEHeaderKey ''Content-Type'' = ''Content-Type''"
    "CanonicalMIMEHeaderKey ''X-Content-Type-Options'' = ''X-Content-Type-Options''"
    by (simp_all add: CanonicalMIMEHeaderKey_def token_char_def to_upper_def to_lower_def Let_def char_of_def bit_Suc_0_iff)
  show ?thesis
    unfolding Lookup_table [OF assms]
    by (cases "Lookup router (Host r) (URL_Path r)"; cases "BasicAuth (req_header r)")
      (auto simp: ServeHTTP_def http_Error_def Header_Get_def Header_Set_def keys)
qed

definition guarded_router :: Router where
  "guarded_router = router_run insertion_sort
     [OpAdd ((plain_route ''a.io'' ''/'' ''web'' ''r1'')\<lparr>HTTPUser := ''bob'', HTTPPwd := ''x:y''\<rparr>)]"

lemma guarded_router_wf: "router_wf guarded_router"
  unfolding guarded_router_def by (rule go_sort.router_wf_run)

definition guarded_route :: RouteConfig where
  "guarded_route = (plain_route ''a.io'' ''/'' ''web'' ''r1'')\<lparr>HTTPUser := ''bob'', HTTPPwd := ''x:y''\<rparr>"

lemma guarded_lookup: "Lookup guarded_router ''a.io'' ''/p'' = Some guarded_route"
  by (simp add: guarded_router_def guarded_route_def router_eval)

theorem ServeHTTP_gate_witness:
  "\<exists>h b. ServeHTTP guarded_router \<lparr>Host = ''a.io'', URL_Path = ''/p'', req_header = Map.empty\<rparr> = Reply 401 h b"
proof -
  have "table_lookup (routes_of guarded_router) ''a.io'' ''/p'' (Some guarded_route)"
    using guarded_lookup by (simp add: Lookup_table [OF guarded_router_wf])
  moreover have "HTTPUser guarded_route \<noteq> []" "BasicAuth Map.empty = None"
    by (simp_all add: guarded_route_def BasicAuth_def Header_Get_def)
  ultimately show ?thesis
    using ServeHTTP_gate [OF guarded_router_wf, of "\<lparr>Host = ''a.io'', URL_Path = ''/p'', req_header = Map.empty\<rparr>"]
    by (metis option.distinct(1) request.select_convs)
qed

text \<open>
  A client with the right credentials gets through: a request that carries the route's user and
  password in the standard encoding is proxied, whatever bytes they contain, provided the user
  name has no colon. A route whose user name has a colon can never be reached, since no
  header decodes to such a user.
\<close>

theorem basic_auth_usable:
  assumes "Lookup router (Host r) (URL_Path r) = Some cfg" "HTTPUser cfg \<noteq> []"
  shows "(CHR '':'' \<notin> set (HTTPUser cfg) \<longrightarrow>
       ServeHTTP router (r\<lparr>req_header := SetBasicAuth (req_header r) (HTTPUser cfg) (HTTPPwd cfg)\<rparr>) = Proxied cfg)
    \<and> (CHR '':'' \<in> set (HTTPUser cfg) \<longrightarrow> ServeHTTP router r \<noteq> Proxied cfg)"
  using assms BasicAuth_user by (auto simp: ServeHTTP_def http_Error_def BasicAuth_SetBasicAuth split: option.splits)

theorem basic_auth_usable_witness:
  "ServeHTTP guarded_router \<lparr>Host = ''a.io'', URL_Path = ''/p'', req_header = SetBasicAuth Map.empty ''bob'' ''x:y''\<rparr>
   = Proxied guarded_route"
  using basic_auth_usable [of guarded_router "\<lparr>Host = ''a.io'', URL_Path = ''/p'', req_header = Map.empty\<rparr>" guarded_route]
    guarded_lookup by (simp add: guarded_route_def)

text \<open>
  The rewriting hooks set what the route says: the outbound request goes to the synthetic host of
  the route, its Host header is replaced when the route asks for it, each extra header has
  exactly the route's value and every other header is untouched; and although a Go map is
  iterated in random order, the outcome is the same for every order, as long as no two of the names
  are the same header.
\<close>

theorem rewriteRequest_effect:
  assumes "mset order = mset (Headers cfg)" "distinct (map (CanonicalMIMEHeaderKey \<circ> fst) (Headers cfg))"
  shows "rewriteRequest order cfg r = rewriteRequest (Headers cfg) cfg r
    \<and> out_URL_Host (rewriteRequest order cfg r) = routeDialKey cfg
    \<and> out_Host (rewriteRequest order cfg r) = (if HostHeaderRewrite cfg = [] then out_Host r else HostHeaderRewrite cfg)
    \<and> (\<forall>k v. (k, v) \<in> set (Headers cfg) \<longrightarrow> out_Header (rewriteRequest order cfg r) (CanonicalMIMEHeaderKey k) = Some [v])
    \<and> (\<forall>key. key \<notin> CanonicalMIMEHeaderKey ` fst ` set (Headers cfg) \<longrightarrow>
         out_Header (rewriteRequest order cfg r) key = out_Header r key)
    \<and> applyResponseHeaders order h = applyResponseHeaders (Headers cfg) h"
proof -
  have same: "set_all order = set_all (Headers cfg)"
    using set_all_order [OF assms] by blast
  have at: "set_all (Headers cfg) h (CanonicalMIMEHeaderKey k) = Some [v]" if "(k, v) \<in> set (Headers cfg)" for k v h
  proof -
    have "find (\<lambda>kv. CanonicalMIMEHeaderKey (fst kv) = CanonicalMIMEHeaderKey k) (Headers cfg) = Some (k, v)"
      using find_distinct_key [OF assms(2), of "CanonicalMIMEHeaderKey k" "(k, v)"] that by simp
    then show ?thesis using assms(2) by (simp add: set_all_lookup)
  qed
  have off: "set_all (Headers cfg) h key = h key" if "key \<notin> CanonicalMIMEHeaderKey ` fst ` set (Headers cfg)" for key h
  proof -
    have "find (\<lambda>kv. CanonicalMIMEHeaderKey (fst kv) = key) (Headers cfg) = None"
      using that by (force simp: find_None_iff)
    then show ?thesis using assms(2) by (simp add: set_all_lookup)
  qed
  show ?thesis
    by (simp add: rewriteRequest_def applyResponseHeaders_def same at off Let_def)
qed

theorem rewriteRequest_effect_witness:
  "rewriteRequest [(''X-B'', ''2''), (''x-a'', ''1'')] (guarded_route\<lparr>Headers := [(''x-a'', ''1''), (''X-B'', ''2'')]\<rparr>) \<lparr>out_Scheme = [], out_URL_Host = [], out_Host = ''a.io'', out_Header = Map.empty\<rparr> =
   rewriteRequest [(''x-a'', ''1''), (''X-B'', ''2'')] (guarded_route\<lparr>Headers := [(''x-a'', ''1''), (''X-B'', ''2'')]\<rparr>) \<lparr>out_Scheme = [], out_URL_Host = [], out_Host = ''a.io'', out_Header = Map.empty\<rparr>"
proof -
  have "distinct (map (CanonicalMIMEHeaderKey \<circ> fst) [(''x-a'', ''1''), (''X-B'', ''2'')])"
    by (simp add: CanonicalMIMEHeaderKey_def token_char_def to_upper_def to_lower_def Let_def char_of_def bit_Suc_0_iff)
  then show ?thesis
    using rewriteRequest_effect [of "[(''X-B'', ''2''), (''x-a'', ''1'')]"
        "guarded_route\<lparr>Headers := [(''x-a'', ''1''), (''X-B'', ''2'')]\<rparr>" "\<lparr>out_Scheme = [], out_URL_Host = [], out_Host = ''a.io'', out_Header = Map.empty\<rparr>"]
    by simp
qed

lemma routeDialKey_split:
  assumes "routeDialKey a = routeDialKey b"
    and "CHR ''.'' \<notin> set (Location a)" "CHR ''.'' \<notin> set (ProxyName a)"
    and "CHR ''.'' \<notin> set (Location b)" "CHR ''.'' \<notin> set (ProxyName b)"
  shows "Domain a = Domain b \<and> Location a = Location b \<and> ProxyName a = ProxyName b"
proof -
  have "(Domain a @ ''.'' @ Location a) @ CHR ''.'' # ProxyName a = (Domain b @ ''.'' @ Location b) @ CHR ''.'' # ProxyName b"
    using assms(1) by (simp add: routeDialKey_def)
  from last_dot_split [OF this assms(3,5)]
  have "Domain a @ CHR ''.'' # Location a = Domain b @ CHR ''.'' # Location b" "ProxyName a = ProxyName b"
    by simp_all
  with last_dot_split [OF this(1) assms(2,4)] show ?thesis by simp
qed

lemma Lookup_domain:
  assumes "router_wf router" "Lookup router host path = Some cfg"
  shows "\<exists>d l. routes_of router (d, l) = Some cfg \<and> (d = host \<or> wildcard_of host = Some d)"
proof -
  have "table_lookup (routes_of router) host path (Some cfg)"
    using assms by (simp add: Lookup_table)
  then show ?thesis
    by (auto simp: table_lookup_def table_best_def)
qed

text \<open>
  Routes whose location and proxy name contain no dot have different pool keys unless domain,
  location and proxy name all agree, so that the transport never hands a connection of one
  such route to another.
\<close>

theorem routeDialKey_isolates:
  assumes "routeDialKey a = routeDialKey b"
    and "CHR ''.'' \<notin> set (Location a)" "CHR ''.'' \<notin> set (ProxyName a)"
    and "CHR ''.'' \<notin> set (Location b)" "CHR ''.'' \<notin> set (ProxyName b)"
  shows "Domain a = Domain b \<and> Location a = Location b \<and> ProxyName a = ProxyName b"
  using assms by (rule routeDialKey_split)

theorem routeDialKey_isolates_witness:
  "routeDialKey (plain_route ''a.io'' ''/'' ''web'' ''r1'') \<noteq> routeDialKey (plain_route ''a.io'' ''/x'' ''web'' ''r1'')"
  using routeDialKey_isolates [of "plain_route ''a.io'' ''/'' ''web'' ''r1''" "plain_route ''a.io'' ''/x'' ''web'' ''r1''"]
  by (auto simp: plain_route_def)

text \<open>
  With dots the keys can collide: two routes of one domain with different locations and
  different proxies, both registered in the same router, share one key, so the transport may
  send a request for the one over an idle connection of the other.
\<close>

theorem routeDialKey_collides:
  "\<exists>router a b. router_wf router \<and>
     Lookup router ''a.io'' ''/v1/x'' = Some a \<and> Lookup router ''a.io'' ''/v1.2/x'' = Some b \<and>
     ProxyName a \<noteq> ProxyName b \<and> Location a \<noteq> Location b \<and> RunID a \<noteq> RunID b \<and>
     routeDialKey a = routeDialKey b"
proof -
  let ?a = "plain_route ''a.io'' ''/v1'' ''2.web'' ''r1''" and ?b = "plain_route ''a.io'' ''/v1.2'' ''web'' ''r2''"
  let ?router = "router_run insertion_sort [OpAdd ?a, OpAdd ?b]"
  have "router_wf ?router"
    by (rule go_sort.router_wf_run)
  moreover have "Lookup ?router ''a.io'' ''/v1/x'' = Some ?a" "Lookup ?router ''a.io'' ''/v1.2/x'' = Some ?b"
    by (simp_all add: router_eval)
  moreover have "routeDialKey ?a = routeDialKey ?b"
    by (simp add: routeDialKey_def plain_route_def)
  ultimately show ?thesis
    by (intro exI [of _ ?router] exI [of _ ?a] exI [of _ ?b]) (simp add: plain_route_def)
qed

text \<open>
  The Host header is looked up as it comes, with its port: when no registered domain
  contains a colon, every request whose Host carries a port is answered with 404, also when the host
  without the port is registered. (Clients send the port whenever the server does not listen on
  port 80; the default is 18080.)
\<close>

theorem host_port_not_found:
  assumes "router_wf router" "\<forall>k \<in> dom (routes_of router). CHR '':'' \<notin> set (fst k)"
    and "Host r = name @ '':'' @ port" "CHR ''.'' \<notin> set port"
  shows "\<exists>h b. ServeHTTP router r = Reply 404 h b"
proof -
  have "Lookup router (Host r) (URL_Path r) = None"
  proof (rule ccontr)
    assume "Lookup router (Host r) (URL_Path r) \<noteq> None"
    then obtain d l cfg where d: "routes_of router (d, l) = Some cfg" "d = Host r \<or> wildcard_of (Host r) = Some d"
      using Lookup_domain [OF assms(1)] by blast
    then have "CHR '':'' \<notin> set d"
      using assms(2) by force
    then obtain label parent where "Host r = label @ CHR ''.'' # parent" "CHR ''.'' \<notin> set label" "CHR '':'' \<notin> set parent"
      using d(2) assms(3) by (auto simp: wildcard_of_iff)
    then have "name @ CHR '':'' # port = label @ CHR ''.'' # parent"
      using assms(3) by simp
    then show False
      using \<open>CHR '':'' \<notin> set parent\<close> assms(4) by (auto simp: append_eq_append_conv2 Cons_eq_append_conv append_eq_Cons_conv)
  qed
  then show ?thesis
    by (simp add: ServeHTTP_def http_Error_def)
qed

theorem host_port_not_found_witness:
  "\<exists>h b. ServeHTTP guarded_router \<lparr>Host = ''a.io:18080'', URL_Path = ''/p'', req_header = Map.empty\<rparr> = Reply 404 h b"
proof -
  have "Add Router.New guarded_route = Inr guarded_router"
    by (simp add: guarded_router_def guarded_route_def router_eval)
  from Add_routes [OF router_wf_New this]
  have "dom (routes_of guarded_router) = {(''a.io'', ''/'')}"
    by (simp add: routes_of_New guarded_route_def plain_route_def normalize_location_def)
  then show ?thesis
    using host_port_not_found [OF guarded_router_wf, of "\<lparr>Host = ''a.io:18080'', URL_Path = ''/p'', req_header = Map.empty\<rparr>"
        "''a.io''" "''18080''"] by simp
qed

text \<open>
  Dialling a work connection either fails with nothing held or succeeds: a connection that
  was taken from the pool and could not be wrapped is closed; the response deadline is set
  exactly when one is configured. Of the dial errors only a time-out while sending
  \<^verbatim>\<open>StartWorkConn\<close> is answered with 504; a missing pool, a closed pool, a failed handshake and also a
  time-out of the pool's \<^verbatim>\<open>Get\<close> are answered with 502.
\<close>

theorem dialWorkConn_outcome:
  "case dialWorkConn registry get write iv state aesKey responseTimeout cfg of
     (es, Inr (c, w)) \<Rightarrow>
       (\<exists>p. Registry_Get registry (RunID cfg) = Some p \<and> get p = Inr c) \<and>
       snd (Wrap write iv (fst (state c)) (snd (state c)) aesKey (ProxyName cfg) (UseEncryption cfg) (UseCompression cfg)) = Inr w \<and>
       es = (if responseTimeout > 0 then [DeadlineSet responseTimeout] else [])
   | (es, Inl err) \<Rightarrow>
       es = (case Registry_Get registry (RunID cfg) of
               None \<Rightarrow> []
             | Some p \<Rightarrow> (case get p of Inl e \<Rightarrow> [] | Inr c \<Rightarrow> [WorkConnClosed c])) \<and>
       (\<exists>h b. proxyErrorHandler timeout err = Reply (if \<exists>e. err = DialOpError (WrapFailed (StartError e)) \<and> timeout e then 504 else 502) h b)"
proof -
  have status: "\<exists>h b. proxyErrorHandler timeout (DialOpError c) =
      Reply (if \<exists>e. c = WrapFailed (StartError e) \<and> timeout e then 504 else 502) h b" for c
  proof (cases "\<exists>e. c = WrapFailed (StartError e)")
    case False
    then have "\<not> is_timeout timeout (DialOpError c)"
      by (cases c) (auto split: wrap_error.splits, metis is_timeout.simps(4,5) wrap_error.exhaust)
    with False show ?thesis by (auto simp: proxyErrorHandler_def http_Error_def)
  qed (auto simp: proxyErrorHandler_def http_Error_def)
  show ?thesis
  proof (cases "Registry_Get registry (RunID cfg)")
    case None
    then show ?thesis using status [of "PoolNotFound (RunID cfg)"] by (simp add: dialWorkConn_def)
  next
    case (Some p)
    note pool = Some
    show ?thesis
    proof (cases "get p")
      case (Inl e)
      with pool show ?thesis using status [of "PoolGet e"] by (simp add: dialWorkConn_def)
    next
      case (Inr c)
      show ?thesis
      proof (cases "snd (Wrap write iv (fst (state c)) (snd (state c)) aesKey (ProxyName cfg)
                      (UseEncryption cfg) (UseCompression cfg))")
        case (Inl e)
        with pool \<open>get p = Inr c\<close> show ?thesis
          using status [of "WrapFailed e"] by (simp add: dialWorkConn_def)
      next
        case (Inr w)
        with pool \<open>get p = Inr c\<close> show ?thesis by (simp add: dialWorkConn_def)
      qed
    qed
  qed
qed

end
