(* ===== verification/Metrics.thy ===== *)
theory Metrics
  imports Registry Req_Stats Json Http
begin

text \<open>
  The metrics endpoint, \<^verbatim>\<open>internal/server/metrics.go\<close>: the snapshot of the refill counters (\<^verbatim>\<open>stats.go\<close>, which
  loads them one by one) and the totals of the pools (\<^verbatim>\<open>registry.go\<close>), encoded as JSON with the names of the
  struct tags.
\<close>

section \<open>The handler\<close>

record metrics_Snapshot =
  Timestamp :: string
  snapshot_ReqWorkConn :: ReqWorkConnSnapshot
  snapshot_Pool :: AggregateStats

definition zero_AggregateStats :: AggregateStats where
  "zero_AggregateStats =
     \<lparr>agg_ActivePools = 0, agg_GetHit = 0, agg_GetMiss = 0, agg_GetTimeout = 0, agg_RefillDemand = 0, agg_RefillSent = 0\<rparr>"

definition json_int :: "int \<Rightarrow> json" where
  "json_int i = JNum (strconv_Itoa i)"

definition ReqWorkConnSnapshot_json :: "ReqWorkConnSnapshot \<Rightarrow> json" where
  "ReqWorkConnSnapshot_json s = JObj
     [(''requested'', json_int (int (snap_Requested s))), (''enqueued'', json_int (int (snap_Enqueued s))),
      (''dropped'', json_int (int (snap_Dropped s))), (''sent'', json_int (int (snap_Sent s))),
      (''inflight'', json_int (snap_Inflight s))]"

definition AggregateStats_json :: "AggregateStats \<Rightarrow> json" where
  "AggregateStats_json a = JObj
     [(''active_pools'', json_int (int (agg_ActivePools a))), (''get_hit'', json_int (int (agg_GetHit a))),
      (''get_miss'', json_int (int (agg_GetMiss a))), (''get_timeout'', json_int (int (agg_GetTimeout a))),
      (''refill_demand'', json_int (int (agg_RefillDemand a))), (''refill_sent'', json_int (int (agg_RefillSent a)))]"

definition Snapshot_json :: "metrics_Snapshot \<Rightarrow> json" where
  "Snapshot_json s = JObj
     [(''timestamp'', JStr (Timestamp s)), (''req_work_conn'', ReqWorkConnSnapshot_json (snapshot_ReqWorkConn s)),
      (''pool'', AggregateStats_json (snapshot_Pool s))]"

text \<open>\<open>now\<close> is the clock as text in RFC 3339; the results are the header and the body of the response.\<close>

definition MetricsHandler ::
  "ReqWorkConnStats option \<Rightarrow> (unit \<Rightarrow> AggregateStats) option \<Rightarrow> string \<Rightarrow> header \<Rightarrow> header \<times> string" where
  "MetricsHandler reqStats poolAgg now h =
     (let h1 = Header_Set h ''Content-Type'' ''application/json'';
          s = \<lparr>Timestamp = now, snapshot_ReqWorkConn = Snapshot None, snapshot_Pool = zero_AggregateStats\<rparr>;
          s = (case reqStats of None \<Rightarrow> s | Some st \<Rightarrow> s\<lparr>snapshot_ReqWorkConn := Snapshot (Some st)\<rparr>);
          s = (case poolAgg of None \<Rightarrow> s | Some f \<Rightarrow> s\<lparr>snapshot_Pool := f ()\<rparr>)
      in (h1, encode (Snapshot_json s) @ [CHR 0x0A]))"

section \<open>Reading it back\<close>

text \<open>What a client of the endpoint reads: the member \<open>name\<close> of the object \<open>obj\<close>.\<close>

fun json_member :: "string \<Rightarrow> json \<Rightarrow> json option" where
  "json_member k (JObj kvs) = map_of kvs k"
| "json_member k _ = None"

definition metric :: "string \<Rightarrow> string \<Rightarrow> string \<Rightarrow> json option" where
  "metric body obj name = Option.bind (Option.bind (json_parse body) (json_member obj)) (json_member name)"

lemma json_int_ok [simp]: "json_ok (json_int i)"
  by (auto simp: json_int_def)

lemma Snapshot_json_ok: "utf8_valid (Timestamp s) \<Longrightarrow> json_ok (Snapshot_json s)"
  by (simp add: Snapshot_json_def ReqWorkConnSnapshot_json_def AggregateStats_json_def)

text \<open>\<^verbatim>\<open>Encode\<close> ends the value with a newline, which the parser skips.\<close>

lemma json_parse_encode_newline:
  assumes "json_ok v" shows "json_parse (encode v @ [CHR 0x0A]) = Some v"
proof -
  let ?s = "encode v @ [CHR 0x0A]"
  obtain n where n: "\<forall>f \<ge> n. pval f ?s = Some (v, [CHR 0x0A])"
    using pval_encode [OF assms, of "[CHR 0x0A]"] by (auto simp: parses_def value_end_def)
  have "pval (2 * length ?s + 2) ?s = pval (max n (2 * length ?s + 2)) ?s"
    by (rule pval_stable [symmetric]) auto
  with n show ?thesis
    by (simp add: json_parse_def skip_ws_def is_space_def)
qed

section \<open>Properties\<close>

text \<open>
  C40: The metrics are read back exactly. Whatever the counters are, the response is JSON by its
  header and by its syntax, and a client that parses it finds every refill counter and every pool total under
  its name, with the value that the server has; without counters or without pools it finds zeros.
\<close>

theorem metrics_read_back:
  assumes "utf8_valid now" and "MetricsHandler reqStats poolAgg now h = (h', body)"
  shows "Header_Get h' ''Content-Type'' = ''application/json'' \<and>
    Option.bind (json_parse body) (json_member ''timestamp'') = Some (JStr now) \<and>
    (let st = (case reqStats of None \<Rightarrow> zero_stats | Some st \<Rightarrow> st);
         a = (case poolAgg of None \<Rightarrow> zero_AggregateStats | Some f \<Rightarrow> f ());
         num = (\<lambda>i. Some (JNum (strconv_Itoa i)))
     in map (metric body ''req_work_conn'') [''requested'', ''enqueued'', ''dropped'', ''sent'', ''inflight''] =
          map num [int (requested st), int (enqueued st), int (dropped st), int (sent st), inflight st] \<and>
        map (metric body ''pool'') [''active_pools'', ''get_hit'', ''get_miss'', ''get_timeout'', ''refill_demand'', ''refill_sent''] =
          map (num \<circ> int) [agg_ActivePools a, agg_GetHit a, agg_GetMiss a, agg_GetTimeout a, agg_RefillDemand a, agg_RefillSent a])"
proof -
  obtain s where s: "body = encode (Snapshot_json s) @ [CHR 0x0A]" "Timestamp s = now"
      "snapshot_ReqWorkConn s = Snapshot reqStats"
      "snapshot_Pool s = (case poolAgg of None \<Rightarrow> zero_AggregateStats | Some f \<Rightarrow> f ())"
    using assms(2) by (cases reqStats; cases poolAgg) (auto simp: MetricsHandler_def Let_def)
  have "json_parse body = Some (Snapshot_json s)"
    unfolding s(1) using assms(1) s(2) by (intro json_parse_encode_newline Snapshot_json_ok) simp
  moreover have "Header_Get h' ''Content-Type'' = ''application/json''"
    using assms(2) by (auto simp: MetricsHandler_def Let_def Header_Get_def Header_Set_def)
  ultimately show ?thesis
    using s(2-4)
    by (cases reqStats) (simp_all add: metric_def Snapshot_json_def ReqWorkConnSnapshot_json_def AggregateStats_json_def
        json_int_def Snapshot_def zero_stats_def Let_def)
qed

theorem metrics_read_back_witness:
  "metric (snd (MetricsHandler (Some (zero_stats\<lparr>requested := 3, inflight := -1\<rparr>)) None ''2024-01-01T00:00:00Z'' Map.empty))
     ''req_work_conn'' ''requested'' = Some (JNum ''3'')"
proof -
  have "utf8_valid ''2024-01-01T00:00:00Z''"
    by simp
  moreover obtain h b where b: "MetricsHandler (Some (zero_stats\<lparr>requested := 3, inflight := -1\<rparr>)) None ''2024-01-01T00:00:00Z'' Map.empty = (h, b)"
    by fastforce
  moreover have "strconv_Itoa 3 = ''3''"
    by (simp add: strconv_Itoa_def nat_digits.simps digit_char_def char_of_def bit_Suc_0_iff)
  ultimately show ?thesis
    using metrics_read_back [OF _ b] by (simp add: Let_def)
qed

subsection \<open>Torn snapshots\<close>

text \<open>
  \<^verbatim>\<open>Snapshot\<close> loads the counters one after another, while others count: the five loads see the five states that are
  current at their time. Without interference this is \<open>Snapshot\<close>.
\<close>

definition Snapshot_loads ::
  "ReqWorkConnStats \<Rightarrow> ReqWorkConnStats \<Rightarrow> ReqWorkConnStats \<Rightarrow> ReqWorkConnStats \<Rightarrow> ReqWorkConnStats \<Rightarrow> ReqWorkConnSnapshot" where
  "Snapshot_loads s1 s2 s3 s4 s5 =
     \<lparr>snap_Requested = requested s1, snap_Enqueued = enqueued s2, snap_Dropped = dropped s3, snap_Sent = sent s4,
      snap_Inflight = inflight s5\<rparr>"

lemma Snapshot_loads_same: "Snapshot_loads s s s s s = Snapshot (Some s)"
  by (simp add: Snapshot_loads_def Snapshot_def)

inductive counting :: "ReqWorkConnStats option \<Rightarrow> ReqWorkConnStats option \<Rightarrow> bool" where
  "counting st (count_requested st)" | "counting st (count_enqueued st)" | "counting st (count_dropped st)"
| "counting st (count_sent n st)"

abbreviation counted :: "ReqWorkConnStats \<Rightarrow> ReqWorkConnStats \<Rightarrow> bool" where
  "counted s s' \<equiv> counting\<^sup>*\<^sup>* (Some s) (Some s')"

lemma counted_mono:
  "counting\<^sup>*\<^sup>* st st' \<Longrightarrow> st = Some s \<Longrightarrow> stats_ok (Some s) \<Longrightarrow>
   \<exists>s'. st' = Some s' \<and> requested s \<le> requested s' \<and> enqueued s \<le> enqueued s' \<and> dropped s \<le> dropped s' \<and> sent s \<le> sent s' \<and> stats_ok st'"
proof (induction rule: rtranclp_induct)
  case (step y z)
  then obtain s' where y: "y = Some s'" "requested s \<le> requested s'" "enqueued s \<le> enqueued s'" "dropped s \<le> dropped s'" "sent s \<le> sent s'" "stats_ok y"
    by blast
  from step(2) y show ?case
    by cases (auto simp: count_requested_def count_enqueued_def count_dropped_def count_sent_def stats_ok_def)
qed simp

text \<open>
  A snapshot is not a consistent read. From any counters for which the documented relation holds, what is taken while
  others count can be off: the number in flight differs from what was enqueued less what was sent by exactly the
  signals that were enqueued after the second load, less those sent after the fourth, and both happen, so that a single
  signal counted in between already breaks the relation in the snapshot, although it holds in every state that was passed.
\<close>

theorem snapshot_torn:
  assumes "stats_ok (Some s1)"
  shows "(\<forall>s2 s3 s4 s5. counted s1 s2 \<and> counted s2 s3 \<and> counted s3 s4 \<and> counted s4 s5 \<longrightarrow>
       (let s = Snapshot_loads s1 s2 s3 s4 s5
        in snap_Inflight s - (int (snap_Enqueued s) - int (snap_Sent s)) =
             int (enqueued s5 - enqueued s2) - int (sent s5 - sent s4))) \<and>
    (\<exists>s2 s3 s4 s5. counted s1 s2 \<and> counted s2 s3 \<and> counted s3 s4 \<and> counted s4 s5 \<and>
       (let s = Snapshot_loads s1 s2 s3 s4 s5 in snap_Inflight s \<noteq> int (snap_Enqueued s) - int (snap_Sent s)))"
proof (intro conjI allI impI)
  fix s2 s3 s4 s5
  assume c: "counted s1 s2 \<and> counted s2 s3 \<and> counted s3 s4 \<and> counted s4 s5"
  have 2: "stats_ok (Some s2)"
    using counted_mono [of "Some s1" "Some s2" s1] c assms by simp
  have 3: "stats_ok (Some s3)" "enqueued s2 \<le> enqueued s3"
    using counted_mono [of "Some s2" "Some s3" s2] c 2 by simp_all
  have 4: "stats_ok (Some s4)" "enqueued s3 \<le> enqueued s4"
    using counted_mono [of "Some s3" "Some s4" s3] c 3 by simp_all
  have 5: "stats_ok (Some s5)" "enqueued s4 \<le> enqueued s5" "sent s4 \<le> sent s5"
    using counted_mono [of "Some s4" "Some s5" s4] c 4 by simp_all
  show "let s = Snapshot_loads s1 s2 s3 s4 s5
        in snap_Inflight s - (int (snap_Enqueued s) - int (snap_Sent s)) =
             int (enqueued s5 - enqueued s2) - int (sent s5 - sent s4)"
    using 3(2) 4(2) 5 by (simp add: Let_def Snapshot_loads_def stats_ok_def of_nat_diff)
next
  let ?s = "s1\<lparr>enqueued := enqueued s1 + 1, inflight := inflight s1 + 1\<rparr>"
  have "counting (Some s1) (Some ?s)"
    using counting.intros(2) [of "Some s1"] by (simp add: count_enqueued_def)
  with assms show "\<exists>s2 s3 s4 s5. counted s1 s2 \<and> counted s2 s3 \<and> counted s3 s4 \<and> counted s4 s5 \<and>
       (let s = Snapshot_loads s1 s2 s3 s4 s5 in snap_Inflight s \<noteq> int (snap_Enqueued s) - int (snap_Sent s))"
    by (intro exI [of _ s1] exI [of _ ?s]) (auto simp: Let_def Snapshot_loads_def stats_ok_def)
qed

theorem snapshot_torn_witness:
  "\<exists>s2 s3 s4 s5. counted zero_stats s2 \<and> counted s2 s3 \<and> counted s3 s4 \<and> counted s4 s5 \<and>
     snap_Inflight (Snapshot_loads zero_stats s2 s3 s4 s5) \<noteq>
     int (snap_Enqueued (Snapshot_loads zero_stats s2 s3 s4 s5)) - int (snap_Sent (Snapshot_loads zero_stats s2 s3 s4 s5))"
  using snapshot_torn [of zero_stats] by (simp add: Let_def stats_ok_def zero_stats_def)

end
