(* ===== verification/Server_Stack.thy ===== *)
theory Server_Stack
  imports Session_Props Pool_Owner Proxy Metrics
begin

text \<open>
  How \<^verbatim>\<open>cmd/drps/main.go\<close> puts the server together, with \<^verbatim>\<open>proxy.NewHandler\<close>: \<open>buildServerStack\<close> makes the router,
  the pool registry and the handler, whose callbacks \<open>put_work_conn\<close> and \<open>close_session_pool\<close> (\<open>Pool_Owner\<close>) work on
  the registry; \<open>pool_moves\<close> is what the HTTP side and the refill workers do to the pools. The properties are about the
  composition: sessions, router and pools in one state.
\<close>

section \<open>Wiring\<close>

record proxyHandler =
  aesKey :: bytes
  WorkConnTimeout :: int
  ResponseTimeout :: int

definition workConnTimeout :: int where "workConnTimeout = 10 * 1000000000"

definition NewHandler :: "bytes \<Rightarrow> proxyHandler" where
  "NewHandler key = \<lparr>aesKey = key, WorkConnTimeout = workConnTimeout, ResponseTimeout = 0\<rparr>"

record serverStack =
  handler :: "stack_pools server"
  proxy :: proxyHandler

definition buildServerStack :: "(bytes \<Rightarrow> bytes \<Rightarrow> nat \<Rightarrow> nat \<Rightarrow> bytes) \<Rightarrow> Config \<Rightarrow> serverStack" where
  "buildServerStack pbkdf2 cfg =
     (let key = DeriveKey pbkdf2 (Config.Token cfg);
          h = \<lparr>Handler.Token = Config.Token cfg, ReadTimeout = 0, HeartbeatTimeout = 0, HRouter = Some Router.New,
               ReqStats = Some zero_stats, OnWorkConn = Some (put_work_conn (PoolCapacity cfg)),
               OnControlClose = Some close_session_pool, controls = None,
               owner_state = no_pools, sessions = [], refills = {#}\<rparr>;
          ph = NewHandler key;
          ph = (if ResponseTimeoutSec cfg > 0 then ph\<lparr>ResponseTimeout := int64_mul (ResponseTimeoutSec cfg) 1000000000\<rparr> else ph)
      in \<lparr>handler = h, proxy = ph\<rparr>)"

section \<open>The HTTP mux\<close>

datatype http_handler = MetricsEndpoint | PprofEndpoint string | ProxyEndpoint

definition registerPprofEndpoints :: "(string \<times> http_handler) list" where
  "registerPprofEndpoints =
     [(''/debug/pprof/'', PprofEndpoint ''Index''), (''/debug/pprof/cmdline'', PprofEndpoint ''Cmdline''),
      (''/debug/pprof/profile'', PprofEndpoint ''Profile''), (''/debug/pprof/symbol'', PprofEndpoint ''Symbol''),
      (''/debug/pprof/trace'', PprofEndpoint ''Trace'')]"

definition buildHTTPMux :: "string \<Rightarrow> (string \<times> http_handler) list" where
  "buildHTTPMux DRPS_PPROF =
     [(''/__drps/metrics'', MetricsEndpoint)] @
     (if DRPS_PPROF = ''1'' then registerPprofEndpoints else []) @ [(''/'', ProxyEndpoint)]"

text \<open>
  \<^verbatim>\<open>http.ServeMux\<close> for a cleaned path: a pattern that ends in a slash matches every path it is a prefix of,
  another pattern matches itself; the longest match wins.
\<close>

definition pattern_matches :: "string \<Rightarrow> string \<Rightarrow> bool" where
  "pattern_matches p path \<longleftrightarrow> (if last p = CHR ''/'' then prefix p path else p = path)"

definition longer :: "string \<times> 'h \<Rightarrow> (string \<times> 'h) option \<Rightarrow> (string \<times> 'h) option" where
  "longer x best = (case best of None \<Rightarrow> Some x | Some y \<Rightarrow> if length (fst y) < length (fst x) then Some x else best)"

definition mux_Handler :: "(string \<times> 'h) list \<Rightarrow> string \<Rightarrow> 'h option" where
  "mux_Handler mux path =
     map_option snd (fold longer (filter (\<lambda>x. pattern_matches (fst x) path) mux) None)"

section \<open>Properties of the composition\<close>

definition stack_reachable :: "(bytes \<Rightarrow> bytes \<Rightarrow> nat \<Rightarrow> nat \<Rightarrow> bytes) \<Rightarrow> Config \<Rightarrow> stack_pools server \<Rightarrow> bool" where
  "stack_reachable pbkdf2 cfg srv \<longleftrightarrow> (server_step pbkdf2 pool_moves)\<^sup>*\<^sup>* (handler (buildServerStack pbkdf2 cfg)) srv"

lemma stack_fresh: "fresh (handler (buildServerStack pbkdf2 cfg))"
  by (simp add: buildServerStack_def fresh_def Let_def)

lemma stack_server_reachable: "stack_reachable pbkdf2 cfg srv \<Longrightarrow> server_reachable pbkdf2 pool_moves srv"
  using stack_fresh unfolding stack_reachable_def server_reachable_def by blast

lemma stack_serves: "stack_reachable pbkdf2 cfg srv \<Longrightarrow> stack.serves (PoolCapacity cfg) srv"
  unfolding stack_reachable_def
  by (rule stack.serves_steps [of pbkdf2 "handler (buildServerStack pbkdf2 cfg)"])
    (auto simp: stack.serves_def buildServerStack_def pools_ok_None Let_def)

lemma stack_pools_ok: "stack_reachable pbkdf2 cfg srv \<Longrightarrow> pools_ok (PoolCapacity cfg) (owner_state srv)"
  using stack_serves [of pbkdf2 cfg srv] by (simp add: stack.serves_def)

lemma stack_Token: "stack_reachable pbkdf2 cfg srv \<Longrightarrow> Handler.Token srv = Config.Token cfg"
  unfolding stack_reachable_def
proof (induction rule: rtranclp_induct)
  case base
  then show ?case by (simp add: buildServerStack_def Let_def)
next
  case (step y z)
  then show ?case
    using server_step_evolves [OF step(2)] by (auto simp: keeps_def server_evolves_def opened_def)
qed

text \<open>
  C17: The whole server is well-typed in every state that the program reaches: the handler's state is
  well-formed (open bounded queues, well-formed router, resolvable entries), and in the owner's registry
  every run id has one pool of its own that exists.
\<close>

theorem stack_typed:
  assumes "stack_reachable pbkdf2 cfg srv"
  shows "server_wf srv \<and> registry_wf (registry (owner_state srv)) \<and>
    OnWorkConn srv = Some (put_work_conn (PoolCapacity cfg)) \<and> OnControlClose srv = Some close_session_pool"
  using stack_pools_ok [OF assms] stack_serves [OF assms] server_wf_reachable [OF stack_server_reachable [OF assms]]
  by (simp add: stack.serves_def pools_ok_def)

subsection \<open>Work connections\<close>

text \<open>
  C29: A work connection needs no key. Whatever privilege key and timestamp the message carries, the connection is put
  into the pool of the run id that it names, which is created when there is none, also when no session has that run
  id; once the goroutine has gone through \<^verbatim>\<open>Put\<close> it is at the head of an empty open pool, so the next proxied request of that
  client is sent over it. No session, route or counter changes and nothing is written back.
\<close>

theorem work_conn_needs_no_key:
  assumes "stack_reachable pbkdf2 cfg srv" and "ReadMsg inbound = Inr (NewWorkConn m, rest)"
    and "\<not> crashed (owner_state srv)"
    and "case Registry_Get (registry (owner_state srv)) (newworkconn_RunID m) of
        None \<Rightarrow> True
      | Some p \<Rightarrow> Pool.closed (objs (registry (owner_state srv)) ! p) = False \<and>
          conns (objs (registry (owner_state srv)) ! p) = \<lparr>buf = [], chcap = n, chclosed = False\<rparr> \<and> 0 < n"
  shows "\<exists>o'. HandleConnection pbkdf2 write iv rnd w inbound c srv =
      (w, srv\<lparr>owner_state := o'\<rparr>, [SetReadDeadline (Some (readTimeout srv)), SetReadDeadline None]) \<and>
    o' = put_work_conn (PoolCapacity cfg) (owner_state srv) c
           \<lparr>newworkconn_RunID = newworkconn_RunID m, newworkconn_PrivilegeKey = [], newworkconn_Timestamp = 0\<rparr> \<and>
    (\<exists>o'' p. pool_runs\<^sup>*\<^sup>* o' o'' \<and> Registry_Get (registry o'') (newworkconn_RunID m) = Some p \<and>
       buf (conns (objs (registry o'') ! p)) = [c])"
proof -
  let ?o = "owner_state srv" and ?rid = "newworkconn_RunID m"
  define o' where "o' = put_work_conn (PoolCapacity cfg) ?o c m"
  have ok: "pools_ok (PoolCapacity cfg) ?o"
    by (rule stack_pools_ok [OF assms(1)])
  have "HandleConnection pbkdf2 write iv rnd w inbound c srv =
      (w, srv\<lparr>owner_state := o'\<rparr>, [SetReadDeadline (Some (readTimeout srv)), SetReadDeadline None])"
    using assms(2) stack_serves [OF assms(1)] by (simp add: HandleConnection_def stack.serves_def o'_def)
  moreover have "o' = put_work_conn (PoolCapacity cfg) ?o c
           \<lparr>newworkconn_RunID = ?rid, newworkconn_PrivilegeKey = [], newworkconn_Timestamp = 0\<rparr>"
    by (simp add: o'_def put_work_conn_def)
  moreover have "\<exists>o'' p. pool_runs\<^sup>*\<^sup>* o' o'' \<and> Registry_Get (registry o'') ?rid = Some p \<and> buf (conns (objs (registry o'') ! p)) = [c]"
  proof -
    obtain o2 p where get: "get_pool (PoolCapacity cfg) ?o ?rid = (o2, p)" by fastforce
    have p: "p < length (objs (registry o2))"
      using pools_ok_get_pool [OF ok get] by simp
    have open_pool: "\<not> crashed o2 \<and> Registry_Get (registry o2) ?rid = Some p \<and> \<not> Pool.closed (objs (registry o2) ! p) \<and>
        (\<exists>k > 0. conns (objs (registry o2) ! p) = \<lparr>buf = [], chcap = k, chclosed = False\<rparr>)"
    proof (cases "Registry_Get (registry ?o) ?rid")
      case None
      with get_pool_new [OF None ok] get assms(3) show ?thesis
        by (auto simp: Registry_Get_def crashed_def Pool.New_def make_chan_def defaultCapacity_def Let_def map_add_Some_iff)
    next
      case (Some q)
      with get_pool_old [OF Some ok] get assms(3,4) show ?thesis by auto
    qed
    then obtain ch where ch: "chan_send (conns (objs (registry o2) ! p)) c = Sent ch" "buf ch = [c]"
      by (auto simp: chan_send_def)
    have "o' = o2\<lparr>pool_threads := add_mset (p, PutLock c) (pool_threads o2), work_conns := work_conns o2 @ [(p, c, ?rid)]\<rparr>"
      by (simp add: o'_def put_work_conn_def get)
    with put_runs [of o' p c "pool_threads o2" ch] open_pool p ch show ?thesis
      by (fastforce simp: crashed_def Registry_Get_def)
  qed
  ultimately show ?thesis by blast
qed

definition start :: "stack_pools server" where
  "start = handler (buildServerStack toy_pbkdf2 default_config)"

lemma start_reachable: "stack_reachable toy_pbkdf2 default_config start"
  by (simp add: stack_reachable_def start_def)

lemma start_state:
  "start = \<lparr>Handler.Token = ''test-token'', ReadTimeout = 0, HeartbeatTimeout = 0, HRouter = Some Router.New,
     ReqStats = Some zero_stats, OnWorkConn = Some (put_work_conn 64), OnControlClose = Some close_session_pool,
     controls = None, owner_state = no_pools, sessions = [], refills = {#}\<rparr>"
  by (simp add: start_def buildServerStack_def default_config_def Let_def)

definition keyless :: NewWorkConn where
  "keyless = \<lparr>newworkconn_RunID = ''r1'', newworkconn_PrivilegeKey = ''none'', newworkconn_Timestamp = 0\<rparr>"

lemma keyless_read: "ReadMsg (frame (NewWorkConn keyless)) = Inr (NewWorkConn keyless, [])"
proof -
  have "msg_wf (NewWorkConn keyless)" "length (json_Marshal (NewWorkConn keyless)) \<le> MaxBodySize"
    by (simp_all add: keyless_def msg_wf_def marshal_eval MaxBodySize_def)
  from ReadMsg_frame [OF this, of "[]"] show ?thesis by simp
qed

theorem work_conn_needs_no_key_witness:
  "\<exists>o' o'' p. HandleConnection toy_pbkdf2 conn_write None [] \<lparr>out = [], room = None\<rparr> (frame (NewWorkConn keyless)) 7 start =
     (\<lparr>out = [], room = None\<rparr>, start\<lparr>owner_state := o'\<rparr>, [SetReadDeadline (Some (readTimeout start)), SetReadDeadline None]) \<and>
     pool_runs\<^sup>*\<^sup>* o' o'' \<and> Registry_Get (registry o'') ''r1'' = Some p \<and> buf (conns (objs (registry o'') ! p)) = [7]"
proof -
  have "Registry_Get (registry (owner_state start)) (newworkconn_RunID keyless) = None" "\<not> crashed (owner_state start)"
    by (simp_all add: start_state no_pools_def NewRegistry_def Registry_Get_def crashed_def)
  then show ?thesis
    using work_conn_needs_no_key [OF start_reachable keyless_read, of 1 conn_write None "[]" "\<lparr>out = [], room = None\<rparr>" 7]
    by (auto simp: keyless_def)
qed

theorem stack_typed_witness: "server_wf (log_on start) \<and> length (sessions (log_on start)) = 1"
proof -
  have "stack_reachable toy_pbkdf2 default_config (log_on start)"
    unfolding stack_reachable_def start_def by (intro log_on_steps toy_pbkdf2_length)
  then have "server_wf (log_on start)"
    using stack_typed by blast
  moreover have "length (sessions (log_on start)) = 1"
    by (simp add: log_on_eval start_state)
  ultimately show ?thesis by simp
qed

subsection \<open>Reconnects\<close>

text \<open>A \<^verbatim>\<open>NewProxy\<close> message on an open session with room for the reply.\<close>

definition new_proxy :: "nat \<Rightarrow> NewProxy \<Rightarrow> 'o server \<Rightarrow> 'o server" where
  "new_proxy i m srv =
     (case handleNewProxy (HRouter srv) m (runID (sessions srv ! i)) (registeredProxies (sessions srv ! i)) of
        (rt, reg, resp) \<Rightarrow>
          upd_session i
            (\<lambda>s. (writer_update (sendCh_update (\<lambda>ch. ch\<lparr>buf := buf ch @ [NewProxyResp resp]\<rparr>)) s)
                   \<lparr>registeredProxies := reg, handler_at := ReadControl\<rparr>) (srv\<lparr>HRouter := rt\<rparr>))"

lemma reply_session:
  "(writer_update (sendCh_update (\<lambda>_. (sendCh (writer s))\<lparr>buf := buf (sendCh (writer s)) @ [m]\<rparr>)) (s\<lparr>registeredProxies := reg\<rparr>))
     \<lparr>handler_at := p\<rparr> =
   (writer_update (sendCh_update (\<lambda>ch. ch\<lparr>buf := buf ch @ [m]\<rparr>)) s)\<lparr>registeredProxies := reg, handler_at := p\<rparr>"
  for s :: session
  by (cases s; cases "writer s") simp

lemma new_proxy_steps:
  assumes "i < length (sessions srv)" "handler_at (sessions srv ! i) = ReadControl" "\<not> conn_closed (sessions srv ! i)"
    and "\<not> chclosed (sendCh (writer (sessions srv ! i)))"
    and "length (buf (sendCh (writer (sessions srv ! i)))) < chcap (sendCh (writer (sessions srv ! i)))"
  shows "(server_step pbkdf2 others)\<^sup>*\<^sup>* srv (new_proxy i m srv)"
proof -
  let ?srv1 = "controlLoop i (Inr (NewProxy m)) srv"
  have "server_step pbkdf2 others srv ?srv1"
    using assms(1-3) by (intro server_step.control) simp_all
  moreover have "server_step pbkdf2 others ?srv1 (new_proxy i m srv)"
    using assms
    by (intro server_step.handler [of i])
      (auto simp: controlLoop_def Let_def new_proxy_def handler_exec_def send_reply_def chan_send_def go_to_def upd_session_def reply_session
        split: prod.split)
  ultimately show ?thesis by (meson converse_rtranclp_into_rtranclp r_into_rtranclp)
qed

definition web :: NewProxy where
  "web = http_proxy ''web'' [''a.io''] []"

definition web_router :: Router where
  "web_router = router_after (handleNewProxy (Some Router.New) web ''r1'' {})"

text \<open>The first registration succeeds; a second one fails and deletes the routes of the first; a third one succeeds.\<close>

lemma web_registered:
  "handleNewProxy (Some Router.New) web ''r1'' {} =
     (Some web_router, {''web''}, \<lparr>newproxyresp_ProxyName = ''web'', newproxyresp_RemoteAddr = '':80'', newproxyresp_Error = []\<rparr>)"
  "\<exists>r e. handleNewProxy (Some web_router) web ''r1'' {} =
     (Some r, {}, \<lparr>newproxyresp_ProxyName = ''web'', newproxyresp_RemoteAddr = [], newproxyresp_Error = e\<rparr>) \<and>
     handleNewProxy (Some r) web ''r1'' {} =
     (Some web_router, {''web''}, \<lparr>newproxyresp_ProxyName = ''web'', newproxyresp_RemoteAddr = '':80'', newproxyresp_Error = []\<rparr>)"
  "Lookup (Remove web_router ''web'') ''a.io'' ''/'' = None" "Lookup web_router ''a.io'' ''/'' \<noteq> None"
  by (simp_all add: web_router_def router_after_def web_def handleNewProxy_def route_cfg_def http_proxy_def example_proxy_def router_eval fun_eq_iff)

text \<open>
  The run: the client logs on, registers its proxy, offers a work connection; it logs on again with the same run
  id, registers the proxy twice (the first time it is still taken), and then the first session is cleaned up.
\<close>

definition served :: "stack_pools server" where
  "served = (let srv = new_proxy 0 web (log_on start)
             in srv\<lparr>owner_state := put_work_conn 64 (owner_state srv) 7 keyless\<rparr>)"

definition reconnected :: "stack_pools server" where
  "reconnected = new_proxy 1 web (new_proxy 1 web (log_on served))"

definition old_broken :: "stack_pools server" where
  "old_broken = controlLoop 0 (Inl IO_EOF) (upd_session 0 (\<lambda>s. s\<lparr>conn_closed := True, watcher := False\<rparr>) reconnected)"

definition old_cleaned :: "stack_pools server" where
  "old_cleaned = cleanupControlSession [''web''] 0 old_broken"

lemmas served_eval = served_def log_on_eval new_proxy_def web_registered(1) start_state

lemma served:
  "\<exists>s. sessions served = [s] \<and> handler_at s = ReadControl \<and> \<not> conn_closed s \<and> \<not> cwdone (writer s) \<and>
     watcher s \<and> runID s = ''r1'' \<and> registeredProxies s = {''web''}"
  "HRouter served = Some web_router" "GetEntry (controls served) ''r1'' = Some (entry_of 0)"
  "Registry_Get (registry (owner_state served)) ''r1'' = Some 0"
  by (simp_all add: served_eval put_work_conn_def get_pool_def GetOrCreate_def no_pools_def NewRegistry_def keyless_def Registry_Get_def prod.case_eq_if)

lemma served_steps: "(server_step toy_pbkdf2 others)\<^sup>*\<^sup>* start served"
proof -
  let ?srv1 = "log_on start" and ?srv2 = "new_proxy 0 web (log_on start)"
  have "(server_step toy_pbkdf2 others)\<^sup>*\<^sup>* start ?srv1"
    by (intro log_on_steps toy_pbkdf2_length)
  also have "(server_step toy_pbkdf2 others)\<^sup>*\<^sup>* ?srv1 ?srv2"
    by (rule new_proxy_steps) (simp_all add: log_on_eval start_state controlSendChSize_def)
  also have "server_step toy_pbkdf2 others ?srv2 served"
  proof (rule server_step.accept)
    show "HandleConnection toy_pbkdf2 conn_write None (replicate 8 0) \<lparr>out = [], room = None\<rparr> (frame (NewWorkConn keyless)) 7 ?srv2 =
        (\<lparr>out = [], room = None\<rparr>, served, [SetReadDeadline (Some (readTimeout ?srv2)), SetReadDeadline None])"
      by (simp add: HandleConnection_def keyless_read served_eval readTimeout_def)
  qed simp
  finally show ?thesis .
qed

lemma served_reachable: "stack_reachable toy_pbkdf2 default_config served"
  using served_steps by (simp add: stack_reachable_def start_def)

text \<open>Two sessions of one client: the old one is cancelled, the new one is registered and serving.\<close>

definition two_sessions :: "string set \<Rightarrow> nat \<Rightarrow> stack_pools server \<Rightarrow> bool" where
  "two_sessions names k srv \<longleftrightarrow> (\<exists>s0 s1. sessions srv = [s0, s1] \<and>
     handler_at s0 = ReadControl \<and> cwdone (writer s0) \<and> watcher s0 \<and> runID s0 = ''r1'' \<and> registeredProxies s0 = {''web''} \<and>
     handler_at s1 = ReadControl \<and> \<not> cwdone (writer s1) \<and> \<not> conn_closed s1 \<and> runID s1 = ''r1'' \<and>
     registeredProxies s1 = names \<and> \<not> chclosed (sendCh (writer s1)) \<and> chcap (sendCh (writer s1)) = controlSendChSize \<and>
     length (buf (sendCh (writer s1))) = k) \<and>
   GetEntry (controls srv) ''r1'' = Some (entry_of 1) \<and>
   Registry_Get (registry (owner_state srv)) ''r1'' = Some 0 \<and> OnControlClose srv = Some close_session_pool"

lemma two_sessions_log_on: "two_sessions {} 0 (log_on served)" "HRouter (log_on served) = Some web_router"
proof -
  obtain s where s: "sessions served = [s]" "handler_at s = ReadControl" "watcher s" "runID s = ''r1''"
      "registeredProxies s = {''web''}"
    using served(1) by blast
  have "OnControlClose served = Some close_session_pool"
    by (simp add: served_eval)
  with s served(3,4) show "two_sessions {} 0 (log_on served)"
    by (simp add: two_sessions_def log_on_def register_session_eq start_controlLoop_def new_session_def sendLoop_def
        make_chan_def go_to_def cancel_session_def control_table.lookup_insert Let_def)
  show "HRouter (log_on served) = Some web_router"
    using served(2) by (simp add: log_on_def Let_def)
qed

lemma two_sessionsE:
  assumes "two_sessions names k srv"
  obtains s0 s1 where "sessions srv = [s0, s1]" "handler_at s0 = ReadControl" "cwdone (writer s0)" "watcher s0"
    "runID s0 = ''r1''" "registeredProxies s0 = {''web''}" "handler_at s1 = ReadControl" "\<not> cwdone (writer s1)"
    "\<not> conn_closed s1" "runID s1 = ''r1''" "registeredProxies s1 = names" "\<not> chclosed (sendCh (writer s1))"
    "chcap (sendCh (writer s1)) = controlSendChSize" "length (buf (sendCh (writer s1))) = k"
  using assms unfolding two_sessions_def by blast

lemma two_sessions_new_proxy:
  assumes "two_sessions names k srv" "HRouter srv = rt0" "handleNewProxy rt0 web ''r1'' names = (rt, reg, resp)" "k < 2"
  shows "two_sessions reg (Suc k) (new_proxy 1 web srv)" "HRouter (new_proxy 1 web srv) = rt"
    "(server_step toy_pbkdf2 pool_moves)\<^sup>*\<^sup>* srv (new_proxy 1 web srv)"
proof -
  obtain s0 s1 where s: "sessions srv = [s0, s1]" "handler_at s0 = ReadControl" "cwdone (writer s0)" "watcher s0"
    "runID s0 = ''r1''" "registeredProxies s0 = {''web''}" "handler_at s1 = ReadControl" "\<not> cwdone (writer s1)"
    "\<not> conn_closed s1" "runID s1 = ''r1''" "registeredProxies s1 = names" "\<not> chclosed (sendCh (writer s1))"
    "chcap (sendCh (writer s1)) = controlSendChSize" "length (buf (sendCh (writer s1))) = k"
    using assms(1) by (rule two_sessionsE)
  have rest: "GetEntry (controls srv) ''r1'' = Some (entry_of 1)"
      "Registry_Get (registry (owner_state srv)) ''r1'' = Some 0" "OnControlClose srv = Some close_session_pool"
    using assms(1) by (simp_all add: two_sessions_def)
  have eq: "new_proxy 1 web srv =
      upd_session 1 (\<lambda>s. (writer_update (sendCh_update (\<lambda>ch. ch\<lparr>buf := buf ch @ [NewProxyResp resp]\<rparr>)) s)
        \<lparr>registeredProxies := reg, handler_at := ReadControl\<rparr>) (srv\<lparr>HRouter := rt\<rparr>)"
    using s assms(2,3) by (simp add: new_proxy_def)
  show "two_sessions reg (Suc k) (new_proxy 1 web srv)"
    unfolding two_sessions_def eq using s rest by simp
  show "HRouter (new_proxy 1 web srv) = rt"
    unfolding eq by simp
  show "(server_step toy_pbkdf2 pool_moves)\<^sup>*\<^sup>* srv (new_proxy 1 web srv)"
    using s assms(4) by (intro new_proxy_steps) (simp_all add: controlSendChSize_def)
qed

lemma reconnected:
  "two_sessions {''web''} 2 reconnected" "HRouter reconnected = Some web_router"
  "stack_reachable toy_pbkdf2 default_config reconnected"
proof -
  obtain r e where r: "handleNewProxy (Some web_router) web ''r1'' {} =
      (Some r, {}, \<lparr>newproxyresp_ProxyName = ''web'', newproxyresp_RemoteAddr = [], newproxyresp_Error = e\<rparr>)"
     "handleNewProxy (Some r) web ''r1'' {} =
      (Some web_router, {''web''}, \<lparr>newproxyresp_ProxyName = ''web'', newproxyresp_RemoteAddr = '':80'', newproxyresp_Error = []\<rparr>)"
    using web_registered(2) by blast
  note first = two_sessions_new_proxy [OF two_sessions_log_on r(1) zero_less_numeral]
  note second = two_sessions_new_proxy [OF first(1,2) r(2), simplified]
  show "two_sessions {''web''} 2 reconnected" "HRouter reconnected = Some web_router"
    using second by (simp_all add: reconnected_def numeral_2_eq_2)
  have "(server_step toy_pbkdf2 pool_moves)\<^sup>*\<^sup>* start served"
    using served_reachable by (simp add: stack_reachable_def start_def)
  also have "(server_step toy_pbkdf2 pool_moves)\<^sup>*\<^sup>* served (log_on served)"
    by (intro log_on_steps toy_pbkdf2_length)
  also have "(server_step toy_pbkdf2 pool_moves)\<^sup>*\<^sup>* (log_on served) (new_proxy 1 web (log_on served))"
    by (rule first(3))
  also have "(server_step toy_pbkdf2 pool_moves)\<^sup>*\<^sup>* \<dots> reconnected"
    unfolding reconnected_def using second(3) by simp
  finally show "stack_reachable toy_pbkdf2 default_config reconnected"
    by (simp add: stack_reachable_def start_def)
qed

lemma old_cleaned:
  "stack_reachable toy_pbkdf2 default_config old_cleaned"
  "\<exists>s0. sessions old_cleaned = [s0, sessions reconnected ! 1]" "GetEntry (controls old_cleaned) ''r1'' = None"
  "HRouter old_cleaned = Some (Remove web_router ''web'')"
  "Registry_Get (registry (owner_state old_cleaned)) ''r1'' = None"
proof -
  obtain s0 s1 where s: "sessions reconnected = [s0, s1]" "handler_at s0 = ReadControl" "cwdone (writer s0)" "watcher s0"
     "runID s0 = ''r1''" "registeredProxies s0 = {''web''}"
    using reconnected(1) by (rule two_sessionsE)
  have close: "OnControlClose reconnected = Some close_session_pool"
    using reconnected(1) by (simp add: two_sessions_def)
  let ?w = "upd_session 0 (\<lambda>s. s\<lparr>conn_closed := True, watcher := False\<rparr>) reconnected"
  let ?b = "s0\<lparr>conn_closed := True, watcher := False, heartbeatTimer := map_option stopTimer (heartbeatTimer s0), handler_at := CancelContext\<rparr>"
  have b: "sessions old_broken = [?b, s1]" "HRouter old_broken = Some web_router" "OnControlClose old_broken = Some close_session_pool"
    using s close reconnected(2) by (simp_all add: old_broken_def controlLoop_def)
  have "(server_step toy_pbkdf2 pool_moves)\<^sup>*\<^sup>* start reconnected"
    using reconnected(3) by (simp add: stack_reachable_def start_def)
  also have "server_step toy_pbkdf2 pool_moves reconnected ?w"
    using s by (intro server_step.watch) simp_all
  also have "server_step toy_pbkdf2 pool_moves ?w old_broken"
    unfolding old_broken_def using s by (intro server_step.control) simp_all
  finally have broken: "stack_reachable toy_pbkdf2 default_config old_broken"
    by (simp add: stack_reachable_def start_def)
  have "0 < length (sessions old_broken)" "handler_at (sessions old_broken ! 0) = CancelContext"
      "set [''web''] = registeredProxies (sessions old_broken ! 0)" "distinct [''web'']"
    using b s by simp_all
  note cleaned = cleanup_run [OF this, of toy_pbkdf2 pool_moves, folded old_cleaned_def]
  with broken show "stack_reachable toy_pbkdf2 default_config old_cleaned"
    unfolding stack_reachable_def by (rule rtranclp_trans)
  show "\<exists>s0. sessions old_cleaned = [s0, sessions reconnected ! 1]"
    using b s by (simp add: old_cleaned_def cleanupControlSession_def)
  show "GetEntry (controls old_cleaned) ''r1'' = None"
    using b s by (simp add: old_cleaned_def cleanupControlSession_def)
  show "HRouter old_cleaned = Some (Remove web_router ''web'')"
    using b by (simp add: old_cleaned_def cleanupControlSession_def)
  show "Registry_Get (registry (owner_state old_cleaned)) ''r1'' = None"
    using b s by (simp add: old_cleaned_def cleanupControlSession_def notify_owner_def close_session_pool_def
        Registry_Get_def Registry_Remove_def prod.case_eq_if delete_conv' split: option.split)
qed

text \<open>
  C18: A reconnect can lose the new session. The program reaches a state in which the client's second session is
  serving (in its control loop, not cancelled, connection open, its proxy recorded as registered and acknowledged),
  while the late cleanup of the displaced first session has removed, by run id and by proxy name, the second session's entry,
  its pool and its route: requests for its domain find no route, and refill calls for its run id do nothing.
\<close>

theorem reconnect_loses_session:
  "\<exists>srv. stack_reachable toy_pbkdf2 default_config srv \<and>
     length (sessions srv) = 2 \<and> handler_at (sessions srv ! 1) = ReadControl \<and>
     \<not> cwdone (writer (sessions srv ! 1)) \<and> \<not> conn_closed (sessions srv ! 1) \<and>
     runID (sessions srv ! 1) = ''r1'' \<and> registeredProxies (sessions srv ! 1) = {''web''} \<and>
     GetEntry (controls srv) ''r1'' = None \<and> Registry_Get (registry (owner_state srv)) ''r1'' = None \<and>
     ReqWorkConnFunc srv (RefillLookup ''r1'') = [(srv, None)] \<and>
     (\<exists>r. HRouter srv = Some r \<and> Lookup r ''a.io'' ''/'' = None)"
proof -
  obtain s0 s1 where s1: "sessions reconnected = [s0, s1]" "handler_at s1 = ReadControl" "\<not> cwdone (writer s1)" "\<not> conn_closed s1"
      "runID s1 = ''r1''" "registeredProxies s1 = {''web''}"
    using reconnected(1) by (rule two_sessionsE)
  moreover obtain t where "sessions old_cleaned = [t, s1]"
    using old_cleaned(2) s1(1) by (metis One_nat_def nth_Cons_0 nth_Cons_Suc)
  ultimately show ?thesis
    using old_cleaned(1,3-5) web_registered(3) by (intro exI [of _ old_cleaned]) simp
qed

section \<open>The mux\<close>

text \<open>Unless the profiler is asked for, every path but that of the metrics goes to the proxy.\<close>

lemma buildHTTPMux_routes:
  assumes "path = CHR ''/'' # rest" "v \<noteq> ''1''"
  shows "mux_Handler (buildHTTPMux v) path = Some (if path = ''/__drps/metrics'' then MetricsEndpoint else ProxyEndpoint)"
  using assms by (simp add: buildHTTPMux_def mux_Handler_def pattern_matches_def longer_def)

end
