(* ===== verification/Stack_Props.thy ===== *)
theory Stack_Props
  imports Server_Stack
begin

text \<open>
  What the program as a whole inherits from its pools, and what only the composition shows: every pool of a reachable
  server runs the protocol of \<open>Pool\<close>, so no connection and no refill demand is lost in it; the connections in a pool
  belong to the run id that the pool is registered under; and a work connection that arrives while its session is torn
  down can crash the server.
\<close>

section \<open>Every pool runs its protocol\<close>

lemma stack_pool_reachable:
  assumes "stack_reachable pbkdf2 cfg srv" "\<not> crashed (owner_state srv)" "p < length (objs (registry (owner_state srv)))"
  shows "reachable [PoolCapacity cfg] (pool_view (owner_state srv) p)"
  using stack_pools_ok [OF assms(1)] assms(2,3) by (simp add: pools_ok_def)

lemma stack_pool_conserves:
  assumes "stack_reachable pbkdf2 cfg srv" "\<not> crashed (owner_state srv)" "p < length (objs (registry (owner_state srv)))"
  shows "mset (map fst (of_pool p (work_conns (owner_state srv)))) =
    mset (buf (conns (objs (registry (owner_state srv)) ! p))) + conns_out (of_pool p (pool_effects (owner_state srv))) +
    total held (threads (pool_view (owner_state srv) p))"
  using conn_inv_reachable [OF stack_pool_reachable [OF assms]] by (simp add: conn_inv_def) (simp add: pool_view_def)

text \<open>
  C16: Composition keeps the promises of the pools. In every state of the program that has not crashed, each pool ever made, also one that
  has been removed from the registry while requests still hold it, is in a reachable state of the pool protocol with
  exactly the goroutines and effects that are its own. So of the work connections put into it each is in one place only, in the
  buffer, returned by one \<^verbatim>\<open>Get\<close>, closed or in one goroutine's hands, its buffer is within the configured
  capacity, at most one refill worker serves it, and its refill demand is sent, pending or in a goroutine's hands.
\<close>

theorem stack_pools_run_protocol:
  assumes "stack_reachable pbkdf2 cfg srv" "\<not> crashed (owner_state srv)"
    and "p < length (objs (registry (owner_state srv)))"
  shows "let o1 = owner_state srv; q = objs (registry o1) ! p; own = threads (pool_view o1 p) in
    reachable [PoolCapacity cfg] (pool_view o1 p) \<and> pool (pool_view o1 p) = q \<and>
    mset (map fst (of_pool p (work_conns o1))) =
      mset (buf (conns q)) + conns_out (of_pool p (pool_effects o1)) + total held own \<and>
    length (buf (conns q)) \<le> chcap (conns q) \<and>
    total owner own = (if refilling q then 1 else 0) \<and>
    refillDemand q = pendingRefills q + refillSent q + total owed own"
proof -
  let ?v = "pool_view (owner_state srv) p"
  have r: "reachable [PoolCapacity cfg] ?v"
    using assms by (rule stack_pool_reachable)
  have q: "pool ?v = objs (registry (owner_state srv)) ! p"
    by (simp add: pool_view_def)
  show ?thesis
    using r q stack_pool_conserves [OF assms] bound_inv_reachable [OF r] refill_inv_reachable [OF r] drain_inv_reachable [OF r]
    unfolding Let_def bound_inv_def refill_inv_def worker_inv_def q by blast
qed

section \<open>Whose connections a pool holds\<close>

lemma count_of_pool:
  "(\<And>d rid'. (p, d, rid') \<in> set ws \<Longrightarrow> rid' = rid) \<Longrightarrow>
   count (mset (map fst (of_pool p ws))) c = count_list ws (p, c, rid)"
proof (induction ws)
  case (Cons w ws)
  obtain q d r where w: "w = (q, d, r)" by (cases w)
  have "count (mset (map fst (of_pool p ws))) c = count_list ws (p, c, rid)"
    by (rule Cons.IH) (metis Cons.prems list.set_intros(2))
  moreover have "q = p \<Longrightarrow> r = rid"
    using Cons.prems [of d r] w by simp
  ultimately show ?case
    unfolding w by (cases "q = p"; cases "d = c") simp_all
qed simp

lemma count_returned: "count_list es (p, GetReturns c) \<le> count (conns_out (of_pool p es)) c"
proof (induction es)
  case (Cons e es)
  then show ?case by (cases e; cases "snd e") (auto simp: of_pool_def)
qed simp

lemma count_list_pos: "0 < count_list xs x \<longleftrightarrow> x \<in> set xs"
  by (induction xs) auto

lemma conns_by_pool:
  assumes "stack_reachable pbkdf2 cfg srv" "\<not> crashed (owner_state srv)"
    and p: "p < length (objs (registry (owner_state srv)))"
    and "(p, GetReturns c) \<in> set (pool_effects (owner_state srv))"
  shows "(p, c, requestFns (owner_state srv) ! p) \<in> set (work_conns (owner_state srv))"
proof -
  let ?o = "owner_state srv"
  have named: "named_ok ?o"
    using stack_pools_ok [OF assms(1)] by (simp add: pools_ok_def)
  have "0 < count_list (pool_effects ?o) (p, GetReturns c)"
    using assms(4) by (simp add: count_list_pos)
  also have "\<dots> \<le> count (conns_out (of_pool p (pool_effects ?o))) c"
    by (rule count_returned)
  also have "\<dots> \<le> count (mset (map fst (of_pool p (work_conns ?o)))) c"
    using stack_pool_conserves [OF assms(1,2) p] by simp
  also have "\<dots> = count_list (work_conns ?o) (p, c, requestFns ?o ! p)"
    using named unfolding named_ok_def by (intro count_of_pool) metis
  finally show ?thesis by (simp add: count_list_pos)
qed

text \<open>
  A connection never crosses from one client to another inside the pools. Whatever a \<^verbatim>\<open>Get\<close> of the pool
  that is registered under a run id has returned, or its buffer holds, was put there by a \<^verbatim>\<open>NewWorkConn\<close> message that named this run id, and
  each one was returned at most as often as it was offered; different run ids have different pools.
\<close>

theorem stack_conns_by_run_id:
  assumes "stack_reachable pbkdf2 cfg srv" "\<not> crashed (owner_state srv)"
    and "Registry_Get (registry (owner_state srv)) rid = Some p"
  shows "let o1 = owner_state srv in
    (\<forall>c. (p, GetReturns c) \<in> set (pool_effects o1) \<or> c \<in> set (buf (conns (objs (registry o1) ! p))) \<longrightarrow>
       (p, c, rid) \<in> set (work_conns o1)) \<and>
    (\<forall>c. count_list (pool_effects o1) (p, GetReturns c) \<le> count_list (work_conns o1) (p, c, rid)) \<and>
    (\<forall>rid'. Registry_Get (registry o1) rid' = Some p \<longrightarrow> rid' = rid)"
proof -
  let ?o = "owner_state srv" and ?v = "pool_view (owner_state srv) p"
  have ok: "pools_ok (PoolCapacity cfg) ?o"
    by (rule stack_pools_ok [OF assms(1)])
  then have wf: "registry_wf (registry ?o)" and named: "named_ok ?o"
    by (simp_all add: pools_ok_def)
  have p: "p < length (objs (registry ?o))"
    using registry_ref_less [OF wf] assms(3) by (simp add: Registry_Get_def)
  have name: "requestFns ?o ! p = rid"
    using named assms(3) by (simp add: named_ok_def Registry_Get_def)
  have cons: "mset (map fst (of_pool p (work_conns ?o))) =
      mset (buf (conns (objs (registry ?o) ! p))) + conns_out (of_pool p (pool_effects ?o)) + total held (threads ?v)"
    by (rule stack_pool_conserves [OF assms(1,2) p])
  have offered: "count (mset (map fst (of_pool p (work_conns ?o)))) c = count_list (work_conns ?o) (p, c, rid)" for c
    using named name unfolding named_ok_def by (intro count_of_pool) blast
  have once: "count_list (pool_effects ?o) (p, GetReturns c) + count (mset (buf (conns (objs (registry ?o) ! p)))) c
      \<le> count_list (work_conns ?o) (p, c, rid)" for c
    using count_returned [of "pool_effects ?o" p c] unfolding offered [symmetric] cons by simp
  have "(p, c, rid) \<in> set (work_conns ?o)"
    if "(p, GetReturns c) \<in> set (pool_effects ?o) \<or> c \<in> set (buf (conns (objs (registry ?o) ! p)))" for c
  proof -
    have "0 < count_list (pool_effects ?o) (p, GetReturns c) + count (mset (buf (conns (objs (registry ?o) ! p)))) c"
      using that by (auto simp: count_list_pos)
    with once [of c] have "0 < count_list (work_conns ?o) (p, c, rid)"
      by linarith
    then show ?thesis
      by (simp add: count_list_pos)
  qed
  moreover have "count_list (pool_effects ?o) (p, GetReturns c) \<le> count_list (work_conns ?o) (p, c, rid)" for c
    using once [of c] by simp
  ultimately show ?thesis
    using registry_ref_inj [OF wf] assms(3) by (auto simp: Let_def Registry_Get_def)
qed

section \<open>Runs\<close>

text \<open>The server of \<open>served\<close>, whose client has offered the connection 7, when the goroutine in \<^verbatim>\<open>Put\<close> is through.\<close>

definition offered_pools :: stack_pools where
  "offered_pools = \<lparr>registry = \<lparr>pools = [(''r1'', 0)], objs = [New [64]]\<rparr>, requestFns = [''r1''],
     pool_threads = {#(0, PutLock 7)#}, pool_effects = [], work_conns = [(0, 7, ''r1'')]\<rparr>"

definition parked_pools :: stack_pools where
  "parked_pools = offered_pools\<lparr>registry := \<lparr>pools = [(''r1'', 0)], objs = [(New [64])\<lparr>conns := \<lparr>buf = [7], chcap = 64, chclosed = False\<rparr>\<rparr>]\<rparr>,
     pool_threads := {#}\<rparr>"

lemma served_pools: "owner_state served = offered_pools"
  by (simp add: served_eval put_work_conn_def get_pool_def GetOrCreate_def no_pools_def NewRegistry_def keyless_def
      offered_pools_def Let_def)

definition parked :: "stack_pools server" where
  "parked = served\<lparr>owner_state := parked_pools\<rparr>"

lemma owner_moves_run:
  "others\<^sup>*\<^sup>* o1 o2 \<Longrightarrow> owner_state srv = o1 \<Longrightarrow> (server_step pbkdf2 others)\<^sup>*\<^sup>* srv (srv\<lparr>owner_state := o2\<rparr>)"
proof (induction rule: rtranclp_induct)
  case (step o2 o3)
  have "server_step pbkdf2 others (srv\<lparr>owner_state := o2\<rparr>) (srv\<lparr>owner_state := o3\<rparr>)"
    using server_step.owner_moves [of others "srv\<lparr>owner_state := o2\<rparr>" o3] step(2) by simp
  with step.IH [OF step.prems] show ?case by simp
next
  case base
  then have "srv\<lparr>owner_state := o1\<rparr> = srv" by auto
  then show ?case by simp
qed

lemma owner_runs:
  assumes "pool_runs\<^sup>*\<^sup>* o1 o2" "owner_state srv = o1"
  shows "(server_step pbkdf2 pool_moves)\<^sup>*\<^sup>* srv (srv\<lparr>owner_state := o2\<rparr>)"
proof (rule owner_moves_run [OF _ assms(2)])
  show "pool_moves\<^sup>*\<^sup>* o1 o2"
    using assms(1) by (rule rtranclp_mono [THEN predicate2D, rotated]) (blast intro: pool_moves.run)
qed

lemma parked_owner: "owner_state parked = parked_pools"
  by (simp add: parked_def)

lemma parked_runs: "pool_runs\<^sup>*\<^sup>* offered_pools parked_pools"
    using put_runs [of offered_pools 0 7 "{#}" "\<lparr>buf = [7], chcap = 64, chclosed = False\<rparr>"]
    by (simp add: offered_pools_def parked_pools_def crashed_def Pool.New_def make_chan_def chan_send_def)

lemma parked_reachable: "stack_reachable toy_pbkdf2 default_config parked"
  using owner_runs [OF parked_runs served_pools] served_reachable
  unfolding stack_reachable_def parked_def by (meson rtranclp_trans)

theorem stack_pools_run_protocol_witness:
  "mset (buf (conns (objs (registry (owner_state parked)) ! 0))) = {#7#} \<and>
   reachable [64] (pool_view (owner_state parked) 0)"
proof -
  have "\<not> crashed (owner_state parked)" "0 < length (objs (registry (owner_state parked)))"
    by (simp_all add: parked_def parked_pools_def offered_pools_def crashed_def)
  from stack_pools_run_protocol [OF parked_reachable this]
  have "reachable [PoolCapacity default_config] (pool_view (owner_state parked) 0)"
    unfolding Let_def by (rule conjunct1)
  then show ?thesis
    unfolding parked_owner by (simp add: default_config_def parked_pools_def)
qed

theorem stack_conns_by_run_id_witness:
  "(0, 7, ''r1'') \<in> set (work_conns (owner_state parked))"
proof -
  have "\<not> crashed (owner_state parked)" "Registry_Get (registry (owner_state parked)) ''r1'' = Some 0"
      "7 \<in> set (buf (conns (objs (registry (owner_state parked)) ! 0)))"
    by (simp_all add: parked_def parked_pools_def offered_pools_def crashed_def Registry_Get_def)
  with stack_conns_by_run_id [OF parked_reachable this(1,2)] show ?thesis
    unfolding Let_def by blast
qed

section \<open>A crash\<close>

text \<open>
  The session's connection breaks while the connection 7 is in \<^verbatim>\<open>Put\<close>, between the check and the send: the cleanup closes the
  pool, and the send panics.
\<close>

definition sending_pools :: stack_pools where
  "sending_pools = offered_pools\<lparr>pool_threads := {#(0, PutSend 7)#}\<rparr>"

definition torn_down :: "stack_pools server" where
  "torn_down = cleanupControlSession [''web''] 0 (controlLoop 0 (Inl IO_EOF) (served\<lparr>owner_state := sending_pools\<rparr>))"

text \<open>
  C28: A work connection that races with the end of its session takes the whole process down. \<^verbatim>\<open>Put\<close> checks that the pool is open in one
  critical section and sends in another action, and the cleanup of a session that is ending closes the pool's channel in
  between, after which the send panics in a goroutine that nothing recovers. The program reaches this state from
  its start by messages of one client only: a login, a registration, one work connection (for which no key is needed) and a broken connection.
\<close>

theorem stack_put_panics:
  "\<exists>srv. stack_reachable toy_pbkdf2 default_config srv \<and> (0, SendPanic 7) \<in> set (pool_effects (owner_state srv)) \<and>
     crashed (owner_state srv) \<and> map fst (work_conns (owner_state srv)) = [0]"
proof -
  let ?step = "server_step toy_pbkdf2 pool_moves" and ?s = "served\<lparr>owner_state := sending_pools\<rparr>"
  have "pool_runs offered_pools (pool_acts 0 {#} (New [64], [], [PutSend 7]) offered_pools)"
    by (intro pool_runs.intros [of _ 0 "PutLock 7"])
      (simp_all add: offered_pools_def crashed_def exec_def Pool.New_def)
  then have "pool_runs\<^sup>*\<^sup>* offered_pools sending_pools"
    by (simp add: pool_acts_def sending_pools_def offered_pools_def r_into_rtranclp)
  from owner_runs [OF this served_pools] have "stack_reachable toy_pbkdf2 default_config ?s"
    using served_reachable unfolding stack_reachable_def by (meson rtranclp_trans)
  moreover obtain s where s: "sessions served = [s]" "handler_at s = ReadControl" "registeredProxies s = {''web''}" "runID s = ''r1''"
    using served(1) by blast
  have "?step ?s (controlLoop 0 (Inl IO_EOF) ?s)"
    using s by (intro server_step.control) simp_all
  moreover have "?step\<^sup>*\<^sup>* (controlLoop 0 (Inl IO_EOF) ?s) torn_down"
    unfolding torn_down_def using s by (intro cleanup_run) (simp_all add: controlLoop_def)
  ultimately have r: "stack_reachable toy_pbkdf2 default_config torn_down"
    unfolding stack_reachable_def by (meson rtranclp.rtrancl_into_rtrancl rtranclp_trans)
  have "OnControlClose served = Some close_session_pool"
    by (simp add: served_eval)
  then have o: "owner_state torn_down = close_session_pool sending_pools ''r1''"
    using s by (simp add: torn_down_def cleanupControlSession_def notify_owner_def controlLoop_def)
  let ?p = "fst (Close (New [64]))"
  have o1: "owner_state torn_down = offered_pools\<lparr>registry := \<lparr>pools = [], objs = [?p]\<rparr>, pool_threads := {#(0, PutSend 7)#}\<rparr>"
    using close_session_pool_eq [of sending_pools "''r1''" 0]
    by (simp add: o sending_pools_def offered_pools_def Registry_Get_def Close_def Pool.New_def make_chan_def)
  have "pool_runs (owner_state torn_down) (pool_acts 0 {#} (?p, [SendPanic 7], []) (owner_state torn_down))"
    by (intro pool_runs.intros [of _ 0 "PutSend 7"])
      (simp_all add: o1 offered_pools_def crashed_def exec_def Close_def Pool.New_def make_chan_def chan_send_def chan_close_def)
  from owner_runs [OF r_into_rtranclp [of pool_runs, OF this] refl] r
  have "stack_reachable toy_pbkdf2 default_config
      (torn_down\<lparr>owner_state := pool_acts 0 {#} (?p, [SendPanic 7], []) (owner_state torn_down)\<rparr>)"
    unfolding stack_reachable_def by (meson rtranclp_trans)
  then show ?thesis
    by (intro exI conjI) (assumption, simp_all add: pool_acts_def o1 offered_pools_def crashed_def)
qed

end
