(* ===== verification/Transport.thy ===== *)
theory Transport
  imports Proxy
begin

text \<open>
  The outgoing half of \<^verbatim>\<open>internal/proxy/proxy.go\<close>: the reverse proxy and the transport that \<^verbatim>\<open>NewHandler\<close> builds, the route
  carried in the request's context, the pool of copy buffers, and what the code relies on of \<^verbatim>\<open>http.Transport\<close>: a connection
  that is idle after a request is kept under the key of the connect method (scheme and address of the outbound URL)
  and serves the next request with that key; otherwise the transport dials, with the context of the request.
\<close>

section \<open>Construction\<close>

definition reverseProxyBufSize :: nat where "reverseProxyBufSize = 32 * 1024"
definition transportResponseHeaderTimeout :: int where "transportResponseHeaderTimeout = 60 * 1000000000"
definition transportIdleConnTimeout :: int where "transportIdleConnTimeout = 60 * 1000000000"
definition transportMaxIdleConnsPerHost :: nat where "transportMaxIdleConnsPerHost = 5"

record http_Transport =
  ResponseHeaderTimeout :: int
  IdleConnTimeout :: int
  MaxIdleConnsPerHost :: nat

text \<open>The dialer, \<^verbatim>\<open>DialContext\<close>, ignores the network and the address and calls \<open>dialWorkConn\<close>.\<close>

definition newTransport :: http_Transport where
  "newTransport = \<lparr>ResponseHeaderTimeout = transportResponseHeaderTimeout, IdleConnTimeout = transportIdleConnTimeout,
     MaxIdleConnsPerHost = transportMaxIdleConnsPerHost\<rparr>"

text \<open>\<^verbatim>\<open>sync.Pool\<close> gives any buffer that was put, or a new one; the contents of a recycled buffer are left over.\<close>

record bufferPool =
  bp_size :: nat
  bp_free :: "bytes multiset"

definition newBufferPool :: "nat \<Rightarrow> bufferPool" where
  "newBufferPool n = \<lparr>bp_size = n, bp_free = {#}\<rparr>"

definition bufferPool_Get :: "bufferPool \<Rightarrow> bufferPool \<times> bytes \<Rightarrow> bool" where
  "bufferPool_Get bp r \<longleftrightarrow> r = (bp, replicate (bp_size bp) 0) \<or>
     (\<exists>b \<in># bp_free bp. r = (bp\<lparr>bp_free := bp_free bp - {#b#}\<rparr>, b))"

definition bufferPool_Put :: "bufferPool \<Rightarrow> bytes \<Rightarrow> bufferPool" where
  "bufferPool_Put bp b = bp\<lparr>bp_free := add_mset b (bp_free bp)\<rparr>"

record ReverseProxy =
  rp_Transport :: http_Transport
  rp_BufferPool :: bufferPool

text \<open>The hooks \<^verbatim>\<open>Rewrite\<close>, \<^verbatim>\<open>ModifyResponse\<close> and \<^verbatim>\<open>ErrorHandler\<close> are \<open>rewriteRequest\<close>, \<open>applyResponseHeaders\<close> and \<open>proxyErrorHandler\<close>.\<close>

definition newReverseProxy :: ReverseProxy where
  "newReverseProxy = \<lparr>rp_Transport = newTransport, rp_BufferPool = newBufferPool reverseProxyBufSize\<rparr>"

lemma bufferPool_Get_length:
  assumes "\<forall>b \<in># bp_free bp. length b = bp_size bp" "bufferPool_Get bp (bp', b)"
  shows "length b = bp_size bp \<and> bp_size bp' = bp_size bp \<and> (\<forall>b \<in># bp_free bp'. length b = bp_size bp') \<and>
    (\<forall>b' \<in># bp_free (bufferPool_Put bp' b). length b' = bp_size bp')"
  using assms unfolding bufferPool_Get_def bufferPool_Put_def by (elim disjE bexE) (auto dest!: in_diffD)

section \<open>The route in the context\<close>

datatype panic = PanicMsg string

text \<open>A context, as far as the key \<^verbatim>\<open>routeCtxKey{}\<close> goes.\<close>

type_synonym route_ctx = "RouteConfig option"

definition routeFromCtx :: "route_ctx \<Rightarrow> panic + RouteConfig" where
  "routeFromCtx ctx =
     (case ctx of
        Some cfg \<Rightarrow> Inr cfg
      | None \<Rightarrow> Inl (PanicMsg ''drps internal error: proxy request missing route config in context''))"

text \<open>The context that \<^verbatim>\<open>ServeHTTP\<close> gives to the reverse proxy.\<close>

definition proxied_ctx :: "serve_result \<Rightarrow> route_ctx" where
  "proxied_ctx res = (case res of Proxied cfg \<Rightarrow> Some cfg | Reply code h b \<Rightarrow> None)"

lemma routeFromCtx_proxied: "ServeHTTP router r = Proxied cfg \<Longrightarrow> routeFromCtx (proxied_ctx (ServeHTTP router r)) = Inr cfg"
  by (simp add: routeFromCtx_def proxied_ctx_def)

section \<open>Keys\<close>

text \<open>
  The address of the connect method: \<^verbatim>\<open>canonicalAddr\<close> of the URL. A host of ASCII characters is taken as it is; \<open>idna\<close> is what
  \<^verbatim>\<open>idna.Lookup.ToASCII\<close> makes of another one. The keys end in \<^verbatim>\<open>.drps\<close>, so that \<^verbatim>\<open>URL.Port\<close> is empty and port 80 is
  added; \<^verbatim>\<open>net.JoinHostPort\<close> puts brackets around a host that contains a colon.
\<close>

definition ascii :: "string \<Rightarrow> bool" where
  "ascii s \<longleftrightarrow> (\<forall>c \<in> set s. (of_char c :: nat) < 128)"

definition canonicalAddr :: "(string \<Rightarrow> string option) \<Rightarrow> string \<Rightarrow> string" where
  "canonicalAddr idna host =
     (let h = (if ascii host then host else case idna host of Some v \<Rightarrow> v | None \<Rightarrow> host)
      in if CHR '':'' \<in> set h then ''['' @ h @ '']:80'' else h @ '':80'')"

definition connectKey :: "(string \<Rightarrow> string option) \<Rightarrow> out_request \<Rightarrow> string \<times> string" where
  "connectKey idna r = (out_Scheme r, canonicalAddr idna (out_URL_Host r))"

definition routeKey :: "(string \<Rightarrow> string option) \<Rightarrow> RouteConfig \<Rightarrow> string \<times> string" where
  "routeKey idna cfg = (''http'', canonicalAddr idna (routeDialKey cfg))"

lemma connectKey_rewrite: "connectKey idna (rewriteRequest order cfg r) = routeKey idna cfg"
  by (simp add: connectKey_def routeKey_def rewriteRequest_def Let_def)

lemma canonicalAddr_inj:
  assumes "ascii a" "ascii b" "canonicalAddr idna a = canonicalAddr idna b" shows "a = b"
proof (cases "CHR '':'' \<in> set a")
  case True
  show ?thesis
  proof (cases "CHR '':'' \<in> set b")
    case False
    with True assms have "CHR ''['' # a @ '']:80'' = b @ '':80''"
      by (simp add: canonicalAddr_def)
    then have "rev (CHR ''['' # a @ '']:80'') = rev (b @ '':80'')" by (rule arg_cong)
    then have "CHR '']'' # rev a @ ''['' = rev b"
      by simp
    then have "set b = set (CHR '']'' # rev a @ ''['')" by (metis set_rev)
    with True False show ?thesis by simp
  qed (use True assms in \<open>simp add: canonicalAddr_def\<close>)
next
  case False
  show ?thesis
  proof (cases "CHR '':'' \<in> set b")
    case True
    with False assms have "CHR ''['' # b @ '']:80'' = a @ '':80''"
      by (simp add: canonicalAddr_def)
    then have "rev (CHR ''['' # b @ '']:80'') = rev (a @ '':80'')" by (rule arg_cong)
    then have "CHR '']'' # rev b @ ''['' = rev a"
      by simp
    then have "set a = set (CHR '']'' # rev b @ ''['')" by (metis set_rev)
    with True False show ?thesis by simp
  qed (use False assms in \<open>simp add: canonicalAddr_def\<close>)
qed

text \<open>Names with which the key is unambiguous: ASCII, and no dot in the location or the proxy name.\<close>

definition plain_names :: "RouteConfig \<Rightarrow> bool" where
  "plain_names cfg \<longleftrightarrow> ascii (routeDialKey cfg) \<and> CHR ''.'' \<notin> set (Location cfg) \<and> CHR ''.'' \<notin> set (ProxyName cfg)"

lemma routeKey_plain:
  assumes "routeKey idna a = routeKey idna b" "plain_names a" "plain_names b"
  shows "Domain a = Domain b \<and> Location a = Location b \<and> ProxyName a = ProxyName b"
proof -
  have "routeDialKey a = routeDialKey b"
    using assms canonicalAddr_inj [of "routeDialKey a" "routeDialKey b" idna] by (simp add: routeKey_def plain_names_def)
  with assms show ?thesis
    using routeDialKey_split unfolding plain_names_def by blast
qed

section \<open>Idle connections\<close>

text \<open>A connection of the transport: the work connection, and the route in whose context it was dialled.\<close>

record persistConn =
  pc_conn :: conn
  pc_route :: RouteConfig

text \<open>
  The idle connections, most recently used first. A connection is kept under the key it was dialled for; \<open>idle_under\<close> is the list
  of one key. \<^verbatim>\<open>queueForIdleConn\<close> takes the most recent one, \<^verbatim>\<open>tryPutIdleConn\<close> closes a connection that is one too many.
\<close>

definition pc_key :: "(string \<Rightarrow> string option) \<Rightarrow> persistConn \<Rightarrow> string \<times> string" where
  "pc_key idna pc = routeKey idna (pc_route pc)"

definition idle_under :: "(string \<Rightarrow> string option) \<Rightarrow> string \<times> string \<Rightarrow> persistConn list \<Rightarrow> persistConn list" where
  "idle_under idna key idle = filter (\<lambda>pc. pc_key idna pc = key) idle"

definition queueForIdleConn ::
  "(string \<Rightarrow> string option) \<Rightarrow> string \<times> string \<Rightarrow> persistConn list \<Rightarrow> (persistConn \<times> persistConn list) option" where
  "queueForIdleConn idna key idle =
     (case idle_under idna key idle of [] \<Rightarrow> None | pc # rest \<Rightarrow> Some (pc, remove1 pc idle))"

definition tryPutIdleConn ::
  "http_Transport \<Rightarrow> (string \<Rightarrow> string option) \<Rightarrow> persistConn \<Rightarrow> persistConn list \<Rightarrow> persistConn list" where
  "tryPutIdleConn t idna pc idle =
     (if length (idle_under idna (pc_key idna pc) idle) < MaxIdleConnsPerHost t then pc # idle else idle)"

lemma queueForIdleConn_Some:
  assumes "queueForIdleConn idna key idle = Some (pc, idle')"
  shows "pc \<in> set idle \<and> pc_key idna pc = key \<and> mset idle = add_mset pc (mset idle')"
proof -
  obtain rest where rest: "idle_under idna key idle = pc # rest" "idle' = remove1 pc idle"
    using assms by (auto simp: queueForIdleConn_def split: list.splits)
  then have "pc \<in> set (idle_under idna key idle)" by simp
  with rest(2) show ?thesis
    by (auto simp: idle_under_def)
qed

definition idle_bounded :: "http_Transport \<Rightarrow> (string \<Rightarrow> string option) \<Rightarrow> persistConn list \<Rightarrow> bool" where
  "idle_bounded t idna idle \<longleftrightarrow> (\<forall>key. length (idle_under idna key idle) \<le> MaxIdleConnsPerHost t)"

lemma idle_bounded_put: "idle_bounded t idna idle \<Longrightarrow> idle_bounded t idna (tryPutIdleConn t idna pc idle)"
  by (auto simp: idle_bounded_def tryPutIdleConn_def idle_under_def Suc_le_eq)

lemma tryPutIdleConn_set: "set (tryPutIdleConn t idna pc idle) \<subseteq> insert pc (set idle)"
  by (auto simp: tryPutIdleConn_def)

lemma idle_bounded_sub:
  assumes "idle_bounded t idna idle" "mset idle' \<subseteq># mset idle" shows "idle_bounded t idna idle'"
proof -
  have "length (idle_under idna key idle') \<le> length (idle_under idna key idle)" for key
    using size_mset_mono [OF multiset_filter_mono [OF assms(2), of "\<lambda>pc. pc_key idna pc = key"]]
    by (simp add: idle_under_def flip: mset_filter)
  with assms(1) show ?thesis
    unfolding idle_bounded_def by (meson le_trans)
qed

end
