(* ===== verification/Data_Path.thy ===== *)
theory Data_Path
  imports Stack_Props Transport
begin

text \<open>
  The HTTP side on top of the server (\<^verbatim>\<open>internal/proxy/proxy.go\<close> on the state that \<^verbatim>\<open>cmd/drps/main.go\<close> builds): requests pass
  the gate, wait for a connection of the transport, which is an idle one of the same key or a new one that \<open>dialWorkConn\<close> takes from the
  pool of the route's run id, use it and give it back. \<open>system_step\<close> interleaves any number of requests and dials with every
  step of the server. Whether the wrapping of a connection succeeds, and when a request, a connection or its peer ends, is up to the environment.
\<close>

section \<open>State\<close>

text \<open>\<open>Want\<close>: past the gate; \<open>Waiting\<close>: its dial is under way; \<open>Has\<close>: sending the request over the connection.\<close>

datatype http_req = Want RouteConfig | Waiting RouteConfig | Has RouteConfig persistConn

text \<open>
  A dial runs with the route of its request: it looks up the pool, then waits in \<^verbatim>\<open>Get\<close>. \<open>taken\<close> is what the dials have
  received of the results of \<^verbatim>\<open>Get\<close>, which appear in the history of the pools.
\<close>

record system =
  sys_srv :: "stack_pools server"
  idle_conns :: "persistConn list"
  reqs :: "http_req multiset"
  dials :: "(RouteConfig \<times> pool_ref option) multiset"
  taken :: "(pool_ref \<times> effect) multiset"

definition init_system :: "(bytes \<Rightarrow> bytes \<Rightarrow> nat \<Rightarrow> nat \<Rightarrow> bytes) \<Rightarrow> Config \<Rightarrow> system" where
  "init_system pbkdf2 cfg =
     \<lparr>sys_srv = handler (buildServerStack pbkdf2 cfg), idle_conns = [], reqs = {#}, dials = {#}, taken = {#}\<rparr>"

abbreviation sys_pools :: "system \<Rightarrow> stack_pools" where
  "sys_pools s \<equiv> owner_state (sys_srv s)"

definition get_result :: "system \<Rightarrow> pool_ref \<times> effect \<Rightarrow> bool" where
  "get_result s e \<longleftrightarrow> count (taken s) e < count_list (pool_effects (sys_pools s)) e"

text \<open>A connection that becomes free goes to a request that waits for its key, if there is one, and is idle otherwise.\<close>

inductive placed :: "(string \<Rightarrow> string option) \<Rightarrow> persistConn \<Rightarrow> system \<Rightarrow> system \<Rightarrow> bool" for idna where
  to_waiting: "reqs s = add_mset (Waiting cfg) M \<Longrightarrow> routeKey idna cfg = pc_key idna pc \<Longrightarrow>
     placed idna pc s (s\<lparr>reqs := add_mset (Has cfg pc) M\<rparr>)"
| to_idle: "\<forall>cfg. Waiting cfg \<in># reqs s \<longrightarrow> routeKey idna cfg \<noteq> pc_key idna pc \<Longrightarrow>
     placed idna pc s (s\<lparr>idle_conns := tryPutIdleConn newTransport idna pc (idle_conns s)\<rparr>)"

text \<open>
  A dial goes on when its request has been served by another connection or was given up: then there are more dials for a route than
  requests that wait for one. A dial that fails ends the request that it was started for, if that still waits.
\<close>

definition orphan_dial :: "RouteConfig \<Rightarrow> system \<Rightarrow> bool" where
  "orphan_dial cfg s \<longleftrightarrow> count (reqs s) (Waiting cfg) < size (filter_mset (\<lambda>d. fst d = cfg) (dials s))"

definition dial_failed :: "RouteConfig \<Rightarrow> system \<Rightarrow> http_req multiset \<Rightarrow> bool" where
  "dial_failed cfg s M \<longleftrightarrow> reqs s = add_mset (Waiting cfg) M \<or> orphan_dial cfg s \<and> M = reqs s"

lemma dial_failed_sub: "dial_failed cfg s M \<Longrightarrow> M \<subseteq># reqs s"
  by (auto simp: dial_failed_def)

inductive system_step ::
  "(bytes \<Rightarrow> bytes \<Rightarrow> nat \<Rightarrow> nat \<Rightarrow> bytes) \<Rightarrow> (string \<Rightarrow> string option) \<Rightarrow> system \<Rightarrow> system \<Rightarrow> bool" for pbkdf2 idna where
  server: "server_step pbkdf2 pool_runs (sys_srv s) srv' \<Longrightarrow> system_step pbkdf2 idna s (s\<lparr>sys_srv := srv'\<rparr>)"
| arrive: "HRouter (sys_srv s) = Some rt \<Longrightarrow> ServeHTTP rt r = Proxied cfg \<Longrightarrow>
     system_step pbkdf2 idna s (s\<lparr>reqs := add_mset (Want cfg) (reqs s)\<rparr>)"
| reuse: "reqs s = add_mset (Want cfg) M \<Longrightarrow> queueForIdleConn idna (routeKey idna cfg) (idle_conns s) = Some (pc, rest) \<Longrightarrow>
     system_step pbkdf2 idna s (s\<lparr>idle_conns := rest, reqs := add_mset (Has cfg pc) M\<rparr>)"
| dial: "reqs s = add_mset (Want cfg) M \<Longrightarrow> queueForIdleConn idna (routeKey idna cfg) (idle_conns s) = None \<Longrightarrow>
     system_step pbkdf2 idna s (s\<lparr>reqs := add_mset (Waiting cfg) M, dials := add_mset (cfg, None) (dials s)\<rparr>)"
| dial_pool: "dials s = add_mset (cfg, None) D \<Longrightarrow> Registry_Get (registry (sys_pools s)) (RunID cfg) = Some p \<Longrightarrow>
     system_step pbkdf2 idna s (s\<lparr>sys_srv := (sys_srv s)\<lparr>owner_state := call_get p (sys_pools s)\<rparr>, dials := add_mset (cfg, Some p) D\<rparr>)"
| no_pool: "dials s = add_mset (cfg, None) D \<Longrightarrow> Registry_Get (registry (sys_pools s)) (RunID cfg) = None \<Longrightarrow>
     dial_failed cfg s M \<Longrightarrow> system_step pbkdf2 idna s (s\<lparr>dials := D, reqs := M\<rparr>)"
| get_fails: "dials s = add_mset (cfg, Some p) D \<Longrightarrow> get_result s (p, GetFails e) \<Longrightarrow> dial_failed cfg s M \<Longrightarrow>
     system_step pbkdf2 idna s (s\<lparr>dials := D, reqs := M, taken := add_mset (p, GetFails e) (taken s)\<rparr>)"
| wrap_fails: "dials s = add_mset (cfg, Some p) D \<Longrightarrow> get_result s (p, GetReturns c) \<Longrightarrow> dial_failed cfg s M \<Longrightarrow>
     system_step pbkdf2 idna s (s\<lparr>dials := D, reqs := M, taken := add_mset (p, GetReturns c) (taken s)\<rparr>)"
| dialled: "dials s = add_mset (cfg, Some p) D \<Longrightarrow> get_result s (p, GetReturns c) \<Longrightarrow> reqs s = add_mset (Waiting cfg) M \<Longrightarrow>
     system_step pbkdf2 idna s
       (s\<lparr>dials := D, reqs := add_mset (Has cfg \<lparr>pc_conn = c, pc_route = cfg\<rparr>) M, taken := add_mset (p, GetReturns c) (taken s)\<rparr>)"
| dialled_late: "dials s = add_mset (cfg, Some p) D \<Longrightarrow> get_result s (p, GetReturns c) \<Longrightarrow> orphan_dial cfg s \<Longrightarrow>
     placed idna \<lparr>pc_conn = c, pc_route = cfg\<rparr> (s\<lparr>dials := D, taken := add_mset (p, GetReturns c) (taken s)\<rparr>) s' \<Longrightarrow>
     system_step pbkdf2 idna s s'"
| finished: "reqs s = add_mset (Has cfg pc) M \<Longrightarrow> placed idna pc (s\<lparr>reqs := M\<rparr>) s' \<Longrightarrow> system_step pbkdf2 idna s s'"
| aborted: "reqs s = add_mset q M \<Longrightarrow> system_step pbkdf2 idna s (s\<lparr>reqs := M\<rparr>)"
| idle_closed: "idle_conns s = xs @ pc # ys \<Longrightarrow> system_step pbkdf2 idna s (s\<lparr>idle_conns := xs @ ys\<rparr>)"

definition system_reachable ::
  "(bytes \<Rightarrow> bytes \<Rightarrow> nat \<Rightarrow> nat \<Rightarrow> bytes) \<Rightarrow> (string \<Rightarrow> string option) \<Rightarrow> Config \<Rightarrow> system \<Rightarrow> bool" where
  "system_reachable pbkdf2 idna cfg s \<longleftrightarrow> (system_step pbkdf2 idna)\<^sup>*\<^sup>* (init_system pbkdf2 cfg) s"

section \<open>The server below\<close>

text \<open>A step of the system is a step of the server, with the HTTP side as its environment, or leaves the server alone.\<close>

lemma server_step_mono:
  assumes "server_step pbkdf2 A srv srv'" "\<And>o1 o2. A o1 o2 \<Longrightarrow> B o1 o2" shows "server_step pbkdf2 B srv srv'"
  using assms(1) by cases (auto intro: server_step.intros assms(2))

lemma placed_server: "placed idna pc s s' \<Longrightarrow> sys_srv s' = sys_srv s"
  by (auto elim: placed.cases)

lemma system_step_server:
  assumes "system_step pbkdf2 idna s s'" "registry_wf (registry (sys_pools s))"
  shows "(server_step pbkdf2 pool_moves)\<^sup>=\<^sup>= (sys_srv s) (sys_srv s')"
  using assms(1)
proof cases
  case (server srv')
  then show ?thesis
    using server_step_mono [of pbkdf2 pool_runs "sys_srv s" srv' pool_moves] by (simp add: pool_moves.run)
next
  case (dial_pool cfg D p)
  then have "pool_moves (sys_pools s) (call_get p (sys_pools s))"
    using registry_ref_less [OF assms(2)] by (intro pool_moves.call) (simp add: Registry_Get_def)
  then show ?thesis
    using dial_pool server_step.owner_moves [of pool_moves "sys_srv s"] by simp
qed (auto dest: placed_server)

lemma system_stack: "system_reachable pbkdf2 idna cfg s \<Longrightarrow> stack_reachable pbkdf2 cfg (sys_srv s)"
  unfolding system_reachable_def
proof (induction rule: rtranclp_induct)
  case base
  then show ?case by (simp add: init_system_def stack_reachable_def)
next
  case (step s s')
  have "registry_wf (registry (sys_pools s))"
    using stack_pools_ok [OF step.IH] by (simp add: pools_ok_def)
  with system_step_server [OF step(2)] step.IH show ?case
    unfolding stack_reachable_def by (auto intro: rtranclp.rtrancl_into_rtrancl)
qed

section \<open>Histories only grow\<close>

definition grows :: "stack_pools \<Rightarrow> stack_pools \<Rightarrow> bool" where
  "grows o1 o2 \<longleftrightarrow> prefix (requestFns o1) (requestFns o2) \<and> prefix (pool_effects o1) (pool_effects o2) \<and>
     prefix (work_conns o1) (work_conns o2)"

lemma grows_refl [simp]: "grows o1 o1"
  by (simp add: grows_def)

lemma grows_trans: "grows o1 o2 \<Longrightarrow> grows o2 o3 \<Longrightarrow> grows o1 o3"
  by (auto simp: grows_def)

lemma grows_put: "grows o1 (put_work_conn capacity o1 c m)"
  by (auto simp: grows_def put_work_conn_def get_pool_def split: prod.split)

lemma grows_close: "grows o1 (close_session_pool o1 rid)"
  by (auto simp: grows_def close_session_pool_def split: prod.split)

lemma grows_runs: "pool_runs o1 o2 \<Longrightarrow> grows o1 o2"
  by (auto elim!: pool_runs.cases simp: grows_def pool_acts_def split: prod.split)

interpretation growth: handler_owner "put_work_conn capacity" close_session_pool pool_runs "grows o0"
  by unfold_locales (blast intro: grows_trans grows_put grows_close grows_runs)+

lemma system_step_grows:
  assumes step: "system_step pbkdf2 idna s s'" and srv: "stack.serves (PoolCapacity cfg) (sys_srv s)"
  shows "grows (sys_pools s) (sys_pools s')"
  using step
proof cases
  case (server srv')
  have "growth.serves (PoolCapacity cfg) (sys_pools s) (sys_srv s)"
    using srv by (simp add: growth.serves_def stack.serves_def)
  from growth.serves_step [OF server(2) this] server(1) show ?thesis
    by (simp add: growth.serves_def)
next
  case (dial_pool cfg D p)
  then show ?thesis by (simp add: grows_def call_get_def)
qed (auto dest: placed_server)

section \<open>Where connections come from\<close>

definition pc_from :: "system \<Rightarrow> persistConn \<Rightarrow> bool" where
  "pc_from s pc \<longleftrightarrow> RunID (pc_route pc) \<in> run_ids (sys_srv s) \<and>
     (\<exists>p < length (requestFns (sys_pools s)). requestFns (sys_pools s) ! p = RunID (pc_route pc) \<and>
        (p, GetReturns (pc_conn pc)) \<in> set (pool_effects (sys_pools s)))"

fun req_ok :: "(string \<Rightarrow> string option) \<Rightarrow> system \<Rightarrow> http_req \<Rightarrow> bool" where
  "req_ok idna s (Want cfg) \<longleftrightarrow> RunID cfg \<in> run_ids (sys_srv s)"
| "req_ok idna s (Waiting cfg) \<longleftrightarrow> RunID cfg \<in> run_ids (sys_srv s)"
| "req_ok idna s (Has cfg pc) \<longleftrightarrow> RunID cfg \<in> run_ids (sys_srv s) \<and> pc_from s pc \<and> routeKey idna cfg = pc_key idna pc"

fun dial_ok :: "system \<Rightarrow> RouteConfig \<times> pool_ref option \<Rightarrow> bool" where
  "dial_ok s (cfg, None) \<longleftrightarrow> RunID cfg \<in> run_ids (sys_srv s)"
| "dial_ok s (cfg, Some p) \<longleftrightarrow> RunID cfg \<in> run_ids (sys_srv s) \<and> p < length (requestFns (sys_pools s)) \<and>
     requestFns (sys_pools s) ! p = RunID cfg"

definition path_inv :: "(string \<Rightarrow> string option) \<Rightarrow> system \<Rightarrow> bool" where
  "path_inv idna s \<longleftrightarrow> (\<forall>q \<in># reqs s. req_ok idna s q) \<and> (\<forall>d \<in># dials s. dial_ok s d) \<and>
     (\<forall>pc \<in> set (idle_conns s). pc_from s pc) \<and> idle_bounded newTransport idna (idle_conns s)"

definition extends :: "system \<Rightarrow> system \<Rightarrow> bool" where
  "extends s s' \<longleftrightarrow> grows (sys_pools s) (sys_pools s') \<and> run_ids (sys_srv s) \<subseteq> run_ids (sys_srv s')"

lemma pc_from_extends:
  assumes "extends s s'" "pc_from s pc" shows "pc_from s' pc"
proof -
  obtain p where p: "p < length (requestFns (sys_pools s))" "requestFns (sys_pools s) ! p = RunID (pc_route pc)"
      "(p, GetReturns (pc_conn pc)) \<in> set (pool_effects (sys_pools s))"
    using assms(2) by (auto simp: pc_from_def)
  obtain xs ys where "requestFns (sys_pools s') = requestFns (sys_pools s) @ xs" "pool_effects (sys_pools s') = pool_effects (sys_pools s) @ ys"
    using assms(1) by (auto simp: extends_def grows_def elim!: prefixE)
  with p have "p < length (requestFns (sys_pools s'))" "requestFns (sys_pools s') ! p = RunID (pc_route pc)"
      "(p, GetReturns (pc_conn pc)) \<in> set (pool_effects (sys_pools s'))"
    by (simp_all add: nth_append)
  with assms show ?thesis
    unfolding pc_from_def extends_def by blast
qed

lemma dial_ok_extends: "extends s s' \<Longrightarrow> dial_ok s d \<Longrightarrow> dial_ok s' d"
  by (cases d; cases "snd d") (auto simp: extends_def grows_def nth_append elim!: prefixE)

lemma req_ok_extends: "extends s s' \<Longrightarrow> req_ok idna s q \<Longrightarrow> req_ok idna s' q"
  using pc_from_extends by (cases q) (auto simp: extends_def)

lemma path_inv_extends:
  assumes "path_inv idna s" "extends s s'"
    and "\<And>q. q \<in># reqs s' \<Longrightarrow> q \<in># reqs s \<or> req_ok idna s' q" "\<And>d. d \<in># dials s' \<Longrightarrow> d \<in># dials s \<or> dial_ok s' d"
    and "\<And>pc. pc \<in> set (idle_conns s') \<Longrightarrow> pc \<in> set (idle_conns s) \<or> pc_from s' pc"
    and "idle_bounded newTransport idna (idle_conns s) \<Longrightarrow> idle_bounded newTransport idna (idle_conns s')"
  shows "path_inv idna s'"
  using assms unfolding path_inv_def by (meson req_ok_extends dial_ok_extends pc_from_extends)

lemma extends_same: "sys_srv s' = sys_srv s \<Longrightarrow> extends s s'"
  by (simp add: extends_def)

lemma path_inv_placed:
  assumes "placed idna pc s s'" "path_inv idna s" "pc_from s pc" shows "path_inv idna s'"
proof -
  have same: "extends s s'"
    using placed_server [OF assms(1)] by (rule extends_same)
  have from_s': "pc_from s' pc"
    using same assms(3) by (rule pc_from_extends)
  show ?thesis
    using assms(1)
  proof cases
    case (to_waiting cfg M)
    have "req_ok idna s' (Waiting cfg)"
      using assms(2) to_waiting(2) by (intro req_ok_extends [OF same]) (simp add: path_inv_def)
    then show ?thesis
      using from_s' to_waiting by (intro path_inv_extends [OF assms(2) same]) auto
  next
    case to_idle
    then show ?thesis
      using from_s' by (intro path_inv_extends [OF assms(2) same])
        (auto dest: tryPutIdleConn_set [THEN subsetD] intro: idle_bounded_put)
  qed
qed

lemma path_inv_sub:
  assumes "path_inv idna s" "sys_srv s' = sys_srv s" "set_mset (reqs s') \<subseteq> set_mset (reqs s)"
    "set_mset (dials s') \<subseteq> set_mset (dials s)" "mset (idle_conns s') \<subseteq># mset (idle_conns s)"
  shows "path_inv idna s'"
  using assms(3,4) mset_subset_eqD [OF assms(5)]
  by (intro path_inv_extends [OF assms(1) extends_same [OF assms(2)]])
    (auto intro: idle_bounded_sub [OF _ assms(5)])

lemma routed_run_id:
  assumes "server_reachable pbkdf2 others srv" "HRouter srv = Some rt" "ServeHTTP rt r = Proxied cfg"
  shows "RunID cfg \<in> run_ids srv"
proof -
  have rt: "routes_within (run_ids srv) (Some rt)"
    using routes_inv_reachable [OF assms(1)] assms(2) by simp
  have "Lookup rt (Host r) (URL_Path r) = Some cfg"
    using assms(3) by (auto simp: ServeHTTP_def http_Error_def split: option.splits if_splits)
  with Lookup_domain [of rt] rt show ?thesis
    unfolding routes_within_def by blast
qed

lemma get_result_mem: "get_result s e \<Longrightarrow> e \<in> set (pool_effects (sys_pools s))"
  using count_list_pos [of "pool_effects (sys_pools s)" e] by (simp add: get_result_def)

lemma path_inv_step:
  assumes step: "system_step pbkdf2 idna s s'" and stack: "stack_reachable pbkdf2 cfg0 (sys_srv s)" and inv: "path_inv idna s"
  shows "path_inv idna s'"
proof -
  have wf: "registry_wf (registry (sys_pools s))" and names: "named_ok (sys_pools s)" "indices_ok (sys_pools s)"
    using stack_pools_ok [OF stack] by (simp_all add: pools_ok_def)
  have "run_ids (sys_srv s) \<subseteq> run_ids (sys_srv s')"
    using system_step_server [OF step wf] run_ids_step [of pbkdf2 pool_moves "sys_srv s" "sys_srv s'"] by auto
  then have ext: "extends s s'"
    using system_step_grows [OF step stack_serves [OF stack]] by (simp add: extends_def)
  have in_reqs: "reqs s = add_mset q M \<Longrightarrow> req_ok idna s q" for q M
    using inv by (simp add: path_inv_def)
  have in_dials: "dials s = add_mset d D \<Longrightarrow> dial_ok s d" for d D
    using inv by (simp add: path_inv_def)
  show ?thesis
    using step
  proof cases
    case (server srv')
    then show ?thesis by (intro path_inv_extends [OF inv ext]) auto
  next
    case (arrive rt r cfg)
    then have "RunID cfg \<in> run_ids (sys_srv s)"
      using stack_server_reachable [OF stack] by (intro routed_run_id)
    with arrive show ?thesis by (intro path_inv_extends [OF inv ext]) auto
  next
    case (reuse cfg M pc rest)
    note q = queueForIdleConn_Some [OF reuse(3)]
    then have "pc_from s' pc"
      using inv pc_from_extends [OF ext] by (auto simp: path_inv_def)
    moreover have "req_ok idna s' (Want cfg)"
      using in_reqs [OF reuse(2)] by (rule req_ok_extends [OF ext])
    moreover have "mset rest \<subseteq># mset (idle_conns s)"
      using q by simp
    then have "idle_bounded newTransport idna (idle_conns s) \<Longrightarrow> idle_bounded newTransport idna rest" "set rest \<subseteq> set (idle_conns s)"
      by (auto intro: idle_bounded_sub dest: mset_subset_eqD)
    ultimately show ?thesis
      using reuse q by (intro path_inv_extends [OF inv ext]) auto
  next
    case (dial cfg M)
    then have "req_ok idna s' (Waiting cfg)" "dial_ok s' (cfg, None)"
      using req_ok_extends [OF ext in_reqs [OF dial(2)]] by simp_all
    with dial show ?thesis by (intro path_inv_extends [OF inv ext]) auto
  next
    case (dial_pool cfg D p)
    have "p < length (requestFns (sys_pools s)) \<and> requestFns (sys_pools s) ! p = RunID cfg"
      using names registry_ref_less [OF wf] dial_pool(3) by (simp add: named_ok_def indices_ok_def Registry_Get_def)
    then have "dial_ok s (cfg, Some p)"
      using in_dials [OF dial_pool(2)] by simp
    from dial_ok_extends [OF ext this] dial_pool show ?thesis
      by (intro path_inv_extends [OF inv ext]) auto
  next
    case (dialled cfg p D c M)
    have "pc_from s \<lparr>pc_conn = c, pc_route = cfg\<rparr>"
      using in_dials [OF dialled(2)] get_result_mem [OF dialled(3)] by (auto simp: pc_from_def)
    then have "req_ok idna s (Has cfg \<lparr>pc_conn = c, pc_route = cfg\<rparr>)"
      using in_reqs [OF dialled(4)] by (simp add: pc_key_def)
    from req_ok_extends [OF ext this] dialled show ?thesis
      by (intro path_inv_extends [OF inv ext]) auto
  next
    case (dialled_late cfg p D c)
    let ?t = "s\<lparr>dials := D, taken := add_mset (p, GetReturns c) (taken s)\<rparr>"
    have "pc_from ?t \<lparr>pc_conn = c, pc_route = cfg\<rparr>"
      using in_dials [OF dialled_late(1)] get_result_mem [OF dialled_late(2)] by (auto simp: pc_from_def)
    moreover have "path_inv idna ?t"
      using dialled_late(1) by (intro path_inv_sub [OF inv]) auto
    ultimately show ?thesis
      using path_inv_placed [OF dialled_late(4)] by blast
  next
    case (finished cfg pc M)
    have "pc_from (s\<lparr>reqs := M\<rparr>) pc"
      using in_reqs [OF finished(1)] by (simp add: pc_from_def)
    moreover have "path_inv idna (s\<lparr>reqs := M\<rparr>)"
      using finished(1) by (intro path_inv_sub [OF inv]) auto
    ultimately show ?thesis
      using path_inv_placed [OF finished(2)] by blast
  next
    case (no_pool cfg D M)
    with dial_failed_sub [OF no_pool(4)] show ?thesis by (intro path_inv_sub [OF inv]) (auto dest: mset_subset_eqD)
  next
    case (get_fails cfg p D e M)
    with dial_failed_sub [OF get_fails(4)] show ?thesis by (intro path_inv_sub [OF inv]) (auto dest: mset_subset_eqD)
  next
    case (wrap_fails cfg p D c M)
    with dial_failed_sub [OF wrap_fails(4)] show ?thesis by (intro path_inv_sub [OF inv]) (auto dest: mset_subset_eqD)
  next
    case (aborted q M)
    then show ?thesis by (intro path_inv_sub [OF inv]) auto
  next
    case (idle_closed xs pc ys)
    then show ?thesis by (intro path_inv_sub [OF inv]) auto
  qed
qed

lemma path_inv_reachable: "system_reachable pbkdf2 idna cfg s \<Longrightarrow> path_inv idna s"
  unfolding system_reachable_def
proof (induction rule: rtranclp_induct)
  case base
  then show ?case
    by (simp add: init_system_def path_inv_def idle_bounded_def idle_under_def)
next
  case (step s s')
  then show ?case
    using path_inv_step [OF step(2) system_stack] by (simp add: system_reachable_def)
qed

section \<open>Exclusive use\<close>

text \<open>The connections that are idle or used by a request, and those that the dials received.\<close>

fun user_conn :: "http_req \<Rightarrow> conn multiset" where
  "user_conn (Has cfg pc) = {#pc_conn pc#}" | "user_conn _ = {#}"

fun received_conn :: "effect \<Rightarrow> conn multiset" where
  "received_conn (GetReturns c) = {#c#}" | "received_conn _ = {#}"

definition in_use :: "system \<Rightarrow> conn multiset" where
  "in_use s = image_mset pc_conn (mset (idle_conns s)) + sum_mset (image_mset user_conn (reqs s))"

definition received :: "(pool_ref \<times> effect) multiset \<Rightarrow> conn multiset" where
  "received M = sum_mset (image_mset (received_conn \<circ> snd) M)"

definition use_inv :: "system \<Rightarrow> bool" where
  "use_inv s \<longleftrightarrow> in_use s \<subseteq># received (taken s) \<and> taken s \<subseteq># mset (pool_effects (sys_pools s))"

lemma received_add [simp]: "received (add_mset e M) = received_conn (snd e) + received M"
  by (simp add: received_def)

lemma received_mono: "A \<subseteq># B \<Longrightarrow> received A \<subseteq># received B"
  by (auto simp: received_def mset_subset_eq_exists_conv)

lemma placed_in_use: "placed idna pc s s' \<Longrightarrow> in_use s' \<subseteq># add_mset (pc_conn pc) (in_use s)"
  by (elim placed.cases) (auto simp: in_use_def tryPutIdleConn_def)

lemma placed_taken: "placed idna pc s s' \<Longrightarrow> taken s' = taken s"
  by (auto elim: placed.cases)

lemma get_result_taken:
  assumes "get_result s e" "taken s \<subseteq># mset (pool_effects (sys_pools s))"
  shows "add_mset e (taken s) \<subseteq># mset (pool_effects (sys_pools s))"
  using assms by (auto simp: get_result_def subseteq_mset_def count_mset Suc_le_eq)

lemma in_use_sub:
  assumes "idle_conns s' = idle_conns s" "reqs s' \<subseteq># reqs s" shows "in_use s' \<subseteq># in_use s"
  using assms by (auto simp: in_use_def mset_subset_eq_exists_conv)

lemma use_inv_step:
  assumes step: "system_step pbkdf2 idna s s'" and srv: "stack.serves (PoolCapacity cfg0) (sys_srv s)" and inv: "use_inv s"
  shows "use_inv s'"
proof -
  have grow: "mset (pool_effects (sys_pools s)) \<subseteq># mset (pool_effects (sys_pools s'))"
    using system_step_grows [OF step srv] by (auto simp: grows_def prefix_def)
  have use: "in_use s \<subseteq># received (taken s)" and took: "taken s \<subseteq># mset (pool_effects (sys_pools s))"
    using inv by (simp_all add: use_inv_def)
  have same: "use_inv s'" if "taken s' = taken s" "in_use s' \<subseteq># in_use s"
    using that use took grow unfolding use_inv_def by (metis subset_mset.order_trans)
  have took': "add_mset e (taken s) \<subseteq># mset (pool_effects (sys_pools s'))" if "get_result s e" for e
    using get_result_taken [OF that took] grow by (rule subset_mset.order_trans)
  show ?thesis
    using step
  proof cases
    case (get_fails cfg p D e M)
    have "in_use s' \<subseteq># in_use s"
      unfolding get_fails(1) using dial_failed_sub [OF get_fails(4)] by (intro in_use_sub) simp_all
    then have "in_use s' \<subseteq># received (taken s)"
      using use by (rule subset_mset.order_trans)
    then show ?thesis
      using took' [OF get_fails(3)] unfolding get_fails(1) use_inv_def by simp
  next
    case (wrap_fails cfg p D c M)
    have "in_use s' \<subseteq># in_use s"
      unfolding wrap_fails(1) using dial_failed_sub [OF wrap_fails(4)] by (intro in_use_sub) simp_all
    then have "in_use s' \<subseteq># received (taken s)"
      using use by (rule subset_mset.order_trans)
    then have "in_use s' \<subseteq># add_mset c (received (taken s))"
      by (rule subset_mset.order_trans) simp
    then show ?thesis
      using took' [OF wrap_fails(3)] unfolding wrap_fails(1) use_inv_def by simp
  next
    case (dialled cfg p D c M)
    have "in_use s' = add_mset c (in_use s)"
      using dialled by (simp add: in_use_def)
    then have "in_use s' \<subseteq># add_mset c (received (taken s))"
      using use by simp
    then show ?thesis
      using took' [OF dialled(3)] unfolding dialled(1) use_inv_def by simp
  next
    case (dialled_late cfg p D c)
    let ?t = "s\<lparr>dials := D, taken := add_mset (p, GetReturns c) (taken s)\<rparr>"
    have "in_use s' \<subseteq># add_mset c (in_use ?t)" "taken s' = add_mset (p, GetReturns c) (taken s)"
      using placed_in_use [OF dialled_late(4)] placed_taken [OF dialled_late(4)] by simp_all
    moreover have "add_mset c (in_use ?t) \<subseteq># add_mset c (received (taken s))"
      using use by (simp add: in_use_def)
    ultimately show ?thesis
      using took' [OF dialled_late(2)] subset_mset.order_trans unfolding use_inv_def by fastforce
  next
    case (finished cfg pc M)
    have "in_use s' \<subseteq># add_mset (pc_conn pc) (in_use (s\<lparr>reqs := M\<rparr>))" "taken s' = taken s"
      using placed_in_use [OF finished(2)] placed_taken [OF finished(2)] by simp_all
    moreover have "add_mset (pc_conn pc) (in_use (s\<lparr>reqs := M\<rparr>)) = in_use s"
      using finished(1) by (simp add: in_use_def)
    ultimately show ?thesis by (intro same) simp_all
  next
    case (reuse cfg M pc rest)
    with queueForIdleConn_Some [OF reuse(3)] show ?thesis
      by (intro same) (simp_all add: in_use_def)
  next
    case (idle_closed xs pc ys)
    then show ?thesis by (intro same) (simp_all add: in_use_def)
  next
    case (server srv')
    show ?thesis by (rule same) (simp_all add: server(1) in_use_def)
  next
    case (arrive rt r cfg)
    show ?thesis by (rule same) (simp_all add: arrive(1) in_use_def)
  next
    case (dial cfg M)
    show ?thesis by (rule same) (simp_all add: dial(1,2) in_use_def)
  next
    case (dial_pool cfg D p)
    show ?thesis by (rule same) (simp_all add: dial_pool(1) in_use_def)
  next
    case (no_pool cfg D M)
    show ?thesis by (rule same) (simp_all add: no_pool(1) in_use_sub dial_failed_sub [OF no_pool(4)])
  next
    case (aborted q M)
    show ?thesis by (rule same) (simp_all add: aborted in_use_sub)
  qed
qed

lemma use_inv_reachable: "system_reachable pbkdf2 idna cfg s \<Longrightarrow> use_inv s"
  unfolding system_reachable_def
proof (induction rule: rtranclp_induct)
  case base
  then show ?case
    by (simp add: init_system_def use_inv_def in_use_def received_def)
next
  case (step s s')
  then show ?case
    using use_inv_step [OF step(2) stack_serves [OF system_stack]] by (simp add: system_reachable_def)
qed

lemma length_filter_pools:
  "\<forall>x \<in> set xs. fst x < n \<Longrightarrow> length (filter (\<lambda>x. Q (snd x)) xs) = (\<Sum>p<n. length (filter Q (of_pool p xs)))"
proof (induction xs)
  case (Cons x xs)
  have "(\<Sum>p<n. length (filter Q (of_pool p (x # xs)))) =
      (\<Sum>p<n. (if p = fst x then if Q (snd x) then 1 else 0 else 0) + length (filter Q (of_pool p xs)))"
    by (intro sum.cong) (cases x, auto)+
  also have "\<dots> = (if Q (snd x) then 1 else 0) + (\<Sum>p<n. length (filter Q (of_pool p xs)))"
    using Cons.prems by (simp add: sum.distrib)
  finally show ?case using Cons by simp
qed simp

lemma count_fst: "count (image_mset fst (mset ws)) c = length (filter (\<lambda>w. fst w = c) ws)"
  by (induction ws) auto

lemma count_received: "count (received (mset es)) c = length (filter (\<lambda>e. snd e = GetReturns c) es)"
proof (induction es)
  case (Cons e es)
  then show ?case by (cases "snd e") auto
qed (simp add: received_def)

lemma count_in_use:
  assumes "system_reachable pbkdf2 idna cfg s" "\<not> crashed (sys_pools s)"
  shows "count (in_use s) c \<le> length (filter (\<lambda>w. fst (snd w) = c) (work_conns (sys_pools s)))"
proof -
  let ?o = "sys_pools s" and ?n = "length (objs (registry (sys_pools s)))"
  have stack: "stack_reachable pbkdf2 cfg (sys_srv s)"
    by (rule system_stack [OF assms(1)])
  have idx: "\<forall>x \<in> set (pool_effects ?o). fst x < ?n" "\<forall>x \<in> set (work_conns ?o). fst x < ?n"
    using stack_pools_ok [OF stack] by (simp_all add: pools_ok_def indices_ok_def)
  have pool: "length (filter (\<lambda>e. e = GetReturns c) (of_pool p (pool_effects ?o))) \<le>
      length (filter (\<lambda>w. fst w = c) (of_pool p (work_conns ?o)))" if "p < ?n" for p
  proof -
    have "length (filter (\<lambda>e. e = GetReturns c) es) \<le> count (conns_out es) c" for es
    proof (induction es)
      case (Cons e es)
      then show ?case by (cases e) auto
    qed simp
    also have "count (conns_out (of_pool p (pool_effects ?o))) c \<le> count (mset (map fst (of_pool p (work_conns ?o)))) c"
      using stack_pool_conserves [OF stack assms(2) that] by simp
    also have "\<dots> = length (filter (\<lambda>w. fst w = c) (of_pool p (work_conns ?o)))"
      by (simp add: count_fst)
    finally show ?thesis .
  qed
  have "in_use s \<subseteq># received (mset (pool_effects ?o))"
    using use_inv_reachable [OF assms(1)] received_mono unfolding use_inv_def by (meson subset_mset.order_trans)
  then have "count (in_use s) c \<le> length (filter (\<lambda>e. snd e = GetReturns c) (pool_effects ?o))"
    using count_received [of "pool_effects ?o" c] by (metis mset_subset_eq_count)
  also have "\<dots> \<le> length (filter (\<lambda>w. fst (snd w) = c) (work_conns ?o))"
    unfolding length_filter_pools [OF idx(1), of "\<lambda>e. e = GetReturns c"] length_filter_pools [OF idx(2), of "\<lambda>w. fst w = c"]
    using pool by (intro sum_mono) simp
  finally show ?thesis .
qed

end
