(* ===== verification/Path_Props.thy ===== *)
theory Path_Props
  imports Data_Path
begin

text \<open>
  The properties of the HTTP side in the whole system: whose connection a request goes over, that no connection is
  used twice at a time, and what the keys of the transport do not separate.
\<close>

section \<open>Safety\<close>

text \<open>
  C3: A request is only ever sent over a connection that some authenticated client's run id was named for. In every state of the system,
  whatever the interleaving, the connection of a request was dialled for a route with the same transport key,
  the client of that route has logged on with the right key, and the connection was offered by a work-connection message with that
  client's run id. For routes whose names are ASCII and whose location and proxy name have no dot, the route that it was dialled for
  has the same domain, location and proxy name as the route of the request.
\<close>

theorem request_connection_provenance:
  assumes "system_reachable pbkdf2 idna cfg0 s" "\<not> crashed (sys_pools s)" "Has cfg pc \<in># reqs s"
  shows "routeKey idna cfg = routeKey idna (pc_route pc) \<and>
    (\<exists>session \<in> set (sessions (sys_srv s)). runID session = RunID (pc_route pc) \<and>
       login_PrivilegeKey (login session) = BuildAuthKey (Config.Token cfg0) (login_Timestamp (login session))) \<and>
    (\<exists>p. (p, pc_conn pc, RunID (pc_route pc)) \<in> set (work_conns (sys_pools s))) \<and>
    (plain_names cfg \<and> plain_names (pc_route pc) \<longrightarrow>
       Domain cfg = Domain (pc_route pc) \<and> Location cfg = Location (pc_route pc) \<and> ProxyName cfg = ProxyName (pc_route pc))"
proof -
  have stack: "stack_reachable pbkdf2 cfg0 (sys_srv s)"
    by (rule system_stack [OF assms(1)])
  have ok: "req_ok idna s (Has cfg pc)"
    using path_inv_reachable [OF assms(1)] assms(3) unfolding path_inv_def by blast
  then have key: "routeKey idna cfg = routeKey idna (pc_route pc)" and src: "pc_from s pc"
    by (simp_all add: pc_key_def)
  obtain p where p: "p < length (requestFns (sys_pools s))" "requestFns (sys_pools s) ! p = RunID (pc_route pc)"
      "(p, GetReturns (pc_conn pc)) \<in> set (pool_effects (sys_pools s))"
    using src by (auto simp: pc_from_def)
  have "(p, pc_conn pc, RunID (pc_route pc)) \<in> set (work_conns (sys_pools s))"
    using conns_by_pool [OF stack assms(2) _ p(3)] p(1,2) stack_pools_ok [OF stack]
    by (simp add: pools_ok_def indices_ok_def)
  moreover have "\<exists>session \<in> set (sessions (sys_srv s)). runID session = RunID (pc_route pc) \<and>
       login_PrivilegeKey (login session) = BuildAuthKey (Config.Token cfg0) (login_Timestamp (login session))"
    using src sessions_inv_reachable [OF stack_server_reachable [OF stack]] stack_Token [OF stack]
    by (auto simp: pc_from_def run_ids_def sessions_inv_def authentic_def VerifyAuth_iff)
  ultimately show ?thesis
    using key routeKey_plain [OF key] by blast
qed

text \<open>
  C8: Connections are used exclusively. Counting every request that is being sent and every idle connection of the transport, a work connection
  occurs at most as often as clients have offered it; so one that was offered once is never used by two requests at the same time, nor is it idle
  while it is used. The transport keeps at most five idle connections per key.
\<close>

theorem connections_exclusive:
  assumes "system_reachable pbkdf2 idna cfg s" "\<not> crashed (sys_pools s)"
  shows "count (image_mset pc_conn (mset (idle_conns s)) + sum_mset (image_mset user_conn (reqs s))) c
      \<le> length (filter (\<lambda>w. fst (snd w) = c) (work_conns (sys_pools s))) \<and>
    length (filter (\<lambda>pc. routeKey idna (pc_route pc) = key) (idle_conns s)) \<le> 5"
proof -
  have "idle_bounded newTransport idna (idle_conns s)"
    using path_inv_reachable [OF assms(1)] by (simp add: path_inv_def)
  then have "length (idle_under idna key (idle_conns s)) \<le> MaxIdleConnsPerHost newTransport"
    unfolding idle_bounded_def by blast
  then have "length (filter (\<lambda>pc. routeKey idna (pc_route pc) = key) (idle_conns s)) \<le> 5"
    by (simp add: idle_under_def pc_key_def newTransport_def transportMaxIdleConnsPerHost_def)
  with count_in_use [OF assms] show ?thesis
    by (simp add: in_use_def)
qed

section \<open>A run\<close>

text \<open>
  The client \<^verbatim>\<open>r1\<close> has registered \<^verbatim>\<open>a.io\<close> and offered the connection 7, which is parked in its pool (\<open>parked\<close>). A request for
  \<^verbatim>\<open>a.io\<close> passes the gate, dials, and gets the connection; afterwards the connection is idle.
\<close>

definition no_idna :: "string \<Rightarrow> string option" where
  "no_idna = (\<lambda>_. None)"

definition web_request :: request where
  "web_request = \<lparr>Host = ''a.io'', URL_Path = ''/'', req_header = Map.empty\<rparr>"

definition web_route :: "string \<Rightarrow> RouteConfig" where
  "web_route rid = route_cfg web rid ''a.io'' ''/''"

definition returned_pools :: stack_pools where
  "returned_pools = parked_pools\<lparr>
     registry := \<lparr>pools = [(''r1'', 0)], objs = [(New [64])\<lparr>getHit := 1, refillDemand := 1, pendingRefills := 1, refilling := True\<rparr>]\<rparr>,
     pool_threads := {#(0, WorkerSwap)#}, pool_effects := [(0, GetReturns 7)]\<rparr>"

lemma get_runs: "pool_runs\<^sup>*\<^sup>* (call_get 0 parked_pools) returned_pools"
  by (rule sched_pools_runs [of "map (Pair 0) [GetLock, GetFast, GetHit 7, RefillDemand 1 (ReturnConn 7),
        RefillPending 1 (ReturnConn 7), RefillCAS (ReturnConn 7)]"])
    (simp add: call_get_def parked_pools_def offered_pools_def returned_pools_def pool_acts_def crashed_def exec_simps
      Pool.New_def make_chan_def)

lemma web_request_proxied:
  "ServeHTTP web_router web_request = Proxied (web_route ''r1'')"
  "\<exists>r. handleNewProxy (Some (Remove web_router ''web'')) web ''r2'' {} =
     (Some r, {''web''}, \<lparr>newproxyresp_ProxyName = ''web'', newproxyresp_RemoteAddr = '':80'', newproxyresp_Error = []\<rparr>) \<and>
     ServeHTTP r web_request = Proxied (web_route ''r2'')"
  by (simp_all add: ServeHTTP_def web_request_def web_route_def web_router_def router_after_def web_def handleNewProxy_def route_cfg_def
      http_proxy_def example_proxy_def router_eval)

lemma server_runs:
  "(server_step pbkdf2 pool_runs)\<^sup>*\<^sup>* (sys_srv s) v \<Longrightarrow> (system_step pbkdf2 idna)\<^sup>*\<^sup>* s (s\<lparr>sys_srv := v\<rparr>)"
proof (induction rule: rtranclp_induct)
  case base
  then show ?case by simp
next
  case (step v v')
  have "system_step pbkdf2 idna (s\<lparr>sys_srv := v\<rparr>) (s\<lparr>sys_srv := v'\<rparr>)"
    using system_step.server [of pbkdf2 "s\<lparr>sys_srv := v\<rparr>" v' idna] step(2) by simp
  with step(3) show ?case by simp
qed

abbreviation run_steps :: "system \<Rightarrow> system \<Rightarrow> bool" where
  "run_steps \<equiv> (system_step toy_pbkdf2 no_idna)\<^sup>*\<^sup>*"

definition web_pc :: persistConn where
  "web_pc = \<lparr>pc_conn = 7, pc_route = web_route ''r1''\<rparr>"

definition using_sys :: system where
  "using_sys = \<lparr>sys_srv = served\<lparr>owner_state := returned_pools\<rparr>, idle_conns = [], reqs = {#Has (web_route ''r1'') web_pc#},
     dials = {#}, taken = {#(0, GetReturns 7)#}\<rparr>"

definition idle_sys :: system where
  "idle_sys = using_sys\<lparr>reqs := {#}, idle_conns := [web_pc]\<rparr>"

text \<open>The request before its dial has looked up the pool.\<close>

definition path_state :: "stack_pools \<Rightarrow> http_req multiset \<Rightarrow> (RouteConfig \<times> pool_ref option) multiset \<Rightarrow> system" where
  "path_state o1 r d = \<lparr>sys_srv = served\<lparr>owner_state := o1\<rparr>, idle_conns = [], reqs = r, dials = d, taken = {#}\<rparr>"

definition waiting_sys :: system where
  "waiting_sys = path_state parked_pools {#Waiting (web_route ''r1'')#} {#(web_route ''r1'', None)#}"

lemma waiting_sys_reachable: "system_reachable toy_pbkdf2 no_idna default_config waiting_sys"
proof -
  let ?A = "web_route ''r1''"
  have "(server_step toy_pbkdf2 pool_runs)\<^sup>*\<^sup>* start parked"
    using served_steps owner_moves_run [OF parked_runs served_pools] unfolding parked_def by (rule rtranclp_trans)
  then have 1: "run_steps (init_system toy_pbkdf2 default_config) (path_state parked_pools {#} {#})"
    using server_runs [of toy_pbkdf2 "init_system toy_pbkdf2 default_config" parked]
    by (simp add: init_system_def start_def parked_def path_state_def)
  have 2: "system_step toy_pbkdf2 no_idna (path_state parked_pools {#} {#}) (path_state parked_pools {#Want ?A#} {#})"
    using system_step.arrive [of "path_state parked_pools {#} {#}" web_router web_request ?A] served(2) web_request_proxied(1)
    by (simp add: path_state_def)
  have 3: "system_step toy_pbkdf2 no_idna (path_state parked_pools {#Want ?A#} {#}) waiting_sys"
    using system_step.dial [of "path_state parked_pools {#Want ?A#} {#}" ?A "{#}"]
    by (simp add: queueForIdleConn_def idle_under_def path_state_def waiting_sys_def)
  show ?thesis
    unfolding system_reachable_def using 1 2 3 by (meson rtranclp.rtrancl_into_rtrancl)
qed

lemma using_sys_reachable: "system_reachable toy_pbkdf2 no_idna default_config using_sys"
proof -
  let ?A = "web_route ''r1''" and ?o = "call_get 0 parked_pools"
  let ?s = "\<lambda>o1. path_state o1 {#Waiting (web_route ''r1'')#} {#(web_route ''r1'', Some 0)#}"
  have 1: "system_step toy_pbkdf2 no_idna waiting_sys (?s ?o)"
    using system_step.dial_pool [of waiting_sys ?A "{#}" 0]
    by (simp add: waiting_sys_def path_state_def parked_pools_def offered_pools_def Registry_Get_def web_route_def route_cfg_def)
  have 2: "run_steps (?s ?o) (?s returned_pools)"
    using server_runs [OF owner_moves_run [OF get_runs], of "?s ?o"] by (simp add: path_state_def)
  have 3: "system_step toy_pbkdf2 no_idna (?s returned_pools) using_sys"
    using system_step.dialled [of "?s returned_pools" ?A 0 "{#}" 7 "{#}" toy_pbkdf2 no_idna]
    by (simp add: get_result_def returned_pools_def using_sys_def web_pc_def path_state_def)
  show ?thesis
    using waiting_sys_reachable 1 2 3 unfolding system_reachable_def
    by (meson rtranclp_trans rtranclp.rtrancl_into_rtrancl)
qed

theorem request_connection_provenance_witness:
  "\<exists>session \<in> set (sessions (sys_srv using_sys)).
     login_PrivilegeKey (login session) = BuildAuthKey ''test-token'' (login_Timestamp (login session))"
proof -
  have "\<not> crashed (sys_pools using_sys)" "Has (web_route ''r1'') web_pc \<in># reqs using_sys"
    by (simp_all add: using_sys_def returned_pools_def crashed_def)
  from request_connection_provenance [OF using_sys_reachable this] show ?thesis
    by (auto simp: default_config_def)
qed

theorem connections_exclusive_witness:
  "count (image_mset pc_conn (mset (idle_conns using_sys)) + sum_mset (image_mset user_conn (reqs using_sys))) 7 \<le> 1"
proof -
  have "\<not> crashed (sys_pools using_sys)"
    by (simp add: using_sys_def returned_pools_def crashed_def)
  from connections_exclusive [OF using_sys_reachable this, of 7] show ?thesis
    by (simp add: using_sys_def returned_pools_def parked_pools_def offered_pools_def)
qed

section \<open>Connections that outlive their client\<close>

text \<open>
  The connection of \<^verbatim>\<open>r1\<close> breaks and its session is cleaned up; another client logs on as \<^verbatim>\<open>r2\<close> and registers a proxy of the same
  name for the same domain.
\<close>

definition departed :: "stack_pools server" where
  "departed = cleanupControlSession [''web''] 0 (controlLoop 0 (Inl IO_EOF) (sys_srv idle_sys))"

definition successor :: "stack_pools server" where
  "successor = new_proxy 1 web (log_on_as ''r2'' departed)"

lemma idle_sys_reachable: "system_reachable toy_pbkdf2 no_idna default_config idle_sys"
proof -
  have "placed no_idna web_pc (using_sys\<lparr>reqs := {#}\<rparr>) idle_sys"
    using placed.to_idle [of "using_sys\<lparr>reqs := {#}\<rparr>" no_idna web_pc]
    by (simp add: idle_sys_def using_sys_def tryPutIdleConn_def idle_under_def newTransport_def transportMaxIdleConnsPerHost_def)
  then have "system_step toy_pbkdf2 no_idna using_sys idle_sys"
    by (intro system_step.finished [of _ "web_route ''r1''" web_pc "{#}"]) (simp_all add: using_sys_def)
  with using_sys_reachable show ?thesis
    unfolding system_reachable_def by (rule rtranclp.rtrancl_into_rtrancl)
qed

lemma departed:
  "\<exists>s0. sessions departed = [s0] \<and> handler_at s0 = HandlerDone" "GetEntry (controls departed) ''r1'' = None"
  "HRouter departed = Some (Remove web_router ''web'')" "controls departed = Remove_entry (controls served) ''r1''"
  "owner_state departed = close_session_pool returned_pools ''r1''"
  "(server_step toy_pbkdf2 pool_runs)\<^sup>*\<^sup>* (sys_srv idle_sys) departed"
proof -
  obtain s where s: "sessions served = [s]" "handler_at s = ReadControl" "registeredProxies s = {''web''}" "runID s = ''r1''"
    using served(1) by blast
  have close: "OnControlClose served = Some close_session_pool"
    by (simp add: served_eval)
  let ?v = "served\<lparr>owner_state := returned_pools\<rparr>"
  have v: "sys_srv idle_sys = ?v"
    by (simp add: idle_sys_def using_sys_def)
  show "\<exists>s0. sessions departed = [s0] \<and> handler_at s0 = HandlerDone" "GetEntry (controls departed) ''r1'' = None"
    "HRouter departed = Some (Remove web_router ''web'')" "controls departed = Remove_entry (controls served) ''r1''"
    "owner_state departed = close_session_pool returned_pools ''r1''"
    using s close served(2) by (simp_all add: departed_def v cleanupControlSession_def controlLoop_def notify_owner_def)
  have "server_step toy_pbkdf2 pool_runs ?v (controlLoop 0 (Inl IO_EOF) ?v)"
    using s by (intro server_step.control) simp_all
  moreover have "(server_step toy_pbkdf2 pool_runs)\<^sup>*\<^sup>* (controlLoop 0 (Inl IO_EOF) ?v) departed"
    unfolding departed_def v using s by (intro cleanup_run) (simp_all add: controlLoop_def)
  ultimately show "(server_step toy_pbkdf2 pool_runs)\<^sup>*\<^sup>* (sys_srv idle_sys) departed"
    unfolding v by (rule converse_rtranclp_into_rtranclp)
qed

lemma successor:
  "\<exists>r. HRouter successor = Some r \<and> ServeHTTP r web_request = Proxied (web_route ''r2'')"
  "GetEntry (controls successor) ''r1'' = None" "owner_state successor = close_session_pool returned_pools ''r1''"
  "(server_step toy_pbkdf2 pool_runs)\<^sup>*\<^sup>* departed successor" "handler_at (sessions successor ! 0) = HandlerDone"
proof -
  obtain s0 where s0: "sessions departed = [s0]" "handler_at s0 = HandlerDone"
    using departed(1) by blast
  have none: "GetEntry (controls departed) ''r2'' = None"
    by (simp add: departed(4) served_eval log_on_eval Remove_entry_def)
  let ?l = "log_on_as ''r2'' departed"
  have l: "\<exists>s1. sessions ?l = [s0, s1] \<and> handler_at s1 = ReadControl \<and> \<not> conn_closed s1 \<and> runID s1 = ''r2'' \<and> registeredProxies s1 = {} \<and>
      sendCh (writer s1) = make_chan controlSendChSize"
    "HRouter ?l = HRouter departed" "owner_state ?l = owner_state departed"
    "GetEntry (controls ?l) ''r1'' = None"
    using s0 none departed(2)
    by (simp_all add: log_on_as_def register_session_eq start_controlLoop_def upd_session_def go_to_def new_session_def sendLoop_def
        set_entry_def control_table.lookup_insert Let_def)
  then obtain s1 where s1: "sessions ?l = [s0, s1]" "handler_at s1 = ReadControl" "\<not> conn_closed s1" "runID s1 = ''r2''"
      "registeredProxies s1 = {}" "sendCh (writer s1) = make_chan controlSendChSize"
    by blast
  obtain r where r: "handleNewProxy (Some (Remove web_router ''web'')) web ''r2'' {} =
     (Some r, {''web''}, \<lparr>newproxyresp_ProxyName = ''web'', newproxyresp_RemoteAddr = '':80'', newproxyresp_Error = []\<rparr>)"
     "ServeHTTP r web_request = Proxied (web_route ''r2'')"
    using web_request_proxied(2) by blast
  show "\<exists>r. HRouter successor = Some r \<and> ServeHTTP r web_request = Proxied (web_route ''r2'')"
    "GetEntry (controls successor) ''r1'' = None" "owner_state successor = close_session_pool returned_pools ''r1''"
    "handler_at (sessions successor ! 0) = HandlerDone"
    using s0(2) s1 l(2-4) r departed(3,5) by (simp_all add: successor_def new_proxy_def)
  have "(server_step toy_pbkdf2 pool_runs)\<^sup>*\<^sup>* departed ?l"
    by (rule log_on_as_steps) (simp_all add: toy_pbkdf2_length)
  moreover have "(server_step toy_pbkdf2 pool_runs)\<^sup>*\<^sup>* ?l successor"
    unfolding successor_def using s1 by (intro new_proxy_steps) (simp_all add: make_chan_def controlSendChSize_def)
  ultimately show "(server_step toy_pbkdf2 pool_runs)\<^sup>*\<^sup>* departed successor"
    by (rule rtranclp_trans)
qed

text \<open>
  C25: The transport's key does not separate clients. It is made of domain, location and proxy name, not of the run
  id, so an idle connection survives its client: the system reaches a state in which the session of \<^verbatim>\<open>r1\<close> is cleaned up,
  with its entry, its route and its pool gone, and a request for the route of another client, \<^verbatim>\<open>r2\<close>, is sent over the
  connection that was offered by \<^verbatim>\<open>r1\<close> and wrapped for the route of \<^verbatim>\<open>r1\<close>.
\<close>

theorem idle_connection_crosses_clients:
  "\<exists>s pc. system_reachable toy_pbkdf2 no_idna default_config s \<and> Has (web_route ''r2'') pc \<in># reqs s \<and>
     pc_route pc = web_route ''r1'' \<and> (0, pc_conn pc, ''r1'') \<in> set (work_conns (sys_pools s)) \<and>
     (\<exists>r. HRouter (sys_srv s) = Some r \<and> ServeHTTP r web_request = Proxied (web_route ''r2'')) \<and>
     handler_at (sessions (sys_srv s) ! 0) = HandlerDone \<and>
     GetEntry (controls (sys_srv s)) ''r1'' = None \<and> Registry_Get (registry (sys_pools s)) ''r1'' = None"
proof -
  let ?s1 = "idle_sys\<lparr>sys_srv := successor\<rparr>"
  let ?s2 = "?s1\<lparr>reqs := {#Want (web_route ''r2'')#}\<rparr>"
  let ?s3 = "?s2\<lparr>idle_conns := [], reqs := {#Has (web_route ''r2'') web_pc#}\<rparr>"
  have fields: "reqs idle_sys = {#}" "idle_conns idle_sys = [web_pc]"
    by (simp_all add: idle_sys_def)
  have pools: "sys_pools ?s3 = close_session_pool returned_pools ''r1''"
    using successor(3) by simp
  have close: "Registry_Get (registry (close_session_pool returned_pools ''r1'')) ''r1'' = None"
      "work_conns (close_session_pool returned_pools ''r1'') = [(0, 7, ''r1'')]"
    by (simp_all add: close_session_pool_eq [of _ _ 0] returned_pools_def parked_pools_def offered_pools_def Registry_Get_def)
  have "run_steps idle_sys ?s1"
    using departed(6) successor(4) by (intro server_runs) (rule rtranclp_trans)
  moreover have "system_step toy_pbkdf2 no_idna ?s1 ?s2"
    using successor(1) system_step.arrive [of ?s1 _ web_request "web_route ''r2''" toy_pbkdf2 no_idna] fields(1) by auto
  moreover have "system_step toy_pbkdf2 no_idna ?s2 ?s3"
  proof (rule system_step.reuse)
    have "routeKey no_idna (web_route ''r2'') = pc_key no_idna web_pc"
      by (simp add: routeKey_def pc_key_def web_pc_def routeDialKey_def web_route_def route_cfg_def)
    then show "queueForIdleConn no_idna (routeKey no_idna (web_route ''r2'')) (idle_conns ?s2) = Some (web_pc, [])"
      using fields(2) by (simp add: queueForIdleConn_def idle_under_def)
  qed simp
  ultimately have "system_reachable toy_pbkdf2 no_idna default_config ?s3"
    using idle_sys_reachable unfolding system_reachable_def by (meson rtranclp_trans rtranclp.rtrancl_into_rtrancl)
  then show ?thesis
    using successor(1,2,5) close pools by (intro exI [of _ ?s3] exI [of _ web_pc]) (simp add: web_pc_def)
qed

end
