(* ===== verification/Drps_Main.thy ===== *)
theory Drps_Main
  imports Path_Props
begin

text \<open>
  The process, \<^verbatim>\<open>cmd/drps/main.go\<close>: \<open>main_start\<close> builds the server and listens; \<^verbatim>\<open>runFrpcAccept\<close> starts a goroutine
  \<^verbatim>\<open>handleFrpcConnection\<close> for each connection, which opens a yamux session on it and hands every stream of the session to
  \<open>HandleConnection\<close>. \<open>process_step\<close> interleaves these goroutines with the steps of the system: here first messages come
  from streams only. It refines \<open>system_step\<close>, so that all that holds of the system holds of the process.
  yamux is not in the repository; \<open>yamux_Server\<close> tells for which configurations \<^verbatim>\<open>yamux.Server\<close> succeeds.
\<close>

section \<open>Setting up\<close>

definition httpReadHeaderTimeout :: int where "httpReadHeaderTimeout = 60 * 1000000000"

record http_Server =
  server_Addr :: string
  server_Handler :: "(string \<times> http_handler) list"
  ReadHeaderTimeout :: int

text \<open>The goroutine of an incoming frpc connection: in \<^verbatim>\<open>openYamuxSession\<close>, in \<^verbatim>\<open>AcceptStream\<close>, ended with the connection closed, ended.\<close>

datatype frpc_pc = OpenSession | AcceptStreams | FrpcClosed | FrpcEnded

text \<open>\<open>streams\<close> is the history of the streams that were handed over, by the connection that they came from.\<close>

record process =
  psys :: system
  frpc :: "frpc_pc list"
  streams :: "nat list"
  ended :: bool

text \<open>\<open>listen\<close> tells whether \<^verbatim>\<open>net.Listen\<close> succeeds on an address; otherwise \<^verbatim>\<open>log.Fatalf\<close> ends the process.\<close>

definition main_start ::
  "(bytes \<Rightarrow> bytes \<Rightarrow> nat \<Rightarrow> nat \<Rightarrow> bytes) \<Rightarrow> (string \<Rightarrow> string) \<Rightarrow> (string \<Rightarrow> bool) \<Rightarrow> Config \<Rightarrow> (process \<times> http_Server) option" where
  "main_start pbkdf2 getenv listen cfg =
     (if listen (FrpcAddr cfg)
      then Some (\<lparr>psys = init_system pbkdf2 cfg, frpc = [], streams = [], ended = False\<rparr>,
                 \<lparr>server_Addr = HTTPAddr cfg, server_Handler = buildHTTPMux (getenv ''DRPS_PPROF''),
                  ReadHeaderTimeout = httpReadHeaderTimeout\<rparr>)
      else None)"

section \<open>Running\<close>

definition openYamuxSession :: "(yamux_config \<Rightarrow> bool) \<Rightarrow> Config \<Rightarrow> bool" where
  "openYamuxSession yamux_Server cfg = yamux_Server (yamux_settings cfg)"

text \<open>The first part of \<^verbatim>\<open>handleFrpcConnection\<close>: where its goroutine goes on.\<close>

definition handleFrpcConnection :: "(yamux_config \<Rightarrow> bool) \<Rightarrow> Config \<Rightarrow> frpc_pc" where
  "handleFrpcConnection yamux_Server cfg = (if openYamuxSession yamux_Server cfg then AcceptStreams else FrpcClosed)"

definition running :: "process \<Rightarrow> bool" where
  "running p \<longleftrightarrow> \<not> ended p \<and> \<not> crashed (sys_pools (psys p))"

text \<open>A step of the system in which no stream's first message opens a session or brings a work connection.\<close>

definition no_stream :: "system \<Rightarrow> system \<Rightarrow> bool" where
  "no_stream s s' \<longleftrightarrow> length (sessions (sys_srv s')) = length (sessions (sys_srv s)) \<and>
     work_conns (sys_pools s') = work_conns (sys_pools s)"

inductive process_step ::
  "(bytes \<Rightarrow> bytes \<Rightarrow> nat \<Rightarrow> nat \<Rightarrow> bytes) \<Rightarrow> (string \<Rightarrow> string option) \<Rightarrow> (yamux_config \<Rightarrow> bool) \<Rightarrow> Config \<Rightarrow>
   process \<Rightarrow> process \<Rightarrow> bool" for pbkdf2 idna yamux_Server cfg where
  accept_error: "running p \<Longrightarrow> process_step pbkdf2 idna yamux_Server cfg p p"
| accept: "running p \<Longrightarrow> process_step pbkdf2 idna yamux_Server cfg p (p\<lparr>frpc := frpc p @ [OpenSession]\<rparr>)"
| open_session: "running p \<Longrightarrow> i < length (frpc p) \<Longrightarrow> frpc p ! i = OpenSession \<Longrightarrow>
     process_step pbkdf2 idna yamux_Server cfg p (p\<lparr>frpc := (frpc p)[i := handleFrpcConnection yamux_Server cfg]\<rparr>)"
| stream: "running p \<Longrightarrow> i < length (frpc p) \<Longrightarrow> frpc p ! i = AcceptStreams \<Longrightarrow>
     HandleConnection pbkdf2 conn_write iv rnd w inbound c (sys_srv (psys p)) = (w', srv', es) \<Longrightarrow> length rnd = 8 \<Longrightarrow>
     process_step pbkdf2 idna yamux_Server cfg p (p\<lparr>psys := (psys p)\<lparr>sys_srv := srv'\<rparr>, streams := streams p @ [i]\<rparr>)"
| stream_error: "running p \<Longrightarrow> i < length (frpc p) \<Longrightarrow> frpc p ! i = AcceptStreams \<Longrightarrow>
     process_step pbkdf2 idna yamux_Server cfg p (p\<lparr>frpc := (frpc p)[i := FrpcEnded]\<rparr>)"
| goroutines: "running p \<Longrightarrow> system_step pbkdf2 idna (psys p) s' \<Longrightarrow> no_stream (psys p) s' \<Longrightarrow>
     process_step pbkdf2 idna yamux_Server cfg p (p\<lparr>psys := s'\<rparr>)"
| serve_error: "running p \<Longrightarrow> process_step pbkdf2 idna yamux_Server cfg p (p\<lparr>ended := True\<rparr>)"

definition process_reachable ::
  "(bytes \<Rightarrow> bytes \<Rightarrow> nat \<Rightarrow> nat \<Rightarrow> bytes) \<Rightarrow> (string \<Rightarrow> string option) \<Rightarrow> (yamux_config \<Rightarrow> bool) \<Rightarrow> Config \<Rightarrow> process \<Rightarrow> bool" where
  "process_reachable pbkdf2 idna yamux_Server cfg p \<longleftrightarrow>
     (\<exists>getenv listen p0 hs. main_start pbkdf2 getenv listen cfg = Some (p0, hs) \<and>
        (process_step pbkdf2 idna yamux_Server cfg)\<^sup>*\<^sup>* p0 p)"

section \<open>Refinement\<close>

lemma process_step_system:
  assumes "process_step pbkdf2 idna yamux_Server cfg p p'"
  shows "(system_step pbkdf2 idna)\<^sup>=\<^sup>= (psys p) (psys p')"
  using assms
proof cases
  case (stream i iv rnd w inbound c w' srv' es)
  then show ?thesis
    using system_step.server [OF server_step.accept [OF stream(5,6)]] by simp
qed simp_all

lemma process_system: "process_reachable pbkdf2 idna yamux_Server cfg p \<Longrightarrow> system_reachable pbkdf2 idna cfg (psys p)"
proof -
  assume "process_reachable pbkdf2 idna yamux_Server cfg p"
  then obtain getenv listen p0 hs where start: "main_start pbkdf2 getenv listen cfg = Some (p0, hs)"
    and run: "(process_step pbkdf2 idna yamux_Server cfg)\<^sup>*\<^sup>* p0 p"
    by (auto simp: process_reachable_def)
  from run show ?thesis
  proof (induction rule: rtranclp_induct)
    case base
    then show ?case
      using start by (auto simp: main_start_def system_reachable_def split: if_splits)
  next
    case (step p p')
    then show ?case
      using process_step_system [OF step(2)] unfolding system_reachable_def by (auto intro: rtranclp.rtrancl_into_rtrancl)
  qed
qed

section \<open>Streams\<close>

definition streams_inv :: "(yamux_config \<Rightarrow> bool) \<Rightarrow> Config \<Rightarrow> process \<Rightarrow> bool" where
  "streams_inv yamux_Server cfg p \<longleftrightarrow>
     length (sessions (sys_srv (psys p))) + length (work_conns (sys_pools (psys p))) \<le> length (streams p) \<and>
     (\<forall>i < length (frpc p). frpc p ! i \<in> {AcceptStreams, FrpcEnded} \<longrightarrow> openYamuxSession yamux_Server cfg) \<and>
     (\<forall>i \<in> set (streams p). i < length (frpc p) \<and> frpc p ! i \<in> {AcceptStreams, FrpcEnded})"

lemma stream_opens_one:
  assumes "HandleConnection pbkdf2 write iv rnd w inbound c srv = (w', srv', es)" "length rnd = 8"
    and "OnWorkConn srv = Some (put_work_conn capacity)"
  shows "length (sessions srv') + length (work_conns (owner_state srv')) \<le>
    Suc (length (sessions srv) + length (work_conns (owner_state srv)))"
  using assms(1,2)
proof (cases rule: HandleConnection_cases)
  case 2
  then show ?thesis by (auto simp: opened_def)
next
  case (3 f m)
  then show ?thesis
    using assms(3) by (auto simp: put_work_conn_def get_pool_def split: prod.split)
qed simp

lemma streams_inv_step:
  assumes step: "process_step pbkdf2 idna yamux_Server cfg p p'" and srv: "stack_reachable pbkdf2 cfg (sys_srv (psys p))"
    and inv: "streams_inv yamux_Server cfg p"
  shows "streams_inv yamux_Server cfg p'"
  using step
proof cases
  case (stream i iv rnd w inbound c w' srv' es)
  have "OnWorkConn (sys_srv (psys p)) = Some (put_work_conn (PoolCapacity cfg))"
    using stack_serves [OF srv] by (simp add: stack.serves_def)
  from stream_opens_one [OF stream(5,6) this] show ?thesis
    using inv stream by (auto simp: streams_inv_def)
next
  case (goroutines s')
  then show ?thesis using inv by (simp add: streams_inv_def no_stream_def)
next
  case accept
  then show ?thesis using inv by (auto simp: streams_inv_def nth_append less_Suc_eq)
next
  case (open_session i)
  then show ?thesis
    using inv by (auto simp: streams_inv_def handleFrpcConnection_def nth_list_update split: if_splits)
next
  case (stream_error i)
  then show ?thesis
    using inv by (auto simp: streams_inv_def nth_list_update)
qed (use inv in \<open>simp_all add: streams_inv_def\<close>)

lemma streams_inv_reachable:
  assumes "process_reachable pbkdf2 idna yamux_Server cfg p" shows "streams_inv yamux_Server cfg p"
proof -
  obtain getenv listen p0 hs where start: "main_start pbkdf2 getenv listen cfg = Some (p0, hs)"
    and run: "(process_step pbkdf2 idna yamux_Server cfg)\<^sup>*\<^sup>* p0 p"
    using assms by (auto simp: process_reachable_def)
  from run show ?thesis
  proof (induction rule: rtranclp_induct)
    case base
    then show ?case
      using start by (auto simp: main_start_def streams_inv_def init_system_def buildServerStack_def no_pools_def Let_def split: if_splits)
  next
    case (step p p')
    have "process_reachable pbkdf2 idna yamux_Server cfg p"
      using start step(1) by (auto simp: process_reachable_def)
    from streams_inv_step [OF step(2) system_stack [OF process_system [OF this]] step(3)] show ?case .
  qed
qed

section \<open>Properties\<close>





text \<open>
  C30: A stream window that passes the configuration's check can still shut everybody out. The value is checked as an int and then converted to
  32 bits; when what is left is below the 256 KiB that yamux demands (the hypothesis), for example with 2 to the 32, every frpc connection is closed right after it
  was accepted. In no reachable state is there a session, a work connection or a handed-over stream, and every HTTP request is answered with 404.
\<close>

theorem truncated_window_serves_nobody:
  assumes "\<And>c. yamux_Server c \<Longrightarrow> 256 * 1024 \<le> uint (MaxStreamWindowSize c)"
    and "YamuxMaxStreamWindow cfg mod 2 ^ 32 < 256 * 1024"
    and "process_reachable pbkdf2 idna yamux_Server cfg p"
  shows "sessions (sys_srv (psys p)) = [] \<and> work_conns (sys_pools (psys p)) = [] \<and> streams p = [] \<and>
    set (frpc p) \<subseteq> {OpenSession, FrpcClosed} \<and>
    (\<forall>rt r. HRouter (sys_srv (psys p)) = Some rt \<longrightarrow> (\<exists>h b. ServeHTTP rt r = Reply 404 h b))"
proof -
  have "uint (MaxStreamWindowSize (yamux_settings cfg)) = YamuxMaxStreamWindow cfg mod 2 ^ 32"
    by (simp add: yamux_settings_def uint_word_of_int)
  then have no: "\<not> openYamuxSession yamux_Server cfg"
    using assms(1) [of "yamux_settings cfg"] assms(2) by (auto simp: openYamuxSession_def)
  have inv: "streams_inv yamux_Server cfg p"
    by (rule streams_inv_reachable [OF assms(3)])
  have none: "streams p = []"
    using inv no unfolding streams_inv_def by (metis list.set_intros(1) neq_Nil_conv)
  then have empty: "sessions (sys_srv (psys p)) = []" "work_conns (sys_pools (psys p)) = []"
    using inv by (simp_all add: streams_inv_def)
  have "f \<in> {OpenSession, FrpcClosed}" if "f \<in> set (frpc p)" for f
    using inv no that unfolding streams_inv_def in_set_conv_nth by (cases f) auto
  moreover have "\<exists>h b. ServeHTTP rt r = Reply 404 h b" if "HRouter (sys_srv (psys p)) = Some rt" for rt r
  proof -
    have reach: "server_reachable pbkdf2 pool_moves (sys_srv (psys p))"
      by (rule stack_server_reachable [OF system_stack [OF process_system [OF assms(3)]]])
    have "Lookup rt (Host r) (URL_Path r) = None"
    proof (rule ccontr)
      assume "Lookup rt (Host r) (URL_Path r) \<noteq> None"
      moreover have "routes_within {} (Some rt)"
        using routes_inv_reachable [OF reach] that empty(1) by (simp add: run_ids_def)
      ultimately show False
        using Lookup_domain [of rt "Host r" "URL_Path r"] unfolding routes_within_def by fastforce
    qed
    then show ?thesis by (simp add: ServeHTTP_def http_Error_def)
  qed
  ultimately show ?thesis
    using none empty by blast
qed

definition window_config :: Config where
  "window_config = Load [] (\<lambda>v. if v = ''DRPS_YAMUX_MAX_STREAM_WINDOW'' then strconv_Itoa (2 ^ 32) else [])"

theorem truncated_window_serves_nobody_witness:
  "\<exists>p. process_reachable toy_pbkdf2 no_idna (\<lambda>c. 256 * 1024 \<le> uint (MaxStreamWindowSize c)) window_config p \<and>
     frpc p = [FrpcClosed] \<and> sessions (sys_srv (psys p)) = [] \<and> set (frpc p) \<subseteq> {OpenSession, FrpcClosed}"
proof -
  let ?y = "\<lambda>c. 256 * 1024 \<le> uint (MaxStreamWindowSize c)"
  let ?step = "process_step toy_pbkdf2 no_idna ?y window_config"
  let ?p = "\<lambda>f. \<lparr>psys = init_system toy_pbkdf2 window_config, frpc = f, streams = [], ended = False\<rparr> :: process"
  have w: "YamuxMaxStreamWindow window_config = 2 ^ 32"
    using env_int_Itoa [of "2 ^ 32" "\<lambda>n. n \<ge> 256 * 1024"] by (simp add: window_config_def Load_def Let_def)
  have run: "running (?p f)" for f
    by (simp add: running_def init_system_def buildServerStack_def no_pools_def crashed_def Let_def)
  have "?step (?p []) (?p [OpenSession])"
    using process_step.accept [OF run [of "[]"], of toy_pbkdf2 no_idna ?y window_config] by simp
  moreover have "?step (?p [OpenSession]) (?p [FrpcClosed])"
    using process_step.open_session [OF run [of "[OpenSession]"], of 0 toy_pbkdf2 no_idna ?y window_config] w
    by (simp add: handleFrpcConnection_def openYamuxSession_def yamux_settings_def)
  moreover have "\<exists>hs. main_start toy_pbkdf2 (\<lambda>_. []) (\<lambda>_. True) window_config = Some (?p [], hs)"
    by (simp add: main_start_def)
  ultimately have reach: "process_reachable toy_pbkdf2 no_idna ?y window_config (?p [FrpcClosed])"
    unfolding process_reachable_def by (meson converse_rtranclp_into_rtranclp r_into_rtranclp)
  have "YamuxMaxStreamWindow window_config mod 2 ^ 32 < 256 * 1024"
    using w by simp
  from truncated_window_serves_nobody [OF _ this reach] reach show ?thesis
    by (intro exI [of _ "?p [FrpcClosed]"]) auto
qed

end
