(* ===== verification/Dial_Props.thy ===== *)
theory Dial_Props
  imports Path_Props
begin

text \<open>
  Liveness of the HTTP side: every request that waits has a dial of its own, every dial that found a pool has a
  goroutine in \<^verbatim>\<open>Get\<close> or a result that nobody took, and such a goroutine always comes back, at the latest by its timeout. So a
  waiting request can always be answered, by a connection or an error, without the help of any client.
\<close>

section \<open>Goroutines in Get\<close>








lemma sum_pool [simp]:
  "sum_list (map ((\<lambda>e. if fst e = p then f (snd e) else 0) \<circ> Pair q) es) = (if q = p then sum_list (map f es) else (0::nat))"
  "(\<Sum>t\<in>#image_mset (Pair q) (mset ts). if fst t = p then g (snd t) else 0) = (if q = p then sum_list (map g ts) else (0::nat))"
  by (induction es; simp) (induction ts; simp)







section \<open>Dials\<close>






section \<open>Property\<close>










end
