(* ===== verification/Msg_Buffers.thy ===== *)
theory Msg_Buffers
  imports Messages
begin

text \<open>
  \<^verbatim>\<open>WriteMsg\<close> and \<^verbatim>\<open>ReadMsg\<close> of \<^verbatim>\<open>internal/msg/msg.go\<close> with their pooled buffers. \<open>Messages\<close> has what they compute; here are the
  buffers in which they compute it: a \<^verbatim>\<open>sync.Pool\<close> shared by all goroutines, buffers that are resliced over what
  an earlier message left in them, and any number of calls interleaved. \<open>buf_exec\<close> is one step of one call; buffers
  are addresses in a heap, so that two calls with the same buffer would see each other's bytes.
\<close>

section \<open>Package initialisation\<close>

text \<open>The name that \<^verbatim>\<open>%T\<close> prints, and the loop of \<^verbatim>\<open>init\<close> over \<^verbatim>\<open>typeTo\<close>, whose entries come in any order.\<close>

fun fmt_T :: "MsgType \<Rightarrow> string" where
  "fmt_T TLogin = ''*msg.Login''" | "fmt_T TLoginResp = ''*msg.LoginResp''" | "fmt_T TNewProxy = ''*msg.NewProxy''"
| "fmt_T TNewProxyResp = ''*msg.NewProxyResp''" | "fmt_T TCloseProxy = ''*msg.CloseProxy''"
| "fmt_T TReqWorkConn = ''*msg.ReqWorkConn''" | "fmt_T TNewWorkConn = ''*msg.NewWorkConn''"
| "fmt_T TStartWorkConn = ''*msg.StartWorkConn''" | "fmt_T TPing = ''*msg.Ping''" | "fmt_T TPong = ''*msg.Pong''"

fun msgToType_init :: "(char \<times> MsgType) list \<Rightarrow> (string \<rightharpoonup> char) \<Rightarrow> string \<rightharpoonup> char" where
  "msgToType_init [] msgToType = msgToType"
| "msgToType_init ((b, fn) # rest) msgToType = msgToType_init rest (msgToType(fmt_T fn \<mapsto> b))"

lemma fmt_T_inj: "fmt_T t = fmt_T t' \<Longrightarrow> t = t'"
  by (cases t; cases t') simp_all

lemma msgToType_init_other: "t \<notin> snd ` set xs \<Longrightarrow> msgToType_init xs f (fmt_T t) = f (fmt_T t)"
  by (induction xs f rule: msgToType_init.induct) (auto dest: fmt_T_inj)

lemma msgToType_init_entry:
  "distinct (map snd xs) \<Longrightarrow> (b, t) \<in> set xs \<Longrightarrow> msgToType_init xs f (fmt_T t) = Some b"
proof (induction xs f rule: msgToType_init.induct)
  case (2 c u xs f)
  then show ?case
    using msgToType_init_other [of u xs "f(fmt_T u \<mapsto> c)"] by (fastforce simp: image_iff)
qed simp

text \<open>The table agrees with \<^verbatim>\<open>TypeOf\<close>, whatever the order of the loop.\<close>

lemma msgToType_TypeOf:
  assumes "distinct (map fst xs)" "map_of xs = typeTo"
  shows "msgToType_init xs Map.empty (fmt_T (msg_type m)) = Some (TypeOf m)"
proof (rule msgToType_init_entry)
  have typeTo: "typeTo b = Some t \<Longrightarrow> typeTo c = Some t \<Longrightarrow> b = c" for b c t
    by (auto simp: typeTo_def split: if_splits)
  show "(TypeOf m, msg_type m) \<in> set xs"
    using map_of_SomeD [of xs] assms(2) typeTo_TypeOf [of m] by simp
  show "distinct (map snd xs)"
    unfolding distinct_map
  proof
    show "distinct xs"
      using assms(1) by (simp add: distinct_map)
    show "inj_on snd (set xs)"
    proof (rule inj_onI)
      fix p q assume "p \<in> set xs" "q \<in> set xs" "snd p = snd q"
      moreover have "typeTo (fst r) = Some (snd r)" if "r \<in> set xs" for r
        using assms map_of_is_SomeI [of xs "fst r" "snd r"] that by simp
      ultimately have "typeTo (fst p) = Some (snd p)" "typeTo (fst q) = Some (snd p)" "snd p = snd q"
        by auto
      then show "p = q" using typeTo by (metis prod_eqI)
    qed
  qed
qed

section \<open>Buffers\<close>

definition maxPooledBufSize :: nat where "maxPooledBufSize = 64 * 1024"

text \<open>
  \<open>bufs\<close> are the arrays behind the slices, whose lengths are the capacities; \<open>bufPool\<close> the buffers in the pool. \<open>sent\<close> and
  \<open>received\<close> are histories: what each \<^verbatim>\<open>WriteMsg\<close> gave to its writer, and what each \<^verbatim>\<open>ReadMsg\<close> returned for its input.
\<close>

record buffers =
  bufs :: "bytes list"
  bufPool :: "nat list"
  sent :: "(Message \<times> bytes) list"
  received :: "(bytes \<times> (msg_error + Message \<times> bytes)) list"

definition buf_alloc :: "nat \<Rightarrow> buffers \<Rightarrow> buffers \<times> nat" where
  "buf_alloc n s = (s\<lparr>bufs := bufs s @ [replicate n 0]\<rparr>, length (bufs s))"

text \<open>\<^verbatim>\<open>Get\<close> returns any buffer of the pool or, by \<^verbatim>\<open>New\<close>, a new one of capacity 4096.\<close>

definition bufPool_New :: "buffers \<Rightarrow> buffers \<times> nat" where
  "bufPool_New s = buf_alloc 4096 s"

definition bufPool_Get :: "buffers \<Rightarrow> (buffers \<times> nat) list" where
  "bufPool_Get s = bufPool_New s # map (\<lambda>b. (s\<lparr>bufPool := remove1 b (bufPool s)\<rparr>, b)) (bufPool s)"

text \<open>\<^verbatim>\<open>if cap(buf) < need { make } else { buf[:need] }\<close>, and the return to the pool.\<close>

definition buf_reslice :: "nat \<Rightarrow> buffers \<Rightarrow> nat \<Rightarrow> buffers \<times> nat" where
  "buf_reslice need s b = (if length (bufs s ! b) < need then buf_alloc need s else (s, b))"

definition buf_release :: "nat \<Rightarrow> buffers \<Rightarrow> buffers" where
  "buf_release b s = (if length (bufs s ! b) \<le> maxPooledBufSize then s\<lparr>bufPool := b # bufPool s\<rparr> else s)"

text \<open>\<^verbatim>\<open>copy(dst[i:], src)\<close>.\<close>

definition copy_at :: "nat \<Rightarrow> bytes \<Rightarrow> bytes \<Rightarrow> bytes" where
  "copy_at i src dst = take i dst @ take (length dst - i) src @ drop (i + length src) dst"

section \<open>The calls\<close>

text \<open>
  Where a call is. A writer: before \<^verbatim>\<open>Get\<close>, with its buffer, with the filled slice, after \<^verbatim>\<open>Write\<close>. A reader: at the header, before
  \<^verbatim>\<open>Get\<close>, with its buffer, with the body in it, with its result.
\<close>

datatype buf_pc =
    WGet Message | WFill Message nat | WSend Message nat nat | WPut nat
  | RHeader bytes | RGet bytes MsgType bytes nat | RFill bytes MsgType bytes nat nat | RDecode bytes MsgType bytes nat nat
  | RPut bytes nat "msg_error + Message \<times> bytes"

definition returns :: "bytes \<Rightarrow> msg_error + Message \<times> bytes \<Rightarrow> buffers \<Rightarrow> buffers" where
  "returns inb res s = s\<lparr>received := received s @ [(inb, res)]\<rparr>"

fun buf_exec :: "buffers \<Rightarrow> buf_pc \<Rightarrow> (buffers \<times> buf_pc option) list" where
  "buf_exec s (WGet m) = map (\<lambda>(s', b). (s', Some (WFill m b))) (bufPool_Get s)"
| "buf_exec s (WFill m b) =
     (let body = bytes_of_string (json_Marshal m);
          need = headerSize + length body;
          (s1, b1) = buf_reslice need s b;
          buf = (bufs s1 ! b1)[0 := of_char (TypeOf m)];
          buf = copy_at 1 (be_put 8 (length body)) buf;
          buf = copy_at headerSize body buf
      in [(s1\<lparr>bufs := (bufs s1)[b1 := buf]\<rparr>, Some (WSend m b1 need))])"
| "buf_exec s (WSend m b need) = [(s\<lparr>sent := sent s @ [(m, take need (bufs s ! b))]\<rparr>, Some (WPut b))]"
| "buf_exec s (WPut b) = [(buf_release b s, None)]"
| "buf_exec s (RHeader inb) =
     [case io_ReadFull inb 1 of
        Inl e \<Rightarrow> (returns inb (Inl e) s, None)
      | Inr (typeBuf, r1) \<Rightarrow>
          (case io_ReadFull r1 8 of
             Inl e \<Rightarrow> (returns inb (Inl e) s, None)
           | Inr (lenBuf, r2) \<Rightarrow>
               (let length = int64 (be_get lenBuf);
                    typeByte = char_of (unat (hd typeBuf))
                in if length < 0 \<or> length > int MaxBodySize then (returns inb (Inl (InvalidBodySize length)) s, None)
                   else case typeTo typeByte of
                          None \<Rightarrow> (returns inb (Inl (UnknownTypeByte typeByte)) s, None)
                        | Some t \<Rightarrow> (s, Some (RGet inb t r2 (nat length)))))]"
| "buf_exec s (RGet inb t r need) = map (\<lambda>(s', b). (s', Some (RFill inb t r need b))) (bufPool_Get s)"
| "buf_exec s (RFill inb t r need b) =
     (let (s1, b1) = buf_reslice need s b
      in [case io_ReadFull r need of
            Inl e \<Rightarrow> (s1\<lparr>bufs := (bufs s1)[b1 := copy_at 0 r (bufs s1 ! b1)]\<rparr>, Some (RPut inb b1 (Inl e)))
          | Inr (body, r3) \<Rightarrow> (s1\<lparr>bufs := (bufs s1)[b1 := copy_at 0 body (bufs s1 ! b1)]\<rparr>, Some (RDecode inb t r3 need b1))])"
| "buf_exec s (RDecode inb t r3 need b) =
     [(s, Some (RPut inb b
         (case json_Unmarshal (string_of_bytes (take need (bufs s ! b))) t of
            None \<Rightarrow> Inl UnmarshalError
          | Some m \<Rightarrow> Inr (m, r3))))]"
| "buf_exec s (RPut inb b res) = [(returns inb res (buf_release b s), None)]"

section \<open>Interleavings\<close>

text \<open>Any number of calls; the collector may empty the pool at any time.\<close>

record buf_sys =
  shared :: buffers
  calls :: "buf_pc multiset"

definition init_bufs :: buf_sys where
  "init_bufs = \<lparr>shared = \<lparr>bufs = [], bufPool = [], sent = [], received = []\<rparr>, calls = {#}\<rparr>"

inductive buf_step :: "buf_sys \<Rightarrow> buf_sys \<Rightarrow> bool" where
  call_WriteMsg: "buf_step s (s\<lparr>calls := add_mset (WGet m) (calls s)\<rparr>)"
| call_ReadMsg: "buf_step s (s\<lparr>calls := add_mset (RHeader inb) (calls s)\<rparr>)"
| collect: "mset xs \<subseteq># mset (bufPool (shared s)) \<Longrightarrow> buf_step s (s\<lparr>shared := (shared s)\<lparr>bufPool := xs\<rparr>\<rparr>)"
| run: "calls s = add_mset t M \<Longrightarrow> (b, k) \<in> set (buf_exec (shared s) t) \<Longrightarrow>
     buf_step s (s\<lparr>shared := b, calls := M + (case k of None \<Rightarrow> {#} | Some t' \<Rightarrow> {#t'#})\<rparr>)"

definition buf_reachable :: "buf_sys \<Rightarrow> bool" where
  "buf_reachable s \<longleftrightarrow> buf_step\<^sup>*\<^sup>* init_bufs s"

section \<open>Invariants\<close>

fun holds :: "buf_pc \<Rightarrow> nat multiset" where
  "holds (WFill m b) = {#b#}" | "holds (WSend m b n) = {#b#}" | "holds (WPut b) = {#b#}"
| "holds (RFill i t r n b) = {#b#}" | "holds (RDecode i t r n b) = {#b#}" | "holds (RPut i b res) = {#b#}"
| "holds _ = {#}"

definition owned :: "buf_sys \<Rightarrow> nat multiset" where
  "owned s = mset (bufPool (shared s)) + sum_mset (image_mset holds (calls s))"

text \<open>What is left of \<^verbatim>\<open>ReadMsg\<close> when the header has been accepted.\<close>

definition read_body :: "MsgType \<Rightarrow> bytes \<Rightarrow> nat \<Rightarrow> msg_error + Message \<times> bytes" where
  "read_body t r need =
     (case io_ReadFull r need of
        Inl e \<Rightarrow> Inl e
      | Inr (body, r3) \<Rightarrow>
          (case json_Unmarshal (string_of_bytes body) t of None \<Rightarrow> Inl UnmarshalError | Some m \<Rightarrow> Inr (m, r3)))"

fun call_ok :: "buffers \<Rightarrow> buf_pc \<Rightarrow> bool" where
  "call_ok s (WSend m b need) \<longleftrightarrow> take need (bufs s ! b) = frame m"
| "call_ok s (RGet inb t r need) \<longleftrightarrow> ReadMsg inb = read_body t r need \<and> need \<le> MaxBodySize"
| "call_ok s (RFill inb t r need b) \<longleftrightarrow> ReadMsg inb = read_body t r need \<and> need \<le> MaxBodySize"
| "call_ok s (RDecode inb t r3 need b) \<longleftrightarrow>
     ReadMsg inb = (case json_Unmarshal (string_of_bytes (take need (bufs s ! b))) t of
        None \<Rightarrow> Inl UnmarshalError | Some m \<Rightarrow> Inr (m, r3))"
| "call_ok s (RPut inb b res) \<longleftrightarrow> ReadMsg inb = res"
| "call_ok s _ \<longleftrightarrow> True"

definition buf_inv :: "buf_sys \<Rightarrow> bool" where
  "buf_inv s \<longleftrightarrow> (\<forall>b. count (owned s) b \<le> (if b < length (bufs (shared s)) then 1 else 0)) \<and>
     (\<forall>t \<in># calls s. call_ok (shared s) t) \<and>
     (\<forall>(m, bs) \<in> set (sent (shared s)). bs = frame m) \<and>
     (\<forall>(inb, res) \<in> set (received (shared s)). res = ReadMsg inb) \<and>
     (\<forall>b \<in> set (bufPool (shared s)). length (bufs (shared s) ! b) \<le> maxPooledBufSize)"

lemma copy_at_fits: "i + length src \<le> length dst \<Longrightarrow> copy_at i src dst = take i dst @ src @ drop (i + length src) dst"
  by (simp add: copy_at_def)

lemma length_copy_at [simp]: "i \<le> length dst \<Longrightarrow> length (copy_at i src dst) = length dst"
  by (simp add: copy_at_def)

text \<open>Whatever an earlier message left in the buffer, the slice that is written is the frame.\<close>

lemma filled_frame:
  assumes "headerSize + length body \<le> length buf" "body = bytes_of_string (json_Marshal m)"
  shows "take (headerSize + length body) (copy_at headerSize body (copy_at 1 (be_put 8 (length body)) (buf[0 := of_char (TypeOf m)]))) =
    frame m"
proof -
  obtain x xs where buf: "buf = x # xs"
    using assms(1) by (cases buf) (auto simp: headerSize_def)
  with assms(1) have "copy_at 1 (be_put 8 (length body)) (buf[0 := of_char (TypeOf m)]) =
      of_char (TypeOf m) # be_put 8 (length body) @ drop 8 xs"
    by (simp add: copy_at_fits headerSize_def)
  moreover have "take (9 + n) (a # p @ q @ r) = a # p @ q" if "length p = 8" "length q = n" for a :: byte and p q r n
    using that by (auto simp: take_Cons')
  ultimately show ?thesis
    using assms(1) buf by (simp add: copy_at_fits headerSize_def frame_def assms(2))
qed

lemma call_ok_cong:
  "call_ok s t \<Longrightarrow> (\<And>b. b \<in># holds t \<Longrightarrow> bufs s' ! b = bufs s ! b) \<Longrightarrow> call_ok s' t"
  by (cases t) auto

lemma buf_reslice_cases:
  assumes "buf_reslice need s b = (s1, b1)" "b < length (bufs s)"
  obtains (fits) "s1 = s" "b1 = b" "need \<le> length (bufs s ! b)"
    | (new) "s1 = s\<lparr>bufs := bufs s @ [replicate need 0]\<rparr>" "b1 = length (bufs s)"
  using assms by (auto simp: buf_reslice_def buf_alloc_def split: if_splits)

lemma buf_Get_cases:
  assumes "(s1, b1) \<in> set (bufPool_Get s)"
  obtains (new) "s1 = s\<lparr>bufs := bufs s @ [replicate 4096 0]\<rparr>" "b1 = length (bufs s)"
    | (pooled) "s1 = s\<lparr>bufPool := remove1 b1 (bufPool s)\<rparr>" "b1 \<in> set (bufPool s)"
  using assms by (auto simp: bufPool_Get_def bufPool_New_def buf_alloc_def)

text \<open>A call only changes a buffer that it holds or that it made, and the buffers it holds and returns are those or come from the pool.\<close>

definition tame :: "nat multiset \<Rightarrow> nat multiset \<Rightarrow> buffers \<Rightarrow> buffers \<Rightarrow> bool" where
  "tame H H' s s' \<longleftrightarrow> length (bufs s) \<le> length (bufs s') \<and>
     (\<forall>b < length (bufs s). b \<notin># H \<longrightarrow> bufs s' ! b = bufs s ! b) \<and>
     (\<forall>b. count (mset (bufPool s') + H') b \<le> count (mset (bufPool s) + H) b +
            (if length (bufs s) \<le> b \<and> b < length (bufs s') then 1 else 0))"

lemma tame_Get: "(s1, b1) \<in> set (bufPool_Get s) \<Longrightarrow> tame {#} {#b1#} s s1"
  by (erule buf_Get_cases) (auto simp: tame_def nth_append)

lemma tame_fill:
  assumes "buf_reslice need s b = (s1, b1)" "b < length (bufs s)"
  shows "tame {#b#} {#b1#} s (s1\<lparr>bufs := (bufs s1)[b1 := x]\<rparr>)"
  using assms by (rule buf_reslice_cases) (auto simp: tame_def nth_append nth_list_update)

lemma tame_release: "tame {#b#} {#} s (buf_release b s)"
  by (auto simp: tame_def buf_release_def)

lemma tame_same: "bufs s' = bufs s \<Longrightarrow> bufPool s' = bufPool s \<Longrightarrow> tame H H s s'"
  by (simp add: tame_def)

lemma tame_returns: "tame H H' s s' \<Longrightarrow> tame H H' s (returns inb res s')"
  by (simp add: tame_def returns_def)

lemma buf_exec_tame:
  assumes "(s', k) \<in> set (buf_exec s t)" "\<forall>b \<in># holds t. b < length (bufs s)"
  shows "tame (holds t) (case k of None \<Rightarrow> {#} | Some t' \<Rightarrow> holds t') s s'"
proof (cases t)
  case (WFill m b)
  then show ?thesis
    using assms by (auto simp: Let_def tame_fill split: prod.splits)
next
  case (RFill i t r n b)
  then show ?thesis
    using assms by (cases "io_ReadFull r n") (auto simp: Let_def tame_fill split: prod.splits)
next
  case (RHeader inb)
  then show ?thesis
    using assms by (auto simp: Let_def tame_same returns_def split: sum.splits prod.splits if_splits option.splits)
qed (use assms in \<open>auto simp: tame_Get tame_release tame_same intro: tame_returns\<close>)

text \<open>What one step of a call establishes about itself.\<close>

lemma ReadMsg_exec_header:
  assumes "(s', k) \<in> set (buf_exec s (RHeader inb))"
  shows "(k = None \<longrightarrow> s' = returns inb (ReadMsg inb) s) \<and> (\<forall>t'. k = Some t' \<longrightarrow> s' = s \<and> call_ok s' t')"
  using assms
  by (auto simp: ReadMsg_def read_body_def Let_def simp del: json_Unmarshal.simps split: sum.splits prod.splits if_splits option.splits)

lemma buf_exec_ok:
  assumes "(s', k) \<in> set (buf_exec s t)" "\<forall>b \<in># holds t. b < length (bufs s)" "call_ok s t"
  shows "case k of None \<Rightarrow> True | Some t' \<Rightarrow> call_ok s' t'"
proof (cases t)
  case (WFill m b)
  let ?body = "bytes_of_string (json_Marshal m)"
  obtain s1 b1 where r: "buf_reslice (headerSize + length ?body) s b = (s1, b1)" by fastforce
  with assms(2) WFill have "headerSize + length ?body \<le> length (bufs s1 ! b1) \<and> b1 < length (bufs s1)"
    by (auto elim: buf_reslice_cases)
  then show ?thesis
    using assms(1) WFill r filled_frame [of ?body "bufs s1 ! b1" m] by (auto simp: Let_def)
next
  case (RFill i t r n b)
  obtain s1 b1 where rs: "buf_reslice n s b = (s1, b1)" by fastforce
  with assms(2) RFill have "n \<le> length (bufs s1 ! b1) \<and> b1 < length (bufs s1)"
    by (auto elim: buf_reslice_cases)
  then show ?thesis
    using assms RFill rs
    by (auto simp: Let_def read_body_def io_ReadFull_def copy_at_def simp del: json_Unmarshal.simps split: if_splits)
next
  case (RHeader inb)
  with ReadMsg_exec_header [of s' k s inb] assms(1) show ?thesis by (auto split: option.split)
qed (use assms in \<open>auto simp del: json_Unmarshal.simps\<close>)

lemma buf_reslice_frame:
  "buf_reslice need s b = (s1, b1) \<Longrightarrow> sent s1 = sent s \<and> received s1 = received s \<and> bufPool s1 = bufPool s"
  by (auto simp: buf_reslice_def buf_alloc_def split: if_splits)

lemma buf_exec_history:
  assumes "(s', k) \<in> set (buf_exec s t)" "call_ok s t"
  shows "set (sent s') \<subseteq> set (sent s) \<union> {(m, frame m) | m. True} \<and>
    set (received s') \<subseteq> set (received s) \<union> {(inb, ReadMsg inb) | inb. True}"
proof (cases t)
  case (RHeader inb)
  with ReadMsg_exec_header [of s' k s inb] assms(1) show ?thesis
    by (cases k) (auto simp: returns_def)
next
  case (WFill m b)
  then show ?thesis
    using assms by (auto simp: Let_def split: prod.splits dest: buf_reslice_frame [OF sym])
next
  case (RFill inb t r n b)
  obtain s1 b1 where rs: "buf_reslice n s b = (s1, b1)" by fastforce
  show ?thesis
    using assms RFill rs buf_reslice_frame [OF rs] by (cases "io_ReadFull r n") auto
qed (use assms in \<open>auto simp: bufPool_Get_def bufPool_New_def buf_alloc_def buf_release_def returns_def\<close>)

lemma buf_exec_pool:
  assumes "(s', k) \<in> set (buf_exec s t)" "b \<in> set (bufPool s')"
  shows "b \<in> set (bufPool s) \<or> b \<in># holds t \<and> length (bufs s' ! b) \<le> maxPooledBufSize"
proof (cases t)
  case (WFill m c)
  then show ?thesis
    using assms by (auto simp: Let_def split: prod.splits dest: buf_reslice_frame [OF sym])
next
  case (RFill inb t r n c)
  obtain s1 b1 where rs: "buf_reslice n s c = (s1, b1)" by fastforce
  show ?thesis
    using assms RFill rs buf_reslice_frame [OF rs] by (cases "io_ReadFull r n") auto
next
  case (RHeader inb)
  with ReadMsg_exec_header [of s' k s inb] assms show ?thesis
    by (cases k) (auto simp: returns_def)
qed (use assms in \<open>auto simp: bufPool_Get_def bufPool_New_def buf_alloc_def buf_release_def returns_def
      dest: set_remove1_subset [THEN subsetD] split: if_splits\<close>)

lemma buf_inv_run:
  assumes inv: "buf_inv s" and t: "calls s = add_mset t M" and exec: "(b', k) \<in> set (buf_exec (shared s) t)"
  shows "buf_inv (s\<lparr>shared := b', calls := M + (case k of None \<Rightarrow> {#} | Some t' \<Rightarrow> {#t'#})\<rparr>)"
proof -
  let ?b = "shared s" and ?H = "case k of None \<Rightarrow> {#} | Some t' \<Rightarrow> holds t'"
  define R where "R = sum_mset (image_mset holds M)"
  have own: "count (mset (bufPool ?b) + holds t + R) c \<le> (if c < length (bufs ?b) then 1 else 0)" for c
    using inv t unfolding buf_inv_def owned_def by (simp add: add.assoc R_def)
  have mem_own: "c < length (bufs ?b)" if "c \<in># mset (bufPool ?b) + holds t + R" for c
    using own [of c] that by (metis count_eq_zero_iff le_zero_eq)
  then have mem: "\<forall>c \<in># holds t. c < length (bufs ?b)" by simp
  have tame: "tame (holds t) ?H ?b b'"
    using exec mem by (rule buf_exec_tame)
  have ok: "call_ok ?b t'" if "t' \<in># calls s" for t'
    using inv that unfolding buf_inv_def by blast
  have frame_pool: "bufs b' ! c = bufs ?b ! c" if "c \<in> set (bufPool ?b) \<or> c \<in># R" for c
  proof -
    have "c \<notin># holds t"
    proof
      assume "c \<in># holds t"
      then have "1 \<le> count (holds t) c" by simp
      moreover have "c \<in># mset (bufPool ?b) + R"
        using that by auto
      then have "1 \<le> count (mset (bufPool ?b) + R) c"
        by (simp only: Suc_le_eq One_nat_def count_greater_zero_iff)
      ultimately have "2 \<le> count (mset (bufPool ?b) + holds t + R) c" by (simp only: count_union)
      with own [of c] show False by (simp split: if_splits)
    qed
    moreover have "c < length (bufs ?b)"
      using that by (intro mem_own) auto
    ultimately show ?thesis using tame unfolding tame_def by blast
  qed
  have "count (mset (bufPool b') + ?H + R) c \<le> (if c < length (bufs b') then 1 else 0)" for c
  proof -
    have "count (mset (bufPool b') + ?H) c \<le> count (mset (bufPool ?b) + holds t) c +
        (if length (bufs ?b) \<le> c \<and> c < length (bufs b') then 1 else 0)" "length (bufs ?b) \<le> length (bufs b')"
      using tame unfolding tame_def by blast+
    with own [of c] show ?thesis by (auto simp del: count_mset_0_iff split: if_splits)
  qed
  moreover have "call_ok b' t'" if "t' \<in># M" for t'
  proof (rule call_ok_cong)
    show "call_ok ?b t'" using ok that t by simp
    fix c assume "c \<in># holds t'"
    with that have "c \<in># R" by (auto simp: R_def)
    then show "bufs b' ! c = bufs ?b ! c" using frame_pool by blast
  qed
  moreover have "case k of None \<Rightarrow> True | Some t' \<Rightarrow> call_ok b' t'"
    using buf_exec_ok [OF exec mem] ok t by simp
  moreover have "length (bufs b' ! c) \<le> maxPooledBufSize" if "c \<in> set (bufPool b')" for c
    using buf_exec_pool [OF exec that] frame_pool [of c] inv unfolding buf_inv_def by auto
  moreover have "(\<forall>(m, bs) \<in> set (sent b'). bs = frame m) \<and> (\<forall>(inb, res) \<in> set (received b'). res = ReadMsg inb)"
    using buf_exec_history [OF exec] ok [of t] t inv unfolding buf_inv_def by fastforce
  ultimately show ?thesis
    by (cases k) (auto simp: buf_inv_def owned_def R_def ac_simps)
qed

lemma buf_inv_reachable: "buf_reachable s \<Longrightarrow> buf_inv s"
  unfolding buf_reachable_def
proof (induction rule: rtranclp_induct)
  case base
  then show ?case by (simp add: init_bufs_def buf_inv_def owned_def)
next
  case (step s s')
  from step(2) show ?case
  proof cases
    case (collect xs)
    have "count (mset xs) c \<le> count (mset (bufPool (shared s))) c" for c
      using collect(2) by (rule mset_subset_eq_count)
    then have "count (owned s') c \<le> count (owned s) c" for c
      using collect(1) by (simp add: owned_def)
    moreover have "count (owned s) c \<le> (if c < length (bufs (shared s')) then 1 else 0)" for c
      using step.IH collect(1) by (simp add: buf_inv_def)
    ultimately have "count (owned s') c \<le> (if c < length (bufs (shared s')) then 1 else 0)" for c
      by (rule le_trans)
    moreover have "set xs \<subseteq> set (bufPool (shared s))"
      using collect(2) by (metis set_mset_mono set_mset_mset)
    moreover have "call_ok (shared s') t = call_ok (shared s) t" for t
      using collect(1) by (cases t) auto
    ultimately show ?thesis
      using step.IH collect(1) unfolding buf_inv_def by auto
  next
    case (run t M b k)
    then show ?thesis using buf_inv_run [OF step.IH run(2,3)] by simp
  qed (use step.IH in \<open>auto simp: buf_inv_def owned_def\<close>)
qed

section \<open>Property\<close>

text \<open>
  C12: Recycled buffers cannot be noticed. In every interleaving of any number of \<^verbatim>\<open>WriteMsg\<close> and \<^verbatim>\<open>ReadMsg\<close> calls that share the pool of
  buffers, each \<^verbatim>\<open>WriteMsg\<close> hands exactly the frame of its message to its writer and each \<^verbatim>\<open>ReadMsg\<close> returns exactly what the definition without
  buffers returns for its input: nothing of what an earlier message left in a buffer is sent or decoded, and no call sees another
  one's bytes. No buffer has two owners, the pool keeps no buffer of more than 64 KiB, and a reader never asks for more than 10240 bytes, whatever the
  peer declares.
\<close>

theorem pooled_messages_exact:
  assumes "buf_reachable s"
  shows "(\<forall>(m, bs) \<in> set (sent (shared s)). bs = frame m \<and> WriteMsg write w m = write w bs) \<and>
    (\<forall>(inb, res) \<in> set (received (shared s)). res = ReadMsg inb) \<and>
    (\<forall>b. count (owned s) b \<le> 1) \<and>
    (\<forall>b \<in> set (bufPool (shared s)). length (bufs (shared s) ! b) \<le> 65536) \<and>
    (\<forall>inb t r need b. RFill inb t r need b \<in># calls s \<longrightarrow> need \<le> 10240)"
proof -
  have inv: "buf_inv s"
    using assms by (rule buf_inv_reachable)
  have "need \<le> 10240" if "RFill inb t r need b \<in># calls s" for inb t r need b
    using inv that unfolding buf_inv_def by (fastforce simp: MaxBodySize_def)
  moreover have "count (owned s) b \<le> (if b < length (bufs (shared s)) then 1 else 0)" for b
    using inv unfolding buf_inv_def by blast
  then have "count (owned s) b \<le> 1" for b
    by (rule le_trans) simp
  ultimately show ?thesis
    using inv unfolding buf_inv_def WriteMsg_def maxPooledBufSize_def by auto
qed

text \<open>A run: a message is written, its buffer goes back to the pool, and is used, with what is in it, to read a shorter message.\<close>

fun drive :: "nat list \<Rightarrow> buffers \<Rightarrow> buf_pc \<Rightarrow> buffers option" where
  "drive [] b t = None"
| "drive (i # is) b t =
     (if i < length (buf_exec b t)
      then (case buf_exec b t ! i of (b', None) \<Rightarrow> Some b' | (b', Some t') \<Rightarrow> drive is b' t')
      else None)"

lemma drive_steps:
  "drive is b t = Some b' \<Longrightarrow> buf_step\<^sup>*\<^sup>* \<lparr>shared = b, calls = {#t#}\<rparr> \<lparr>shared = b', calls = {#}\<rparr>"
proof (induction "is" arbitrary: b t)
  case (Cons i "is")
  obtain b1 k where x: "buf_exec b t ! i = (b1, k)" by fastforce
  with Cons.prems have "(b1, k) \<in> set (buf_exec b t)"
    by (metis drive.simps(2) nth_mem option.distinct(1))
  then have step: "buf_step \<lparr>shared = b, calls = {#t#}\<rparr> \<lparr>shared = b1, calls = (case k of None \<Rightarrow> {#} | Some t' \<Rightarrow> {#t'#})\<rparr>"
    using buf_step.run [of "\<lparr>shared = b, calls = {#t#}\<rparr>" t "{#}" b1 k] by simp
  show ?case
  proof (cases k)
    case None
    with step x Cons.prems show ?thesis by (auto split: if_splits)
  next
    case (Some t')
    then have "drive is b1 t' = Some b'"
      using x Cons.prems by (auto split: if_splits)
    from Cons.IH [OF this] step Some show ?thesis
      by (auto intro: converse_rtranclp_into_rtranclp)
  qed
qed simp

lemma header_of_frame:
  assumes "length (json_Marshal m) \<le> MaxBodySize"
  shows "buf_exec s (RHeader (frame m)) =
    [(s, Some (RGet (frame m) (msg_type m) (bytes_of_string (json_Marshal m)) (length (json_Marshal m))))]"
proof -
  let ?b = "json_Marshal m"
  have "int64 (be_get (be_put 8 (length ?b))) = int (length ?b)"
    using assms by (subst int64_small) (simp_all add: be_get_put MaxBodySize_def)
  then show ?thesis
    using assms by (simp add: frame_def io_ReadFull_def typeTo_TypeOf Let_def)
qed

lemma write_run:
  assumes "headerSize + length (json_Marshal m) \<le> 4096"
  shows "\<exists>x bs. length x = 4096 \<and> drive [0, 0, 0, 0] (shared init_bufs) (WGet m) =
    Some \<lparr>bufs = [x], bufPool = [0], sent = [(m, bs)], received = []\<rparr>"
  using assms
  by (simp add: init_bufs_def bufPool_Get_def bufPool_New_def buf_alloc_def buf_reslice_def buf_release_def maxPooledBufSize_def
      headerSize_def Let_def)

lemma read_run:
  assumes "length (json_Marshal m) \<le> 4096" "length x = 4096"
  shows "\<exists>y res. drive [0, 1, 0, 0, 0] \<lparr>bufs = [x], bufPool = [0], sent = w, received = []\<rparr> (RHeader (frame m)) =
    Some \<lparr>bufs = [y], bufPool = [0], sent = w, received = [(frame m, res)]\<rparr>"
  using assms
  by (simp add: header_of_frame MaxBodySize_def bufPool_Get_def buf_reslice_def buf_release_def maxPooledBufSize_def returns_def
      io_ReadFull_def del: buf_exec.simps(5) json_Unmarshal.simps)

theorem pooled_messages_exact_witness:
  "\<exists>s. buf_reachable s \<and> sent (shared s) = [(Ping \<lparr>ping_PrivilegeKey = ''secret'', ping_Timestamp = 0\<rparr>,
        frame (Ping \<lparr>ping_PrivilegeKey = ''secret'', ping_Timestamp = 0\<rparr>))] \<and>
     received (shared s) = [(frame (Pong \<lparr>pong_Error = []\<rparr>), Inr (Pong \<lparr>pong_Error = []\<rparr>, []))]"
proof -
  let ?m = "Ping \<lparr>ping_PrivilegeKey = ''secret'', ping_Timestamp = 0\<rparr>" and ?r = "Pong \<lparr>pong_Error = []\<rparr>"
  have len: "headerSize + length (json_Marshal ?m) \<le> 4096" "length (json_Marshal ?r) \<le> 4096" and wf: "msg_wf ?r"
    by (simp_all add: headerSize_def msg_wf_def marshal_eval)
  obtain x bs where w: "length x = 4096" "drive [0, 0, 0, 0] (shared init_bufs) (WGet ?m) =
      Some \<lparr>bufs = [x], bufPool = [0], sent = [(?m, bs)], received = []\<rparr>"
    using write_run [OF len(1)] by blast
  obtain y res where r: "drive [0, 1, 0, 0, 0] \<lparr>bufs = [x], bufPool = [0], sent = [(?m, bs)], received = []\<rparr> (RHeader (frame ?r)) =
      Some \<lparr>bufs = [y], bufPool = [0], sent = [(?m, bs)], received = [(frame ?r, res)]\<rparr>" (is "_ = Some ?b")
    using read_run [OF len(2) w(1)] by blast
  have "buf_step init_bufs \<lparr>shared = shared init_bufs, calls = {#WGet ?m#}\<rparr>"
    using buf_step.call_WriteMsg [of init_bufs ?m] by (simp add: init_bufs_def)
  moreover note drive_steps [OF w(2)]
  moreover have "buf_step \<lparr>shared = b, calls = {#}\<rparr> \<lparr>shared = b, calls = {#RHeader (frame ?r)#}\<rparr>" for b
    using buf_step.call_ReadMsg [of "\<lparr>shared = b, calls = {#}\<rparr>" "frame ?r"] by simp
  moreover note drive_steps [OF r]
  ultimately have "buf_reachable \<lparr>shared = ?b, calls = {#}\<rparr>"
    unfolding buf_reachable_def by (meson converse_rtranclp_into_rtranclp rtranclp_trans)
  moreover from pooled_messages_exact [OF this, of "\<lambda>w b. (w, None :: unit option)" "()"]
  have "bs = frame ?m" "res = ReadMsg (frame ?r)"
    by (simp_all del: split_paired_All)
  moreover have "ReadMsg (frame ?r) = Inr (?r, [])"
    using ReadMsg_frame [OF wf, of "[]"] len(2) by (simp add: MaxBodySize_def)
  ultimately show ?thesis
    by (intro exI [of _ "\<lparr>shared = ?b, calls = {#}\<rparr>"]) simp
qed

end
