(* ===== verification/Register_Steps.thy ===== *)
theory Register_Steps
  imports Proxy_Register
begin

text \<open>
  \<^verbatim>\<open>handleNewProxy\<close> as it runs: each \<^verbatim>\<open>Add\<close> and \<^verbatim>\<open>Remove\<close> takes the router's lock by itself, so between them the
  registrations and cleanups of other sessions act on the same table. \<open>reg_exec\<close> is one step of one registration; undisturbed it
  computes \<open>handleNewProxy\<close>. Under interference a registration keeps its promises as long as nobody else uses its proxy
  name, but registrations are not serializable.
\<close>

section \<open>One registration\<close>

text \<open>
  Where the handler is: at the head of the loop over the domains, at the head of the loop over the locations, before the \<^verbatim>\<open>Add\<close> without
  locations, in the rollback loop, before the single \<^verbatim>\<open>Remove\<close>, at its reply. \<open>registered\<close> is the variable of that name.
\<close>

datatype reg_pc =
    RegDomains "string list" "string list"
  | RegLocations string "string list" "string list" "string list"
  | RegRoot string "string list" "string list"
  | RegRollback "string list" string
  | RegRemove string
  | RegReply "string option"

definition reg_start :: "NewProxy \<Rightarrow> reg_pc" where
  "reg_start m = (if newproxy_ProxyType m \<noteq> ''http'' then RegReply (Some ''only http proxy type is supported'')
     else RegDomains (newproxy_CustomDomains m) [])"

fun reg_exec :: "NewProxy \<Rightarrow> string \<Rightarrow> Router \<Rightarrow> reg_pc \<Rightarrow> (Router \<times> reg_pc) option" where
  "reg_exec m runID r (RegDomains [] registered) = Some (r, RegReply None)"
| "reg_exec m runID r (RegDomains (d # ds) registered) =
     Some (r, if newproxy_Locations m \<noteq> [] then RegLocations d (newproxy_Locations m) ds registered else RegRoot d ds registered)"
| "reg_exec m runID r (RegLocations d [] ds registered) = Some (r, RegDomains ds (registered @ [newproxy_ProxyName m]))"
| "reg_exec m runID r (RegLocations d (l # ls) ds registered) =
     Some (case Add r (route_cfg m runID d l) of
        Inl err \<Rightarrow> (r, RegRollback registered err)
      | Inr r' \<Rightarrow> (r', RegLocations d ls ds registered))"
| "reg_exec m runID r (RegRoot d ds registered) =
     Some (case Add r (route_cfg m runID d ''/'') of
        Inl err \<Rightarrow> (r, RegRemove err)
      | Inr r' \<Rightarrow> (r', RegDomains ds (registered @ [newproxy_ProxyName m])))"
| "reg_exec m runID r (RegRollback [] err) = Some (r, RegReply (Some err))"
| "reg_exec m runID r (RegRollback (n # ns) err) = Some (Remove r n, RegRollback ns err)"
| "reg_exec m runID r (RegRemove err) = Some (Remove r (newproxy_ProxyName m), RegReply (Some err))"
| "reg_exec m runID r (RegReply err) = None"



section \<open>Undisturbed\<close>








section \<open>Interleaved\<close>

text \<open>
  Any number of registrations on one table, each with its message, its session's run id and where it is. The cleanup of a session removes
  the names that it registered, at any time; \<open>cleaned\<close> is the history of the names that were removed so.
\<close>

record reg_sys =
  table :: Router
  regs :: "(NewProxy \<times> string \<times> reg_pc) list"
  cleaned :: "string set"

definition init_regs :: reg_sys where
  "init_regs = \<lparr>table = New, regs = [], cleaned = {}\<rparr>"

inductive reg_step :: "reg_sys \<Rightarrow> reg_sys \<Rightarrow> bool" where
  start: "reg_step s (s\<lparr>regs := regs s @ [(m, runID, reg_start m)]\<rparr>)"
| act: "i < length (regs s) \<Longrightarrow> regs s ! i = (m, runID, pc) \<Longrightarrow> reg_exec m runID (table s) pc = Some (r', pc') \<Longrightarrow>
     reg_step s (s\<lparr>table := r', regs := (regs s)[i := (m, runID, pc')]\<rparr>)"
| cleanup: "reg_step s (s\<lparr>table := Remove (table s) n, cleaned := insert n (cleaned s)\<rparr>)"

definition reg_reachable :: "reg_sys \<Rightarrow> bool" where
  "reg_reachable s \<longleftrightarrow> reg_step\<^sup>*\<^sup>* init_regs s"

definition reg_name :: "NewProxy \<times> string \<times> reg_pc \<Rightarrow> string" where
  "reg_name x = newproxy_ProxyName (fst x)"

text \<open>A registration whose proxy name nobody else has used so far.\<close>

definition sole :: "reg_sys \<Rightarrow> nat \<Rightarrow> bool" where
  "sole s i \<longleftrightarrow> (\<forall>j < length (regs s). j \<noteq> i \<longrightarrow> reg_name (regs s ! j) \<noteq> reg_name (regs s ! i)) \<and>
     reg_name (regs s ! i) \<notin> cleaned s"

subsection \<open>The routes of one name\<close>

definition named_routes :: "string \<Rightarrow> Router \<Rightarrow> route_table" where
  "named_routes n r = (\<lambda>k. case routes_of r k of Some rc \<Rightarrow> if ProxyName rc = n then Some rc else None | None \<Rightarrow> None)"

lemma named_routes_Remove:
  "router_wf r \<Longrightarrow> named_routes n (Remove r n') = (if n = n' then Map.empty else named_routes n r)"
  by (auto simp: named_routes_def routes_of_Remove fun_eq_iff split: option.splits)

lemma named_routes_Add:
  assumes "router_wf r" "Add r (route_cfg m runID d l) = Inr r'"
  shows "router_wf r' \<and> named_routes n r' =
    (if n = newproxy_ProxyName m then Proxy_Register.extend m runID (named_routes n r) [(d, normalize_location l)] else named_routes n r)"
proof -
  have "inserted_upto m runID r [(d, normalize_location l)] [(d, normalize_location l)] r'"
    using Add_route_cfg [OF assms(1), where m = m and runID = runID and d = d and l = l] assms(2) by simp
  then show ?thesis
    by (fastforce simp: inserted_upto_def named_routes_def Proxy_Register.extend_def route_cfg_def fun_eq_iff split: option.splits)
qed

lemma named_routes_free:
  "router_wf r \<Longrightarrow> Add r (route_cfg m runID d l) = Inr r' \<Longrightarrow> named_routes n r (d, normalize_location l) = None"
  using Add_route_cfg [of r, where m = m and runID = runID and d = d and l = l] by (auto simp: inserted_upto_def named_routes_def split: option.splits)

subsection \<open>What a registration with a name of its own has done\<close>

text \<open>\<open>T\<close> are the routes with its name. A refused registration leaves at most routes of its first domain, and none without locations.\<close>

definition leftover :: "NewProxy \<Rightarrow> route_table \<Rightarrow> bool" where
  "leftover m T \<longleftrightarrow> (\<forall>k \<in> dom T. newproxy_Locations m \<noteq> [] \<and> newproxy_CustomDomains m \<noteq> [] \<and> fst k = hd (newproxy_CustomDomains m))"

definition added :: "NewProxy \<Rightarrow> string \<Rightarrow> route_table \<Rightarrow> (string \<times> string) list \<Rightarrow> bool" where
  "added m runID T todo \<longleftrightarrow> (\<exists>xs. wanted_keys m (newproxy_CustomDomains m) = xs @ todo \<and> distinct xs \<and> T = Proxy_Register.extend m runID Map.empty xs)"

fun reg_ok :: "NewProxy \<Rightarrow> string \<Rightarrow> route_table \<Rightarrow> reg_pc \<Rightarrow> bool" where
  "reg_ok m runID T (RegDomains ds registered) \<longleftrightarrow> added m runID T (wanted_keys m ds) \<and>
     set registered \<subseteq> {newproxy_ProxyName m} \<and> (registered = [] \<longrightarrow> newproxy_CustomDomains m = ds)"
| "reg_ok m runID T (RegLocations d ls ds registered) \<longleftrightarrow>
     added m runID T (map (\<lambda>l. (d, normalize_location l)) ls @ wanted_keys m ds) \<and> newproxy_Locations m \<noteq> [] \<and>
     set registered \<subseteq> {newproxy_ProxyName m} \<and> (registered = [] \<longrightarrow> newproxy_CustomDomains m = d # ds)"
| "reg_ok m runID T (RegRoot d ds registered) \<longleftrightarrow> added m runID T ((d, ''/'') # wanted_keys m ds) \<and> newproxy_Locations m = [] \<and>
     set registered \<subseteq> {newproxy_ProxyName m}"
| "reg_ok m runID T (RegRollback ns err) \<longleftrightarrow> set ns \<subseteq> {newproxy_ProxyName m} \<and> (ns = [] \<longrightarrow> leftover m T)"
| "reg_ok m runID T (RegRemove err) \<longleftrightarrow> True"
| "reg_ok m runID T (RegReply (Some err)) \<longleftrightarrow> leftover m T"
| "reg_ok m runID T (RegReply None) \<longleftrightarrow> added m runID T []"

lemma added_more: "added m runID (named_routes n r) (k # todo) \<Longrightarrow> named_routes n r k = None \<Longrightarrow> added m runID (Proxy_Register.extend m runID (named_routes n r) [k]) todo"
  unfolding added_def by (elim exE) (rule_tac x = "xs @ [k]" in exI, auto simp: extend_append, auto simp: Proxy_Register.extend_def)

lemma first_domain_leftover:
  assumes "added m runID T (map (\<lambda>l. (d, normalize_location l)) ls @ wanted_keys m ds)" "newproxy_Locations m \<noteq> []"
    "newproxy_CustomDomains m = d # ds"
  shows "leftover m T"
proof -
  obtain xs where xs: "wanted_keys m (d # ds) = xs @ map (\<lambda>l. (d, normalize_location l)) ls @ wanted_keys m ds"
      "T = Proxy_Register.extend m runID Map.empty xs"
    using assms(1,3) by (auto simp: added_def)
  then have "domain_keys m d = xs @ map (\<lambda>l. (d, normalize_location l)) ls"
    by (simp add: wanted_keys_def)
  then have "set xs \<subseteq> set (domain_keys m d)" by simp
  then have "\<forall>k \<in> set xs. fst k = d"
    by (auto simp: domain_keys_def)
  with xs(2) assms(2,3) show ?thesis
    by (simp add: leftover_def dom_extend)
qed

lemma reg_ok_start: "reg_ok m runID Map.empty (reg_start m)"
  by (auto simp: reg_start_def leftover_def added_def Proxy_Register.extend_def intro!: exI [of _ "[]"])

lemma reg_ok_exec:
  assumes "reg_exec m runID r pc = Some (r', pc')" "router_wf r" "reg_ok m runID (named_routes (newproxy_ProxyName m) r) pc"
  shows "reg_ok m runID (named_routes (newproxy_ProxyName m) r') pc'"
  using assms
proof (cases "(m, runID, r, pc)" rule: reg_exec.cases)
  case (2 m' rid r1 d ds registered)
  have "wanted_keys m (d # ds) = map (\<lambda>l. (d, normalize_location l)) (wanted_locations m) @ wanted_keys m ds"
    by (simp add: wanted_keys_def domain_keys_def)
  then show ?thesis
    using 2 assms by (auto simp: wanted_locations_def normalize_location_def)
next
  case (4 m' rid r1 d l ls ds registered)
  show ?thesis
  proof (cases "Add r (route_cfg m runID d l)")
    case (Inl err)
    then show ?thesis
      using 4 assms first_domain_leftover [of m runID "named_routes (newproxy_ProxyName m) r" d "l # ls" ds] by auto
  next
    case (Inr r2)
    with 4 assms show ?thesis
      using named_routes_Add [OF assms(2) Inr] added_more [OF _ named_routes_free [OF assms(2) Inr], where m = m and runID = runID and n = "newproxy_ProxyName m"]
      by auto
  qed
next
  case (5 m' rid r1 d ds registered)
  have root: "normalize_location ''/'' = ''/''"
    by (simp add: normalize_location_def)
  show ?thesis
  proof (cases "Add r (route_cfg m runID d ''/'')")
    case (Inr r2)
    with 5 assms show ?thesis
      using named_routes_Add [OF assms(2) Inr] added_more [OF _ named_routes_free [OF assms(2) Inr], where m = m and runID = runID and n = "newproxy_ProxyName m"]
      by (auto simp: root)
  qed (use 5 assms in auto)
qed (use assms in \<open>auto simp: named_routes_Remove leftover_def wanted_keys_def\<close>)

subsection \<open>The invariant\<close>

fun reg_names :: "reg_pc \<Rightarrow> string set" where
  "reg_names (RegDomains ds registered) = set registered"
| "reg_names (RegLocations d ls ds registered) = set registered"
| "reg_names (RegRoot d ds registered) = set registered"
| "reg_names (RegRollback ns err) = set ns"
| "reg_names _ = {}"

definition tabled :: "NewProxy \<Rightarrow> string \<Rightarrow> string \<times> string \<Rightarrow> RouteConfig \<Rightarrow> bool" where
  "tabled m runID k rc \<longleftrightarrow> rc = route_cfg m runID (fst k) (snd k)"

text \<open>A step touches no routes but those with the name of its registration, and adds only that registration's routes.\<close>

lemma reg_exec_frame:
  assumes "reg_exec m runID r pc = Some (r', pc')" "router_wf r" "reg_names pc \<subseteq> {newproxy_ProxyName m}"
  shows "router_wf r' \<and> reg_names pc' \<subseteq> {newproxy_ProxyName m} \<and>
    (\<forall>n. n \<noteq> newproxy_ProxyName m \<longrightarrow> named_routes n r' = named_routes n r) \<and>
    (\<forall>k rc. routes_of r' k = Some rc \<longrightarrow> routes_of r k = Some rc \<or> tabled m runID k rc)"
proof -
  have add: "router_wf r2 \<and> (\<forall>n. n \<noteq> newproxy_ProxyName m \<longrightarrow> named_routes n r2 = named_routes n r) \<and>
      (\<forall>k rc. routes_of r2 k = Some rc \<longrightarrow> routes_of r k = Some rc \<or> tabled m runID k rc)"
    if "Add r (route_cfg m runID d l) = Inr r2" for d l r2
    using named_routes_Add [OF assms(2) that] Add_route_cfg [OF assms(2), where m = m and runID = runID and d = d and l = l] that
    by (auto simp: inserted_upto_def Proxy_Register.extend_def tabled_def split: if_splits)
  have remove: "router_wf (Remove r n')" "\<forall>k rc. routes_of (Remove r n') k = Some rc \<longrightarrow> routes_of r k = Some rc" for n'
    using assms(2) by (auto simp: router_wf_Remove routes_of_Remove split: option.splits if_splits)
  show ?thesis
    using assms add remove by (cases "(m, runID, r, pc)" rule: reg_exec.cases) (auto simp: named_routes_Remove split: sum.splits if_splits)
qed

definition reg_inv :: "reg_sys \<Rightarrow> bool" where
  "reg_inv s \<longleftrightarrow> router_wf (table s) \<and>
     (\<forall>(m, runID, pc) \<in> set (regs s). reg_names pc \<subseteq> {newproxy_ProxyName m}) \<and>
     (\<forall>k rc. routes_of (table s) k = Some rc \<longrightarrow> (\<exists>(m, runID, pc) \<in> set (regs s). tabled m runID k rc)) \<and>
     (\<forall>i < length (regs s). sole s i \<longrightarrow>
        (case regs s ! i of (m, runID, pc) \<Rightarrow> reg_ok m runID (named_routes (newproxy_ProxyName m) (table s)) pc))"

lemma reg_invI:
  assumes "router_wf (table s)"
    and "\<And>m runID pc. (m, runID, pc) \<in> set (regs s) \<Longrightarrow> reg_names pc \<subseteq> {newproxy_ProxyName m}"
    and "\<And>k rc. routes_of (table s) k = Some rc \<Longrightarrow> \<exists>(m, runID, pc) \<in> set (regs s). tabled m runID k rc"
    and "\<And>i m runID pc. i < length (regs s) \<Longrightarrow> sole s i \<Longrightarrow> regs s ! i = (m, runID, pc) \<Longrightarrow>
      reg_ok m runID (named_routes (newproxy_ProxyName m) (table s)) pc"
  shows "reg_inv s"
  using assms(1,3,4) unfolding reg_inv_def by (auto split: prod.split dest!: assms(2))

lemma sole_grows:
  assumes "sole s' i" "i < length (regs s)" "length (regs s) \<le> length (regs s')"
    "\<forall>j < length (regs s). reg_name (regs s' ! j) = reg_name (regs s ! j)" "cleaned s \<subseteq> cleaned s'"
  shows "sole s i"
  unfolding sole_def
proof (intro conjI allI impI)
  fix j assume j: "j < length (regs s)" "j \<noteq> i"
  then have "reg_name (regs s' ! j) \<noteq> reg_name (regs s' ! i)"
    using assms(1,3) unfolding sole_def by simp
  then show "reg_name (regs s ! j) \<noteq> reg_name (regs s ! i)"
    using assms(2,4) j(1) by simp
next
  show "reg_name (regs s ! i) \<notin> cleaned s"
    using assms unfolding sole_def by auto
qed

lemma reg_inv_step:
  assumes "reg_step s s'" "reg_inv s" shows "reg_inv s'"
proof -
  have wf: "router_wf (table s)"
    using assms(2) by (simp add: reg_inv_def)
  have names: "reg_names pc \<subseteq> {newproxy_ProxyName m}" if "(m, runID, pc) \<in> set (regs s)" for m runID pc
    using assms(2) that unfolding reg_inv_def by blast
  have from_regs: "\<exists>(m, runID, pc) \<in> set (regs s). tabled m runID k rc" if "routes_of (table s) k = Some rc" for k rc
    using assms(2) that unfolding reg_inv_def by blast
  have ok: "reg_ok m runID (named_routes (newproxy_ProxyName m) (table s)) pc"
    if "i < length (regs s)" "sole s i" "regs s ! i = (m, runID, pc)" for i m runID pc
    using assms(2) that unfolding reg_inv_def by fastforce
  from assms(1) show ?thesis
  proof cases
    case (start m0 rid0)
    have "reg_ok m runID (named_routes (newproxy_ProxyName m) (table s')) pc"
      if i: "i < length (regs s')" "sole s' i" "regs s' ! i = (m, runID, pc)" for i m runID pc
    proof (cases "i < length (regs s)")
      case True
      have "sole s i"
        using i(2) True by (rule sole_grows) (auto simp: start nth_append)
      with True i ok show ?thesis by (simp add: start nth_append)
    next
      case False
      with i have last: "i = length (regs s)" "m = m0" "pc = reg_start m0" by (auto simp: start nth_append)
      have "named_routes (newproxy_ProxyName m) (table s) k = None" for k
      proof (rule ccontr)
        assume "named_routes (newproxy_ProxyName m) (table s) k \<noteq> None"
        then obtain rc where rc: "routes_of (table s) k = Some rc" "ProxyName rc = newproxy_ProxyName m"
          by (auto simp: named_routes_def split: option.splits if_splits)
        then obtain j where "j < length (regs s)" "reg_name (regs s ! j) = newproxy_ProxyName m"
          using from_regs [OF rc(1)] by (fastforce simp: tabled_def route_cfg_def reg_name_def in_set_conv_nth)
        then show False
          using i(2,3) last unfolding sole_def by (auto simp: start nth_append reg_name_def)
      qed
      then have "named_routes (newproxy_ProxyName m) (table s) = Map.empty" by blast
      then show ?thesis
        using reg_ok_start [of m runID] last by (simp add: start)
    qed
    moreover have "\<exists>(m, runID, pc) \<in> set (regs s'). tabled m runID k rc" if "routes_of (table s') k = Some rc" for k rc
      using from_regs [of k rc] that by (auto simp: start)
    moreover have "reg_names (reg_start m0) = {}"
      by (simp add: reg_start_def)
    then have "reg_names pc \<subseteq> {newproxy_ProxyName m}" if "(m, runID, pc) \<in> set (regs s')" for m runID pc
      using names [of m runID pc] that by (auto simp: start)
    moreover have "router_wf (table s')"
      using wf by (simp add: start)
    ultimately show ?thesis by (intro reg_invI)
  next
    case (act i0 m0 rid0 pc0 r' pc')
    have mem: "(m0, rid0, pc0) \<in> set (regs s)"
      using act(2,3) by (metis nth_mem)
    note frame = reg_exec_frame [OF act(4) wf names [OF mem]]
    have "reg_ok m runID (named_routes (newproxy_ProxyName m) r') pc"
      if i: "i < length (regs s)" "sole s' i" "regs s' ! i = (m, runID, pc)" for i m runID pc
    proof (cases "i = i0")
      case True
      then have "sole s i0"
        using i(1,2) by (intro sole_grows [of s' i0 s]) (auto simp: act reg_name_def nth_list_update)
      from reg_ok_exec [OF act(4) wf ok [OF act(2) this act(3)]] show ?thesis
        using i True by (simp add: act(1,2))
    next
      case False
      then have i': "regs s ! i = (m, runID, pc)" "sole s i"
        using i act by (auto intro!: sole_grows [of s' i s] simp: reg_name_def nth_list_update)
      have "newproxy_ProxyName m \<noteq> newproxy_ProxyName m0"
        using i'(1,2) act(2,3) False unfolding sole_def by (auto simp: reg_name_def)
      then show ?thesis
        using ok [OF i(1) i'(2,1)] frame by simp
    qed
    moreover have "\<exists>(m, runID, pc) \<in> set (regs s'). tabled m runID k rc" if "routes_of r' k = Some rc" for k rc
    proof -
      have "\<forall>k rc. routes_of r' k = Some rc \<longrightarrow> routes_of (table s) k = Some rc \<or> tabled m0 rid0 k rc"
        using frame by (elim conjE)
      then have "routes_of (table s) k = Some rc \<or> tabled m0 rid0 k rc"
        using that by blast
      then obtain m runID pc where t: "tabled m runID k rc" "(m, runID, pc) \<in> set (regs s)"
        using from_regs [of k rc] mem by blast
      then obtain j where j: "j < length (regs s)" "regs s ! j = (m, runID, pc)"
        by (auto simp: in_set_conv_nth)
      have len: "length (regs s') = length (regs s)"
        by (simp add: act(1))
      from j have "\<exists>pc. regs s' ! j = (m, runID, pc)"
        using act(2,3) by (cases "j = i0") (simp_all add: act(1))
      then have "\<exists>pc. (m, runID, pc) \<in> set (regs s')"
        using j(1) nth_mem [of j "regs s'"] len by metis
      with t(1) show ?thesis by blast
    qed
    moreover have "reg_names pc \<subseteq> {newproxy_ProxyName m}" if "(m, runID, pc) \<in> set (regs s')" for m runID pc
      using names [of m runID pc] that frame by (auto simp: act(1) dest!: set_update_subset_insert [THEN subsetD])
    ultimately show ?thesis
      using frame by (intro reg_invI) (simp_all add: act(1))
  next
    case (cleanup n)
    have "reg_ok m runID (named_routes (newproxy_ProxyName m) (Remove (table s) n)) pc"
      if i: "i < length (regs s)" "sole s' i" "regs s ! i = (m, runID, pc)" for i m runID pc
    proof -
      have "sole s i" "newproxy_ProxyName m \<noteq> n"
        using i unfolding sole_def by (auto simp: cleanup reg_name_def)
      then show ?thesis
        using ok [OF i(1) _ i(3)] wf by (simp add: named_routes_Remove)
    qed
    moreover have "\<exists>(m, runID, pc) \<in> set (regs s). tabled m runID k rc" if "routes_of (Remove (table s) n) k = Some rc" for k rc
      using that wf from_regs by (auto simp: routes_of_Remove split: option.splits if_splits)
    ultimately show ?thesis
      using names wf by (intro reg_invI) (simp_all add: cleanup router_wf_Remove)
  qed
qed

lemma reg_inv_reachable: "reg_reachable s \<Longrightarrow> reg_inv s"
  unfolding reg_reachable_def
proof (induction rule: rtranclp_induct)
  case base
  then show ?case by (simp add: reg_inv_def init_regs_def router_wf_New routes_of_New)
next
  case (step s s')
  then show ?case using reg_inv_step by blast
qed

section \<open>Properties\<close>


text \<open>
  C15: Under interference a registration with a proxy name of its own keeps its promises. In every interleaving of
  registrations and cleanups, when a registration has been answered whose name nobody else has used, and no cleanup has removed: if it was accepted, the
  table has all its wanted pairs with its own options and run id, and no other route of that name; if it was refused, no route
  of its name is left, except that with several locations routes of its first domain can stay; and two such registrations that were both accepted
  have no pair in common. The table is well-formed throughout.
\<close>

theorem registrations_interleaved:
  assumes "reg_reachable s" "i < length (regs s)" "regs s ! i = (m, runID, RegReply err)" "sole s i"
  shows "router_wf (table s) \<and>
    (err = None \<longrightarrow> named_routes (newproxy_ProxyName m) (table s) =
       Proxy_Register.extend m runID Map.empty (wanted_keys m (newproxy_CustomDomains m))) \<and>
    (err \<noteq> None \<longrightarrow> (\<forall>k rc. routes_of (table s) k = Some rc \<and> ProxyName rc = newproxy_ProxyName m \<longrightarrow>
       newproxy_Locations m \<noteq> [] \<and> fst k = hd (newproxy_CustomDomains m))) \<and>
    (\<forall>j m' runID'. err = None \<and> j < length (regs s) \<and> j \<noteq> i \<and> regs s ! j = (m', runID', RegReply None) \<and> sole s j \<longrightarrow>
       set (wanted_keys m (newproxy_CustomDomains m)) \<inter> set (wanted_keys m' (newproxy_CustomDomains m')) = {})"
proof -
  have inv: "reg_inv s"
    using assms(1) by (rule reg_inv_reachable)
  have ok: "reg_ok m' rid (named_routes (newproxy_ProxyName m') (table s)) pc"
    if "j < length (regs s)" "sole s j" "regs s ! j = (m', rid, pc)" for j m' rid pc
    using inv that unfolding reg_inv_def by fastforce
  have all: "named_routes (newproxy_ProxyName m') (table s) = Proxy_Register.extend m' rid Map.empty (wanted_keys m' (newproxy_CustomDomains m'))"
    if "j < length (regs s)" "sole s j" "regs s ! j = (m', rid, RegReply None)" for j m' rid
    using ok [OF that] by (auto simp: added_def)
  have left: "newproxy_Locations m \<noteq> [] \<and> fst k = hd (newproxy_CustomDomains m)"
    if "err \<noteq> None" "routes_of (table s) k = Some rc" "ProxyName rc = newproxy_ProxyName m" for k rc
  proof -
    have "leftover m (named_routes (newproxy_ProxyName m) (table s))"
      using ok [OF assms(2,4,3)] that(1) by auto
    moreover have "k \<in> dom (named_routes (newproxy_ProxyName m) (table s))"
      using that(2,3) by (simp add: named_routes_def domIff)
    ultimately show ?thesis unfolding leftover_def by blast
  qed
  have disjoint: "set (wanted_keys m (newproxy_CustomDomains m)) \<inter> set (wanted_keys m' (newproxy_CustomDomains m')) = {}"
    if "err = None" "j < length (regs s)" "j \<noteq> i" "regs s ! j = (m', rid', RegReply None)" "sole s j" for j m' rid'
  proof -
    have "newproxy_ProxyName m' \<noteq> newproxy_ProxyName m"
      using assms(2-4) that(2-4) unfolding sole_def by (auto simp: reg_name_def)
    moreover have "dom (named_routes n (table s)) \<inter> dom (named_routes n' (table s)) = {}" if "n \<noteq> n'" for n n'
      using that by (auto simp: named_routes_def split: option.splits if_splits)
    ultimately show ?thesis
      using all [OF assms(2,4)] all [OF that(2,5,4)] assms(3) that(1) by (metis dom_extend dom_empty Un_empty_right)
  qed
  show ?thesis
    using inv all [OF assms(2,4)] assms(3) left disjoint unfolding reg_inv_def by blast
qed

subsection \<open>Runs\<close>

text \<open>A schedule: the registration that takes the next step.\<close>

fun reg_run :: "nat list \<Rightarrow> reg_sys \<Rightarrow> reg_sys option" where
  "reg_run [] s = Some s"
| "reg_run (i # is) s =
     (if i < length (regs s)
      then (case regs s ! i of (m, runID, pc) \<Rightarrow>
        (case reg_exec m runID (table s) pc of
           None \<Rightarrow> None
         | Some (r', pc') \<Rightarrow> reg_run is (s\<lparr>table := r', regs := (regs s)[i := (m, runID, pc')]\<rparr>)))
      else None)"

lemma reg_run_steps: "reg_run is s = Some s' \<Longrightarrow> reg_step\<^sup>*\<^sup>* s s'"
proof (induction "is" s rule: reg_run.induct)
  case (2 i "is" s)
  obtain m runID pc where i: "i < length (regs s)" "regs s ! i = (m, runID, pc)"
    using 2(2) by (auto split: if_splits prod.splits)
  with 2(2) obtain r' pc' where x: "reg_exec m runID (table s) pc = Some (r', pc')"
      "reg_run is (s\<lparr>table := r', regs := (regs s)[i := (m, runID, pc')]\<rparr>) = Some s'"
    by (auto split: option.splits)
  from 2(1) [OF i(1) i(2) [symmetric] refl x(1) refl x(2)] reg_step.act [OF i x(1)] show ?case
    by (rule converse_rtranclp_into_rtranclp [rotated])
qed simp

text \<open>Two clients want the domains \<^verbatim>\<open>a.io\<close> and \<^verbatim>\<open>b.io\<close>, in opposite orders.\<close>

definition a_then_b :: NewProxy where "a_then_b = http_proxy ''ab'' [''a.io'', ''b.io''] []"
definition b_then_a :: NewProxy where "b_then_a = http_proxy ''ba'' [''b.io'', ''a.io''] []"

definition two_regs :: reg_sys where
  "two_regs = \<lparr>table = New, regs = [(a_then_b, ''r1'', reg_start a_then_b), (b_then_a, ''r2'', reg_start b_then_a)], cleaned = {}\<rparr>"

lemma two_regs_reachable: "reg_run is two_regs = Some s \<Longrightarrow> reg_reachable s"
proof -
  assume run: "reg_run is two_regs = Some s"
  have "reg_step init_regs \<lparr>table = New, regs = [(a_then_b, ''r1'', reg_start a_then_b)], cleaned = {}\<rparr>"
    using reg_step.start [of init_regs a_then_b "''r1''"] by (simp add: init_regs_def)
  moreover have "reg_step \<lparr>table = New, regs = [(a_then_b, ''r1'', reg_start a_then_b)], cleaned = {}\<rparr> two_regs"
    using reg_step.start [of "\<lparr>table = New, regs = [(a_then_b, ''r1'', reg_start a_then_b)], cleaned = {}\<rparr>" b_then_a "''r2''"]
    by (simp add: two_regs_def)
  ultimately show ?thesis
    using reg_run_steps [OF run] unfolding reg_reachable_def by (meson converse_rtranclp_into_rtranclp)
qed

lemmas reg_run_eval = two_regs_def reg_start_def a_then_b_def b_then_a_def route_cfg_def http_proxy_def example_proxy_def router_eval

lemma ab_first:
  "\<exists>s e. reg_run [0, 0, 0, 0, 0, 1, 1, 1] two_regs = Some s \<and>
     regs s = [(a_then_b, ''r1'', RegReply None), (b_then_a, ''r2'', RegReply (Some e))] \<and> cleaned s = {}"
  by (simp add: reg_run_eval)

theorem registrations_interleaved_witness:
  "\<exists>s e. reg_reachable s \<and> regs s = [(a_then_b, ''r1'', RegReply None), (b_then_a, ''r2'', RegReply (Some e))] \<and>
     named_routes ''ab'' (table s) = Proxy_Register.extend a_then_b ''r1'' Map.empty [(''a.io'', ''/''), (''b.io'', ''/'')]"
proof -
  obtain s e where s: "reg_run [0, 0, 0, 0, 0, 1, 1, 1] two_regs = Some s"
      "regs s = [(a_then_b, ''r1'', RegReply None), (b_then_a, ''r2'', RegReply (Some e))]" "cleaned s = {}"
    using ab_first by blast
  have reach: "reg_reachable s"
    using s(1) by (rule two_regs_reachable)
  have "sole s 0"
    using s(2,3) by (auto simp: sole_def reg_name_def a_then_b_def b_then_a_def less_Suc_eq)
  with registrations_interleaved [OF reach, of 0 a_then_b "''r1''" None] s(2)
  have "named_routes ''ab'' (table s) = Proxy_Register.extend a_then_b ''r1'' Map.empty [(''a.io'', ''/''), (''b.io'', ''/'')]"
    by (simp add: a_then_b_def wanted_keys_def domain_keys_def wanted_locations_def normalize_location_def)
  with reach s(2) show ?thesis by blast
qed

lemma ab_both_fail:
  "\<exists>s e1 e2. reg_run [0, 0, 1, 1, 0, 0, 1, 1, 0, 1] two_regs = Some s \<and>
     regs s = [(a_then_b, ''r1'', RegReply (Some e1)), (b_then_a, ''r2'', RegReply (Some e2))] \<and> cleaned s = {}"
  by (simp add: reg_run_eval)

lemma both_refused_empty:
  assumes "reg_reachable s" "regs s = [(a_then_b, ''r1'', RegReply (Some e1)), (b_then_a, ''r2'', RegReply (Some e2))]" "cleaned s = {}"
  shows "routes_of (table s) = Map.empty"
proof (rule ccontr)
  assume "routes_of (table s) \<noteq> Map.empty"
  then obtain k rc where rc: "routes_of (table s) k = Some rc"
    by (metis not_Some_eq ext)
  have inv: "reg_inv s"
    using assms(1) by (rule reg_inv_reachable)
  have "\<exists>(m, runID, pc) \<in> set (regs s). tabled m runID k rc"
    using inv rc unfolding reg_inv_def by blast
  then obtain m runID pc where m: "(m, runID, pc) \<in> set (regs s)" "tabled m runID k rc" by blast
  then obtain i where i: "i < length (regs s)" "regs s ! i = (m, runID, pc)"
    by (auto simp: in_set_conv_nth)
  have refused: "newproxy_Locations m = [] \<and> (\<exists>e. pc = RegReply (Some e))"
    using m(1) assms(2) by (auto simp: a_then_b_def b_then_a_def)
  have name: "ProxyName rc = newproxy_ProxyName m"
    using m(2) by (simp add: tabled_def route_cfg_def)
  have "sole s i"
    using assms(2,3) i(1) by (auto simp: sole_def reg_name_def a_then_b_def b_then_a_def less_Suc_eq)
  with inv i refused have "leftover m (named_routes (newproxy_ProxyName m) (table s))"
    unfolding reg_inv_def by fastforce
  moreover have "k \<in> dom (named_routes (newproxy_ProxyName m) (table s))"
    using rc name by (simp add: named_routes_def domIff)
  ultimately show False
    using refused unfolding leftover_def by blast
qed

text \<open>
  C20: Registrations are not serializable. There is an interleaving of two registrations for the same two domains, named in opposite
  orders, on an empty table in which both are refused and the table ends up empty, although whichever of the two the server
  handled first would have been accepted: each adds its first domain and is then refused because of the other's.
\<close>

theorem registrations_both_refused:
  "\<exists>s e1 e2. reg_reachable s \<and> regs s = [(a_then_b, ''r1'', RegReply (Some e1)), (b_then_a, ''r2'', RegReply (Some e2))] \<and>
     routes_of (table s) = Map.empty \<and> cleaned s = {} \<and>
     newproxyresp_Error (snd (snd (handleNewProxy (Some New) a_then_b ''r1'' {}))) = [] \<and>
     newproxyresp_Error (snd (snd (handleNewProxy (Some New) b_then_a ''r2'' {}))) = []"
proof -
  obtain s e1 e2 where s: "reg_run [0, 0, 1, 1, 0, 0, 1, 1, 0, 1] two_regs = Some s"
      "regs s = [(a_then_b, ''r1'', RegReply (Some e1)), (b_then_a, ''r2'', RegReply (Some e2))]" "cleaned s = {}"
    using ab_both_fail by blast
  have "newproxyresp_Error (snd (snd (handleNewProxy (Some New) a_then_b ''r1'' {}))) = []"
    by (simp add: handleNewProxy_def reg_run_eval)
  moreover have "newproxyresp_Error (snd (snd (handleNewProxy (Some New) b_then_a ''r2'' {}))) = []"
    by (simp add: handleNewProxy_def reg_run_eval)
  ultimately show ?thesis
    using s two_regs_reachable [OF s(1)] both_refused_empty [OF two_regs_reachable [OF s(1)] s(2,3)] by blast
qed

end
