(* ===== verification/Spec2Isabelle.thy ===== *)
theory Spec2Isabelle
  imports Drps_Main Dial_Props Msg_Buffers Register_Steps
begin

text \<open>
  drp: a reverse-proxy server that speaks the frp protocol. Clients (\<^verbatim>\<open>frpc\<close>) open control sessions, register
  HTTP proxies and offer work connections; HTTP requests are matched against the registered routes and sent over a
  pooled work connection of the client that owns the route. This development models the Go sources under
  \<^verbatim>\<open>src/internal\<close> and \<^verbatim>\<open>src/cmd/drps\<close>.

  \<^bold>\<open>Theories and the code they model.\<close>

  \<^item> \<open>Prelude\<close>, \<open>Go_Strings\<close>, \<open>Go_Chan\<close>, \<open>Bufio\<close>, \<open>Json\<close>, \<open>Http\<close>: what the sources use of Go and its standard
    library: byte strings, \<^verbatim>\<open>strings\<close> and \<^verbatim>\<open>strconv\<close> functions, buffered channels (locale \<open>bounded_fifo\<close>), \<^verbatim>\<open>bufio.Writer\<close>,
    \<^verbatim>\<open>encoding/json\<close> with UTF-8, header maps and basic authentication.
  \<^item> \<open>Router\<close>: \<^verbatim>\<open>router/router.go\<close>. The record \<open>Router\<close> has the two maps of the struct; \<open>Add\<close>, \<open>Remove\<close>, \<open>Lookup\<close>,
    \<open>matchRoutes\<close> are its methods. \<open>routes_of\<close> abstracts it to one finite map from (domain, location) to routes,
    and every operation is shown to refine the obvious operation on that map.
  \<^item> \<open>Messages\<close>: \<^verbatim>\<open>msg/msg.go\<close>. The ten message structs, \<open>WriteMsg\<close> and \<open>ReadMsg\<close>: round trip, streams cut anywhere, size limits.
  \<^item> \<open>Msg_Buffers\<close>: the same calls with the buffers they recycle through a \<^verbatim>\<open>sync.Pool\<close>; \<open>buf_exec\<close> is one step of one call, on a heap of buffers.
  \<^item> \<open>Proxy_Register\<close>: \<^verbatim>\<open>server/proxy_register.go\<close>. \<open>handleNewProxy\<close> with its nested loops and rollbacks.
  \<^item> \<open>Register_Steps\<close>: the same handler one router operation at a time (\<open>reg_exec\<close>), interleaved with other registrations and cleanups.
  \<^item> \<open>Pool\<close>, \<open>Registry\<close>: \<^verbatim>\<open>pool/pool.go\<close>, \<^verbatim>\<open>pool/registry.go\<close>. The methods of a pool and its refill worker are
    goroutines whose atomic actions \<open>exec\<close> interleaves arbitrarily (\<open>pool_step\<close>); the registry is a table of pool
    references (interpretation \<open>reg_table\<close> of the locale \<open>key_table\<close> from \<open>Key_Table\<close>).
  \<^item> \<open>Req_Stats\<close>, \<open>Control_Writer\<close>: \<^verbatim>\<open>server/stats.go\<close>, \<^verbatim>\<open>server/control_writer.go\<close>. \<open>cw_exec\<close> is one step of the writer loop, \<open>cw_step\<close>
    interleaves it with the senders, the timer and the connection.
  \<^item> \<open>Auth\<close>, \<open>Crypto\<close>, \<open>Snappy\<close>, \<open>Wrap\<close>: \<^verbatim>\<open>auth/auth.go\<close>, \<^verbatim>\<open>crypto/crypto.go\<close>, \<^verbatim>\<open>crypto/snappy.go\<close>, \<^verbatim>\<open>wrap/wrap.go\<close>. MD5 and AES-CFB are
    concrete functions; PBKDF2 and the snappy package, which are not in the repository, are parameters (\<open>snappy_ok\<close> is what
    the package documents).
  \<^item> \<open>Config\<close>: \<^verbatim>\<open>config/config.go\<close> and the yamux settings of \<^verbatim>\<open>main.go\<close>.
  \<^item> \<open>Proxy\<close>, \<open>Transport\<close>: \<^verbatim>\<open>proxy/proxy.go\<close>. The gate \<open>ServeHTTP\<close>, the reverse-proxy hooks and \<open>dialWorkConn\<close>; the builders, the route in
    the context, the copy buffers, and the idle connections that \<^verbatim>\<open>http.Transport\<close> keeps under the key that the hooks choose.
  \<^item> \<open>Control_Manager\<close>, \<open>Handle\<close>: \<^verbatim>\<open>server/control_manager.go\<close>, \<^verbatim>\<open>server/handle.go\<close>, \<^verbatim>\<open>server/util.go\<close>. \<open>server\<close> extends the \<open>Handler\<close> struct by the
    live sessions and refill calls; \<open>server_step\<close> interleaves, for any number of sessions, the goroutine of each
    session (\<open>handler_exec\<close>, \<open>controlLoop\<close>), its writer (\<open>writer_exec\<close>, which is \<open>cw_exec\<close> on the shared counters), its
    context watcher and heartbeat timer, and the calls of \<open>ReqWorkConnFunc\<close>.
  \<^item> \<open>Sessions\<close>, \<open>Session_Props\<close>: invariants of the reachable server states and the properties of the sessions. The
    locale \<open>handler_owner\<close> is the contract between the handler and the owner of its callbacks.
  \<^item> \<open>Metrics\<close>: \<^verbatim>\<open>server/metrics.go\<close>. The endpoint with its JSON, and what a snapshot is when others count meanwhile.
  \<^item> \<open>Pool_Owner\<close>, \<open>Server_Stack\<close>, \<open>Stack_Props\<close>: \<^verbatim>\<open>cmd/drps/main.go\<close>. \<open>stack_pools\<close> is the registry with the goroutines inside
    all pools; \<open>put_work_conn\<close> and \<open>close_session_pool\<close> are the callbacks, \<open>pool_runs\<close> an action of any of those goroutines. The
    interpretation \<open>stack\<close> discharges the owner's contract with an invariant by which each pool is in a reachable state of the
    protocol of \<open>Pool\<close>. \<open>buildServerStack\<close> wires the parts; the properties are about sessions, router and pools in one state.
  \<^item> \<open>Data_Path\<close>, \<open>Path_Props\<close>, \<open>Dial_Props\<close>: requests on top of it. \<open>system_step\<close> interleaves requests, dials and idle connections with the server;
    \<open>Dial_Props\<close> counts the dials and the goroutines in \<^verbatim>\<open>Get\<close>, so that a request never waits for nothing.
  \<^item> \<open>Drps_Main\<close>: \<^verbatim>\<open>main\<close>, \<^verbatim>\<open>runFrpcAccept\<close> and \<^verbatim>\<open>handleFrpcConnection\<close>. \<open>process_step\<close> interleaves the accept loops with the
    system, which it refines.

  \<^bold>\<open>How the parts interact.\<close> A stream's first message goes to \<open>HandleConnection\<close>: a \<open>Login\<close> (checked by \<open>VerifyAuth\<close>) makes
  a session, whose \<open>NewProxy\<close> messages change the router through \<open>handleNewProxy\<close>; a \<open>NewWorkConn\<close> puts the connection into
  the registry's pool for its run id. \<open>ServeHTTP\<close> asks the router, \<open>dialWorkConn\<close> takes a connection from the pool and
  wraps it. A pool that runs low calls \<open>ReqWorkConnFunc\<close>, which finds the session in the control manager and signals its writer.

  \<^bold>\<open>What is shown.\<close> Refinement of the routing table; what a registration does, and the two cases in which its
  rollback is wrong; what of this survives when registrations interleave, and that they are not serializable; that recycled
  buffers cannot be noticed; that no refill demand and no connection is lost in a pool, that closing is complete and that a pool comes to
  rest, for one pool and for every pool of the program; the panic of a \<^verbatim>\<open>Put\<close> against a \<^verbatim>\<open>Close\<close>, for one pool and in a run of the
  program from its start; that the control stream decodes to the written messages, counts every signal and is
  flushed; that all reachable server states are well-formed, authenticated and account for every signal; what
  registering and cleaning up a session does; the states in which a session is blocked for good, and the reconnect that loses
  the new session; the gate and the hooks of the proxy; whose connection a request is sent over, that connections are used
  exclusively, that a waiting request can always be answered, and the idle connection that outlives its client; the collision of transport pool keys and the lookup of hosts with a
  port; transparency of the encryption and compression layers, and that compression holds nothing back; that the metrics are read
  back exactly, and that they are not a consistent read; that the process with its accept loops refines the system, and the
  configuration with which it serves nobody.

  \<^bold>\<open>Bounds and fuel.\<close> Loops are structural recursion or recursion with a termination proof (the JSON parser decreases the input,
  the writer's stop is bounded by a rank of 134 steps, the answer to a waiting request by 12). Integers that can wrap are words or \<open>int64\<close>; counters are
  unbounded numbers, because the 64-bit ones do not overflow in practice. Queue capacities are those of the code.

  \<^bold>\<open>Granularity.\<close> Methods that run under one mutex are atomic. In \<open>Pool\<close> and \<open>Control_Writer\<close> every atomic or channel
  operation is a step of its own, also when the pools are part of the program (\<open>pool_runs\<close>); the exception is \<^verbatim>\<open>Close\<close> there, which is
  one step with \<^verbatim>\<open>Remove\<close>, whose mutex it runs under (\<open>Close_run\<close> shows that it is a run of the pool's protocol). In
  \<open>server_step\<close> a handled \<open>NewProxy\<close> message and a group of counter additions without a branch are one step each, so
  interleavings inside those are not covered there; \<open>Register_Steps\<close> covers them for the routing table. In \<open>system_step\<close> the environment decides whether wrapping a connection succeeds and when a
  request, a connection or its peer ends.

  \<^bold>\<open>Not modelled.\<close> The copying of bodies by \<^verbatim>\<open>httputil.ReverseProxy\<close>, HTTP/2 and h2c, timeouts of \<^verbatim>\<open>http.Transport\<close> as clock times (a
  connection or a request may end at any step); sockets and yamux (whether listening, the handshake and a stream succeed is a parameter or left open);
  logging; the client and the test harness under \<^verbatim>\<open>test\<close>.
\<close>

end
